(* ===== verification/Prelude.thy ===== *)
theory Prelude
  imports Main "HOL-Library.Monad_Syntax" "HOL-Library.AList"
begin

text \<open>
  Shared vocabulary of the development.

  \<^item> Bytes and strings.  A Rust \<open>u8\<close> is an Isabelle \<^typ>\<open>char\<close> (HOL characters are exactly
    the 256 byte values); \<open>&[u8]\<close>, \<open>Vec<u8>\<close> and the UTF-8 buffer behind \<open>&str\<close> and
    \<open>String\<close> are lists of them, so that \<^const>\<open>length\<close> is Rust's \<open>len()\<close>.
  \<^item> Machine integers.  \<open>usize\<close> and \<open>u64\<close> values are natural numbers; the saturating and
    checked operations the code uses are written out against the largest 64-bit value.
  \<^item> Fallible code returns a sum: \<open>Inl\<close> is Rust's \<open>Err\<close>, \<open>Inr\<close> is \<open>Ok\<close>.
  \<^item> Hash maps whose iteration order the code observes are association lists with distinct
    keys; the order of the list stands for the iteration order, over which every statement
    quantifies.
  \<^item> \<open>std::io::Write\<close> sinks driven by a serializer: a serializer run is the list of the
    buffers it writes together with whether it completes.
\<close>

named_theorems result_simps \<open>rewriting of results and result binds\<close>
named_theorems wf_intros \<open>invariant preservation of the components' operations\<close>

section \<open>Types\<close>

type_synonym byte = char
type_synonym bytes = "char list"
type_synonym instant = nat
type_synonym duration = nat

abbreviation code :: "byte \<Rightarrow> nat" where
  "code c \<equiv> of_char c"

section \<open>64-bit unsigned arithmetic\<close>

definition u64_max :: nat where
  "u64_max = 18446744073709551615"

definition sat_add :: "nat \<Rightarrow> nat \<Rightarrow> nat" where
  "sat_add a b = min (a + b) u64_max"

definition checked_add :: "nat \<Rightarrow> nat \<Rightarrow> nat option" where
  "checked_add a b = (if a + b \<le> u64_max then Some (a + b) else None)"

definition checked_sub :: "nat \<Rightarrow> nat \<Rightarrow> nat option" where
  "checked_sub a b = (if b \<le> a then Some (a - b) else None)"

lemma sat_add_le_max [simp]: "sat_add a b \<le> u64_max"
  by (simp add: sat_add_def)

lemma sat_add_le_sum: "sat_add a b \<le> a + b"
  by (simp add: sat_add_def)

lemma sat_add_exact: "a + b \<le> u64_max \<Longrightarrow> sat_add a b = a + b"
  by (simp add: sat_add_def)

lemma sat_add_le_iff: "sat_add a b \<le> n \<longleftrightarrow> a + b \<le> n \<or> u64_max \<le> n"
  by (auto simp: sat_add_def)

lemma checked_add_Some_iff: "checked_add a b = Some c \<longleftrightarrow> c = a + b \<and> a + b \<le> u64_max"
  by (auto simp: checked_add_def)

lemma checked_add_None_iff: "checked_add a b = None \<longleftrightarrow> u64_max < a + b"
  by (auto simp: checked_add_def)

lemma checked_sub_Some_iff: "checked_sub a b = Some c \<longleftrightarrow> b \<le> a \<and> c = a - b"
  by (auto simp: checked_sub_def)

section \<open>Results\<close>

fun is_ok :: "'e + 'a \<Rightarrow> bool" where
  "is_ok (Inl e) = False"
| "is_ok (Inr x) = True"

definition ok_or :: "'e \<Rightarrow> 'a option \<Rightarrow> 'e + 'a" where
  "ok_or e m = (case m of None \<Rightarrow> Inl e | Some x \<Rightarrow> Inr x)"

lemma ok_or_simps [simp, result_simps]:
  "ok_or e None = Inl e" "ok_or e (Some x) = Inr x"
  by (simp_all add: ok_or_def)

lemma is_ok_iff: "is_ok r \<longleftrightarrow> (\<exists>x. r = Inr x)"
  by (cases r) auto

section \<open>Lists\<close>

definition strip_suffix :: "'a list \<Rightarrow> 'a list \<Rightarrow> 'a list option" where
  "strip_suffix xs suf =
     (if length suf \<le> length xs \<and> drop (length xs - length suf) xs = suf
      then Some (take (length xs - length suf) xs) else None)"

definition starts_with :: "'a list \<Rightarrow> 'a list \<Rightarrow> bool" where
  "starts_with xs pre \<longleftrightarrow> take (length pre) xs = pre"

fun position :: "('a \<Rightarrow> bool) \<Rightarrow> 'a list \<Rightarrow> nat option" where
  "position P [] = None"
| "position P (x # xs) = (if P x then Some 0 else map_option Suc (position P xs))"

lemma strip_suffix_single:
  "strip_suffix xs [c] = (if xs \<noteq> [] \<and> last xs = c then Some (butlast xs) else None)"
proof (cases xs rule: rev_cases)
  case (snoc ys y)
  then show ?thesis by (auto simp: strip_suffix_def)
qed (simp add: strip_suffix_def)

lemma position_None_iff: "position P xs = None \<longleftrightarrow> (\<forall>x \<in> set xs. \<not> P x)"
  by (induction xs) auto

lemma position_Some_iff:
  "position P xs = Some i \<longleftrightarrow> i < length xs \<and> P (xs ! i) \<and> (\<forall>j < i. \<not> P (xs ! j))"
proof (induction xs arbitrary: i)
  case Nil
  then show ?case by simp
next
  case (Cons x xs)
  then show ?case
    by (cases i) (auto simp: less_Suc_eq_0_disj)
qed

lemma position_Some_split:
  assumes "position P xs = Some i"
  obtains ys y zs where "xs = ys @ y # zs" "length ys = i" "P y" "\<forall>x \<in> set ys. \<not> P x"
proof -
  from assms have i: "i < length xs" and y: "P (xs ! i)" and b: "\<forall>j < i. \<not> P (xs ! j)"
    by (auto simp: position_Some_iff)
  show thesis
  proof
    show "xs = take i xs @ xs ! i # drop (Suc i) xs"
      using i by (rule id_take_nth_drop)
    show "length (take i xs) = i" using i by simp
    show "P (xs ! i)" by (fact y)
    show "\<forall>x \<in> set (take i xs). \<not> P x"
      using b i by (auto simp: in_set_conv_nth)
  qed
qed

lemma position_append:
  "position P (xs @ ys) =
     (case position P xs of Some i \<Rightarrow> Some i
      | None \<Rightarrow> map_option (\<lambda>j. length xs + j) (position P ys))"
proof (induction xs)
  case Nil
  then show ?case by (cases "position P ys") auto
next
  case (Cons x xs)
  then show ?case
    by (cases "position P xs"; cases "position P ys") auto
qed

section \<open>Byte sinks driven by a serializer\<close>

text \<open>
  \<open>serde_json::to_writer(&mut sink, value)\<close> calls \<open>write_all\<close> on the sink with one buffer after
  another and stops at the first error (an empty buffer never reaches \<open>write\<close>).  A serializer run is a pair: the buffers it would
  write, and whether the serialization itself completes.
\<close>

type_synonym ser_run = "bytes list \<times> bool"

fun write_all :: "('w \<Rightarrow> bytes \<Rightarrow> 'w \<times> bool) \<Rightarrow> 'w \<Rightarrow> bytes list \<Rightarrow> 'w \<times> bool" where
  "write_all wr w [] = (w, True)"
| "write_all wr w (b # bs) =
     (if b = [] then write_all wr w bs
      else let (w', fine) = wr w b in if fine then write_all wr w' bs else (w', False))"

definition to_writer :: "('w \<Rightarrow> bytes \<Rightarrow> 'w \<times> bool) \<Rightarrow> 'w \<Rightarrow> ser_run \<Rightarrow> 'w \<times> bool" where
  "to_writer wr w r =
     (let (w', fine) = write_all wr w (fst r) in (w', fine \<and> snd r))"

section \<open>Checked sums\<close>

text \<open>The code's \<open>try_fold(0, |total, x| total.checked_add(x))\<close>.\<close>

fun try_sum_from :: "nat \<Rightarrow> nat list \<Rightarrow> nat option" where
  "try_sum_from acc [] = Some acc"
| "try_sum_from acc (x # xs) =
     (case checked_add acc x of None \<Rightarrow> None | Some t \<Rightarrow> try_sum_from t xs)"

lemma try_sum_from_eq:
  "acc \<le> u64_max \<Longrightarrow>
   try_sum_from acc xs = (if acc + sum_list xs \<le> u64_max then Some (acc + sum_list xs) else None)"
  by (induction xs arbitrary: acc) (auto simp: checked_add_def)

lemma try_sum_eq:
  "try_sum_from 0 xs = (if sum_list xs \<le> u64_max then Some (sum_list xs) else None)"
  using try_sum_from_eq [of 0 xs] by simp

section \<open>Decimal numerals\<close>

definition digit_char :: "nat \<Rightarrow> byte" where
  "digit_char d = char_of (48 + d)"

fun show_nat :: "nat \<Rightarrow> bytes" where
  "show_nat n = (if n < 10 then [digit_char n] else show_nat (n div 10) @ [digit_char (n mod 10)])"

declare show_nat.simps [simp del]

definition read_nat :: "bytes \<Rightarrow> nat" where
  "read_nat s = foldl (\<lambda>n c. n * 10 + (code c - 48)) 0 s"

lemma code_digit_char: "d < 10 \<Longrightarrow> code (digit_char d) = 48 + d"
  by (simp add: digit_char_def)

lemma read_show_nat [simp]: "read_nat (show_nat n) = n"
proof (induction n rule: show_nat.induct)
  case (1 n)
  show ?case
  proof (cases "n < 10")
    case True
    then show ?thesis by (simp add: show_nat.simps [of n] read_nat_def code_digit_char)
  next
    case False
    with 1 have "read_nat (show_nat (n div 10)) = n div 10" by simp
    with False show ?thesis
      by (simp add: show_nat.simps [of n] read_nat_def code_digit_char)
  qed
qed

lemma show_nat_digits: "c \<in> set (show_nat n) \<Longrightarrow> 48 \<le> code c \<and> code c < 58"
proof (induction n rule: show_nat.induct)
  case (1 n)
  then show ?case
    using code_digit_char [of "n mod 10"] code_digit_char [of n]
    by (subst (asm) show_nat.simps) (auto split: if_splits)
qed

lemma show_nat_no_dash: "CHR ''-'' \<notin> set (show_nat n)"
  using show_nat_digits [of "CHR ''-''" n] by auto

lemma show_nat_inject [simp]: "show_nat m = show_nat n \<longleftrightarrow> m = n"
  by (metis read_show_nat)

section \<open>Guarded state machines\<close>

text \<open>
  A component as a machine: an operation applies to a state when \<open>pre\<close> holds of it, and every
  operation keeps the invariant.  \<open>admissible\<close> says that each operation of a sequence applies to
  the state it meets.
\<close>

fun admissible :: "('op \<Rightarrow> 's \<Rightarrow> bool) \<Rightarrow> ('op \<Rightarrow> 's \<Rightarrow> 's) \<Rightarrow> 'op list \<Rightarrow> 's \<Rightarrow> bool" where
  "admissible pre step [] s = True"
| "admissible pre step (a # as) s = (pre a s \<and> admissible pre step as (step a s))"

locale guarded_machine =
  fixes inv :: "'s \<Rightarrow> bool"
    and pre :: "'op \<Rightarrow> 's \<Rightarrow> bool"
    and step :: "'op \<Rightarrow> 's \<Rightarrow> 's"
  assumes step_keeps: "inv s \<Longrightarrow> pre a s \<Longrightarrow> inv (step a s)"
begin

lemma run_keeps: "inv s \<Longrightarrow> admissible pre step as s \<Longrightarrow> inv (fold step as s)"
  by (induction as arbitrary: s) (auto intro: step_keeps)

end

end
