(* ===== verification/Event_Store.thy ===== *)
theory Event_Store
  imports Prelude
begin

text \<open>
  The retention store for event-stream resumption
  (\<open>crates/fastmcp-transport/src/event_store.rs\<close>): configuration, payload accounting, the events of
  one stream with their index, and the store over all streams.  Every operation takes the clock
  reading it makes (\<open>now\<close>, one reading for each call) and, where it creates an event, the wall
  clock in milliseconds.  JSON values are a type parameter; their compact encoding is the
  argument \<open>ser\<close>.  The read-write lock serialises the operations, so each is a function on the
  state.
\<close>

section \<open>Errors, entries and configuration\<close>

datatype event_store_error =
    InvalidZeroLimit string
  | StreamIdTooLong nat
  | EventPayloadTooLarge nat
  | StreamLimitReached nat
  | AggregatePayloadLimitExceeded nat
  | ReplayCursorTooLong nat
  | ReplayCursorNotRetained
  | ReplayEventPayloadTooLarge nat
  | PayloadMeasurementFailed

record 'v event_entry =
  entry_id :: bytes
  entry_stream_id :: bytes
  entry_data :: "'v option"
  created_at :: instant

definition is_expired :: "instant \<Rightarrow> 'v event_entry \<Rightarrow> duration option \<Rightarrow> bool" where
  "is_expired now e ttl_opt = (case ttl_opt of Some d \<Rightarrow> now - created_at e > d | None \<Rightarrow> False)"

record 'v replay_batch =
  batch_events :: "'v event_entry list"
  next_after_id :: "bytes option"
  batch_payload_bytes :: nat
  complete :: bool

definition empty_batch :: "'v replay_batch" where
  "empty_batch = \<lparr>batch_events = [], next_after_id = None, batch_payload_bytes = 0,
     complete = True\<rparr>"

record event_store_config =
  max_events_per_stream :: nat
  max_streams :: nat
  max_stream_id_bytes :: nat
  max_event_payload_bytes :: nat
  max_total_event_payload_bytes :: nat
  max_replay_events :: nat
  max_replay_payload_bytes :: nat
  max_replay_cursor_bytes :: nat
  ttl :: "duration option"

definition default_config :: event_store_config where
  "default_config = \<lparr>max_events_per_stream = 100, max_streams = 1024, max_stream_id_bytes = 256,
     max_event_payload_bytes = 1024 * 1024, max_total_event_payload_bytes = 64 * 1024 * 1024,
     max_replay_events = 64, max_replay_payload_bytes = 1024 * 1024,
     max_replay_cursor_bytes = 256, ttl = Some (3600 * 1000000000)\<rparr>"

definition no_expiry :: event_store_config where
  "no_expiry = default_config\<lparr>ttl := None\<rparr>"

definition set_max_events :: "nat \<Rightarrow> event_store_config \<Rightarrow> event_store_config" where
  "set_max_events m c = c\<lparr>max_events_per_stream := m\<rparr>"

definition set_max_streams :: "nat \<Rightarrow> event_store_config \<Rightarrow> event_store_config" where
  "set_max_streams m c = c\<lparr>max_streams := m\<rparr>"

definition set_max_stream_id_bytes :: "nat \<Rightarrow> event_store_config \<Rightarrow> event_store_config" where
  "set_max_stream_id_bytes m c = c\<lparr>max_stream_id_bytes := m\<rparr>"

definition set_max_event_payload_bytes :: "nat \<Rightarrow> event_store_config \<Rightarrow> event_store_config" where
  "set_max_event_payload_bytes m c = c\<lparr>max_event_payload_bytes := m\<rparr>"

definition set_max_total_event_payload_bytes :: "nat \<Rightarrow> event_store_config \<Rightarrow> event_store_config" where
  "set_max_total_event_payload_bytes m c = c\<lparr>max_total_event_payload_bytes := m\<rparr>"

definition set_max_replay_events :: "nat \<Rightarrow> event_store_config \<Rightarrow> event_store_config" where
  "set_max_replay_events m c = c\<lparr>max_replay_events := m\<rparr>"

definition set_max_replay_payload_bytes :: "nat \<Rightarrow> event_store_config \<Rightarrow> event_store_config" where
  "set_max_replay_payload_bytes m c = c\<lparr>max_replay_payload_bytes := m\<rparr>"

definition set_max_replay_cursor_bytes :: "nat \<Rightarrow> event_store_config \<Rightarrow> event_store_config" where
  "set_max_replay_cursor_bytes m c = c\<lparr>max_replay_cursor_bytes := m\<rparr>"

definition set_ttl :: "duration \<Rightarrow> event_store_config \<Rightarrow> event_store_config" where
  "set_ttl d c = c\<lparr>ttl := Some d\<rparr>"

definition no_ttl :: "event_store_config \<Rightarrow> event_store_config" where
  "no_ttl c = c\<lparr>ttl := None\<rparr>"

fun first_zero :: "(string \<times> nat) list \<Rightarrow> event_store_error + unit" where
  "first_zero [] = Inr ()"
| "first_zero ((field, limit) # rest) =
     (if limit = 0 then Inl (InvalidZeroLimit field) else first_zero rest)"

definition validate :: "event_store_config \<Rightarrow> event_store_error + unit" where
  "validate c = first_zero
     [(''max_events_per_stream'', max_events_per_stream c),
      (''max_streams'', max_streams c),
      (''max_stream_id_bytes'', max_stream_id_bytes c),
      (''max_event_payload_bytes'', max_event_payload_bytes c),
      (''max_total_event_payload_bytes'', max_total_event_payload_bytes c),
      (''max_replay_events'', max_replay_events c),
      (''max_replay_payload_bytes'', max_replay_payload_bytes c),
      (''max_replay_cursor_bytes'', max_replay_cursor_bytes c)]"

section \<open>Payload accounting\<close>

record payload_byte_counter =
  counter_bytes :: nat
  counter_max_bytes :: nat
  counter_exceeded :: bool

definition counter_new :: "nat \<Rightarrow> payload_byte_counter" where
  "counter_new m = \<lparr>counter_bytes = 0, counter_max_bytes = m, counter_exceeded = False\<rparr>"

definition counter_write :: "payload_byte_counter \<Rightarrow> bytes \<Rightarrow> payload_byte_counter \<times> bool" where
  "counter_write w buffer =
     (case checked_add (counter_bytes w) (length buffer) of
        None \<Rightarrow> (w\<lparr>counter_exceeded := True\<rparr>, False)
      | Some next_bytes \<Rightarrow>
          if next_bytes > counter_max_bytes w then (w\<lparr>counter_exceeded := True\<rparr>, False)
          else (w\<lparr>counter_bytes := next_bytes\<rparr>, True))"

definition measure_event_payload ::
  "('v \<Rightarrow> ser_run) \<Rightarrow> 'v option \<Rightarrow> nat \<Rightarrow> event_store_error + nat" where
  "measure_event_payload ser data max_bytes =
     (case data of
        None \<Rightarrow> Inr 0
      | Some v \<Rightarrow>
          let (w, fine) = to_writer counter_write (counter_new max_bytes) (ser v)
          in if fine then Inr (counter_bytes w)
             else if counter_exceeded w then Inl (EventPayloadTooLarge max_bytes)
             else Inl PayloadMeasurementFailed)"

section \<open>The events of one stream\<close>

record 'v stored_event =
  entry :: "'v event_entry"
  payload_bytes :: nat

record 'v stream_events =
  events :: "'v stored_event list"
  index :: "bytes \<rightharpoonup> nat"

abbreviation event_id :: "'v stored_event \<Rightarrow> bytes" where
  "event_id e \<equiv> entry_id (entry e)"

definition stream_events_new :: "'v stream_events" where
  "stream_events_new = \<lparr>events = [], index = Map.empty\<rparr>"

definition prospective_evicted_payload_bytes :: "nat \<Rightarrow> 'v stream_events \<Rightarrow> nat option" where
  "prospective_evicted_payload_bytes max_events st =
     (case checked_add (length (events st)) 1 of
        None \<Rightarrow> None
      | Some n \<Rightarrow> try_sum_from 0 (map payload_bytes (take (n - max_events) (events st))))"

fun insert_indices :: "nat \<Rightarrow> 'v stored_event list \<Rightarrow> (bytes \<rightharpoonup> nat) \<Rightarrow> (bytes \<rightharpoonup> nat)" where
  "insert_indices i [] m = m"
| "insert_indices i (e # es) m = insert_indices (Suc i) es (m(event_id e \<mapsto> i))"

definition rebuild_index :: "'v stream_events \<Rightarrow> 'v stream_events" where
  "rebuild_index st = st\<lparr>index := insert_indices 0 (events st) Map.empty\<rparr>"

text \<open>
  The eviction loop of \<open>push\<close>.  The code guards it with \<open>max_events > 0\<close>, so that the deque is
  never empty when the loop condition holds.
\<close>

function evict_oldest :: "nat \<Rightarrow> 'v stream_events \<Rightarrow> 'v stream_events" where
  "evict_oldest max_events st =
     (case events st of
        [] \<Rightarrow> st
      | oldest # rest \<Rightarrow>
          if length (events st) \<ge> max_events
          then evict_oldest max_events
                 (rebuild_index (st\<lparr>events := rest, index := (index st)(event_id oldest := None)\<rparr>))
          else st)"
  by pat_completeness auto
termination
  by (relation "measure (\<lambda>(_, st). length (events st))") (auto simp: rebuild_index_def)

declare evict_oldest.simps [simp del]

definition push ::
  "'v event_entry \<Rightarrow> nat \<Rightarrow> nat \<Rightarrow> 'v stream_events \<Rightarrow> (event_store_error + unit) \<times> 'v stream_events" where
  "push e bytes max_events st =
     (if max_events = 0 then (Inl (InvalidZeroLimit ''max_events_per_stream''), st)
      else let st = evict_oldest max_events st
           in (Inr (), st\<lparr>index := (index st)(entry_id e \<mapsto> length (events st)),
                          events := events st @ [\<lparr>entry = e, payload_bytes = bytes\<rparr>]\<rparr>))"

fun pop_expired ::
  "instant \<Rightarrow> duration option \<Rightarrow> 'v stored_event list \<Rightarrow> (bytes \<rightharpoonup> nat) \<Rightarrow> bool
     \<Rightarrow> 'v stored_event list \<times> (bytes \<rightharpoonup> nat) \<times> bool" where
  "pop_expired now d [] m removed = ([], m, removed)"
| "pop_expired now d (front # rest) m removed =
     (if is_expired now (entry front) d
      then pop_expired now d rest (m(event_id front := None)) True
      else (front # rest, m, removed))"

definition remove_expired :: "instant \<Rightarrow> duration option \<Rightarrow> 'v stream_events \<Rightarrow> 'v stream_events" where
  "remove_expired now d st =
     (if d = None then st
      else let (es, m, removed) = pop_expired now d (events st) (index st) False;
               st = st\<lparr>events := es, index := m\<rparr>
           in if removed then rebuild_index st else st)"

definition stream_payload_bytes :: "'v stream_events \<Rightarrow> nat option" where
  "stream_payload_bytes st = try_sum_from 0 (map payload_bytes (events st))"

definition events_after :: "bytes option \<Rightarrow> 'v stream_events \<Rightarrow> 'v event_entry list" where
  "events_after after_id st =
     (case after_id of
        None \<Rightarrow> map entry (events st)
      | Some i \<Rightarrow>
          (case index st i of
             Some idx \<Rightarrow> map entry (drop (idx + 1) (events st))
           | None \<Rightarrow> []))"

fun replay_loop ::
  "nat \<Rightarrow> nat \<Rightarrow> 'v stored_event list \<Rightarrow> 'v event_entry list \<Rightarrow> bytes option \<Rightarrow> nat
     \<Rightarrow> event_store_error + 'v replay_batch" where
  "replay_loop max_events max_payload [] acc nxt bytes =
     Inr \<lparr>batch_events = acc, next_after_id = nxt, batch_payload_bytes = bytes, complete = True\<rparr>"
| "replay_loop max_events max_payload (e # es) acc nxt bytes =
     (if length acc = max_events
      then Inr \<lparr>batch_events = acc, next_after_id = nxt, batch_payload_bytes = bytes, complete = False\<rparr>
      else case checked_add bytes (payload_bytes e) of
             None \<Rightarrow> Inl (ReplayEventPayloadTooLarge max_payload)
           | Some next_bytes \<Rightarrow>
               if next_bytes > max_payload then
                 (if acc = [] then Inl (ReplayEventPayloadTooLarge max_payload)
                  else Inr \<lparr>batch_events = acc, next_after_id = nxt, batch_payload_bytes = bytes,
                            complete = False\<rparr>)
               else replay_loop max_events max_payload es (acc @ [entry e]) (Some (event_id e)) next_bytes)"

definition stream_replay_bounded ::
  "bytes option \<Rightarrow> nat \<Rightarrow> nat \<Rightarrow> 'v stream_events \<Rightarrow> event_store_error + 'v replay_batch" where
  "stream_replay_bounded after_id max_events max_payload st =
     (case (case after_id of
              Some i \<Rightarrow> ok_or ReplayCursorNotRetained (map_option (\<lambda>idx. sat_add idx 1) (index st i))
            | None \<Rightarrow> Inr 0) of
        Inl e \<Rightarrow> Inl e
      | Inr start_index \<Rightarrow>
          replay_loop max_events max_payload (drop start_index (events st)) [] after_id 0)"

definition contains :: "bytes \<Rightarrow> 'v stream_events \<Rightarrow> bool" where
  "contains i st \<longleftrightarrow> index st i \<noteq> None"

section \<open>The store\<close>

type_synonym 'v streams = "(bytes \<times> 'v stream_events) list"

record 'v event_store =
  config :: event_store_config
  streams :: "'v streams"
  event_counter :: nat

definition from_validated_config :: "event_store_config \<Rightarrow> 'v event_store" where
  "from_validated_config c = \<lparr>config = c, streams = [], event_counter = 0\<rparr>"

definition store_new :: "'v event_store" where
  "store_new = from_validated_config default_config"

definition with_config :: "event_store_config \<Rightarrow> event_store_error + 'v event_store" where
  "with_config c =
     (case validate c of Inl e \<Rightarrow> Inl e | Inr _ \<Rightarrow> Inr (from_validated_config c))"

definition format_event_id :: "nat \<Rightarrow> nat \<Rightarrow> bytes" where
  "format_event_id timestamp counter = show_nat timestamp @ ''-'' @ show_nat counter"

definition generate_event_id :: "nat \<Rightarrow> 'v event_store \<Rightarrow> bytes \<times> 'v event_store" where
  "generate_event_id wall s =
     (format_event_id wall (event_counter s),
      s\<lparr>event_counter := (event_counter s + 1) mod (u64_max + 1)\<rparr>)"

definition cleanup_streams :: "instant \<Rightarrow> duration option \<Rightarrow> 'v streams \<Rightarrow> 'v streams" where
  "cleanup_streams now d ss =
     (let ss = (if d \<noteq> None then map (\<lambda>(sid, st). (sid, remove_expired now d st)) ss else ss)
      in filter (\<lambda>(sid, st). events st \<noteq> []) ss)"

fun total_payload_from :: "nat \<Rightarrow> 'v streams \<Rightarrow> nat option" where
  "total_payload_from acc [] = Some acc"
| "total_payload_from acc ((sid, st) # ss) =
     Option.bind (stream_payload_bytes st) (\<lambda>n.
     Option.bind (checked_add acc n) (\<lambda>t. total_payload_from t ss))"

definition total_payload_bytes :: "'v streams \<Rightarrow> nat option" where
  "total_payload_bytes ss = total_payload_from 0 ss"

text \<open>The clean-up every operation starts with, on the whole state.\<close>

definition cleaned :: "instant \<Rightarrow> 'v event_store \<Rightarrow> 'v event_store" where
  "cleaned now s = s\<lparr>streams := cleanup_streams now (ttl (config s)) (streams s)\<rparr>"

text \<open>
  The payload bytes the store would retain after the insertion, \<open>None\<close> where one of the checked
  operations fails.
\<close>

definition retained_after :: "bytes \<Rightarrow> nat \<Rightarrow> 'v event_store \<Rightarrow> nat option" where
  "retained_after sid bytes s =
     Option.bind (total_payload_bytes (streams s)) (\<lambda>t.
     Option.bind (case map_of (streams s) sid of
                    None \<Rightarrow> Some 0
                  | Some st \<Rightarrow> prospective_evicted_payload_bytes (max_events_per_stream (config s)) st)
       (\<lambda>evicted. Option.bind (checked_sub t evicted) (\<lambda>kept. checked_add kept bytes)))"

definition store_event ::
  "('v \<Rightarrow> ser_run) \<Rightarrow> instant \<Rightarrow> nat \<Rightarrow> bytes \<Rightarrow> 'v option \<Rightarrow> 'v event_store
     \<Rightarrow> (event_store_error + bytes) \<times> 'v event_store" where
  "store_event ser now wall sid data s =
     (let c = config s in
      if length sid > max_stream_id_bytes c
      then (Inl (StreamIdTooLong (max_stream_id_bytes c)), s)
      else case measure_event_payload ser data (max_event_payload_bytes c) of
        Inl e \<Rightarrow> (Inl e, s)
      | Inr bytes \<Rightarrow>
          let s = cleaned now s in
          if map_of (streams s) sid = None \<and> length (streams s) \<ge> max_streams c
          then (Inl (StreamLimitReached (max_streams c)), s)
          else case retained_after sid bytes s of
            None \<Rightarrow> (Inl (AggregatePayloadLimitExceeded (max_total_event_payload_bytes c)), s)
          | Some retained \<Rightarrow>
              if retained > max_total_event_payload_bytes c
              then (Inl (AggregatePayloadLimitExceeded (max_total_event_payload_bytes c)), s)
              else
                let (eid, s) = generate_event_id wall s;
                    e = \<lparr>entry_id = eid, entry_stream_id = sid, entry_data = data, created_at = now\<rparr>;
                    st = (case map_of (streams s) sid of None \<Rightarrow> stream_events_new | Some st \<Rightarrow> st);
                    (r, st) = push e bytes (max_events_per_stream c) st;
                    s = s\<lparr>streams := AList.update sid st (streams s)\<rparr>
                in case r of Inl err \<Rightarrow> (Inl err, s) | Inr _ \<Rightarrow> (Inr eid, s))"

definition store_priming_event ::
  "('v \<Rightarrow> ser_run) \<Rightarrow> instant \<Rightarrow> nat \<Rightarrow> bytes \<Rightarrow> 'v event_store
     \<Rightarrow> (event_store_error + bytes) \<times> 'v event_store" where
  "store_priming_event ser now wall sid s = store_event ser now wall sid None s"

definition get_events_after ::
  "instant \<Rightarrow> bytes \<Rightarrow> bytes option \<Rightarrow> 'v event_store \<Rightarrow> 'v event_entry list \<times> 'v event_store" where
  "get_events_after now sid after_id s =
     (let s = cleaned now s
      in (case map_of (streams s) sid of Some st \<Rightarrow> events_after after_id st | None \<Rightarrow> [], s))"

definition replay_bounded ::
  "instant \<Rightarrow> bytes \<Rightarrow> bytes option \<Rightarrow> 'v event_store
     \<Rightarrow> (event_store_error + 'v replay_batch) \<times> 'v event_store" where
  "replay_bounded now sid after_id s =
     (let c = config s in
      if length sid > max_stream_id_bytes c
      then (Inl (StreamIdTooLong (max_stream_id_bytes c)), s)
      else if (case after_id of None \<Rightarrow> False | Some i \<Rightarrow> length i > max_replay_cursor_bytes c)
      then (Inl (ReplayCursorTooLong (max_replay_cursor_bytes c)), s)
      else let s = cleaned now s
        in (case map_of (streams s) sid of
              Some st \<Rightarrow> stream_replay_bounded after_id (max_replay_events c) (max_replay_payload_bytes c) st
            | None \<Rightarrow> if after_id \<noteq> None then Inl ReplayCursorNotRetained else Inr empty_batch, s))"

fun find_owner :: "bytes \<Rightarrow> 'v streams \<Rightarrow> (bytes \<times> 'v stream_events) option" where
  "find_owner i [] = None"
| "find_owner i ((sid, st) # ss) = (if contains i st then Some (sid, st) else find_owner i ss)"

text \<open>The callback is a state-passing function over the caller's state \<open>'c\<close>.\<close>

definition replay_events_after ::
  "instant \<Rightarrow> bytes \<Rightarrow> ('v event_entry \<Rightarrow> 'c \<Rightarrow> 'c) \<Rightarrow> 'c \<Rightarrow> 'v event_store
     \<Rightarrow> (bytes option \<times> 'c) \<times> 'v event_store" where
  "replay_events_after now last_event_id callback c s =
     (let s = cleaned now s
      in (case find_owner last_event_id (streams s) of
            None \<Rightarrow> (None, c)
          | Some (sid, st) \<Rightarrow> (Some sid, fold callback (events_after (Some last_event_id) st) c), s))"

definition find_stream_for_event ::
  "instant \<Rightarrow> bytes \<Rightarrow> 'v event_store \<Rightarrow> bytes option \<times> 'v event_store" where
  "find_stream_for_event now i s =
     (let s = cleaned now s in (map_option fst (find_owner i (streams s)), s))"

definition clear_stream :: "bytes \<Rightarrow> 'v event_store \<Rightarrow> 'v event_store" where
  "clear_stream sid s = s\<lparr>streams := AList.delete sid (streams s)\<rparr>"

definition cleanup_expired :: "instant \<Rightarrow> 'v event_store \<Rightarrow> 'v event_store" where
  "cleanup_expired now s = cleaned now s"

definition stream_count :: "instant \<Rightarrow> 'v event_store \<Rightarrow> nat \<times> 'v event_store" where
  "stream_count now s = (let s = cleaned now s in (length (streams s), s))"

definition event_count :: "instant \<Rightarrow> 'v event_store \<Rightarrow> nat \<times> 'v event_store" where
  "event_count now s =
     (let s = cleaned now s in (sum_list (map (\<lambda>(sid, st). length (events st)) (streams s)), s))"

record event_store_stats =
  stats_stream_count :: nat
  stats_total_events :: nat
  stats_total_event_payload_bytes :: nat
  stats_config :: event_store_config

definition stats :: "instant \<Rightarrow> 'v event_store \<Rightarrow> event_store_stats \<times> 'v event_store" where
  "stats now s =
     (let s = cleaned now s
      in (\<lparr>stats_stream_count = length (streams s),
           stats_total_events = sum_list (map (\<lambda>(sid, st). length (events st)) (streams s)),
           stats_total_event_payload_bytes =
             (case total_payload_bytes (streams s) of
                Some t \<Rightarrow> t | None \<Rightarrow> max_total_event_payload_bytes (config s)),
           stats_config = config s\<rparr>, s))"

section \<open>Stream-level lemmas\<close>

definition index_of :: "'v stored_event list \<Rightarrow> bytes \<Rightarrow> nat option" where
  "index_of es k = position (\<lambda>e. event_id e = k) es"

definition stream_wf :: "'v stream_events \<Rightarrow> bool" where
  "stream_wf st \<longleftrightarrow> distinct (map event_id (events st)) \<and> index st = index_of (events st)"

lemma index_of_simps [simp]:
  "index_of [] = Map.empty"
  "index_of (e # es) k = (if event_id e = k then Some 0 else map_option Suc (index_of es k))"
  by (auto simp: index_of_def)

lemma index_of_None_iff: "index_of es k = None \<longleftrightarrow> k \<notin> event_id ` set es"
  by (auto simp: index_of_def position_None_iff)

lemma index_of_append:
  "index_of (es @ fs) k =
     (case index_of es k of Some i \<Rightarrow> Some i | None \<Rightarrow> map_option (\<lambda>j. length es + j) (index_of fs k))"
  by (simp add: index_of_def position_append split: option.split)

lemma index_of_nth:
  "distinct (map event_id es) \<Longrightarrow> i < length es \<Longrightarrow> index_of es (event_id (es ! i)) = Some i"
  unfolding index_of_def position_Some_iff by (auto simp: distinct_conv_nth)


lemma insert_indices_eq:
  "distinct (map event_id es) \<Longrightarrow>
   insert_indices i es m k = (case index_of es k of Some j \<Rightarrow> Some (i + j) | None \<Rightarrow> m k)"
proof (induction es arbitrary: i m)
  case (Cons e es)
  then show ?case
    using index_of_None_iff [of es k] by (cases "index_of es k") (auto split: option.splits)
qed simp

lemma rebuild_index_wf:
  "distinct (map event_id (events st)) \<Longrightarrow> stream_wf (rebuild_index st)"
  by (auto simp: stream_wf_def rebuild_index_def insert_indices_eq split: option.splits)

lemma rebuild_index_events [simp]: "events (rebuild_index st) = events st"
  by (simp add: rebuild_index_def)

lemma stream_wf_new [simp]: "stream_wf stream_events_new" "events stream_events_new = []"
  by (simp_all add: stream_wf_def stream_events_new_def)

lemma evict_oldest_spec:
  assumes "stream_wf st" and "0 < m"
  shows "stream_wf (evict_oldest m st) \<and>
    events (evict_oldest m st) = drop (Suc (length (events st)) - m) (events st)"
  using assms
proof (induction m st rule: evict_oldest.induct)
  case (1 m st)
  show ?case
  proof (cases "events st")
    case Nil
    with 1 show ?thesis by (simp add: evict_oldest.simps)
  next
    case (Cons e es)
    show ?thesis
    proof (cases "m \<le> length (events st)")
      case True
      let ?st = "rebuild_index (st\<lparr>events := es, index := (index st)(event_id e := None)\<rparr>)"
      have wf: "stream_wf ?st"
        using 1(2) Cons by (intro rebuild_index_wf) (simp add: stream_wf_def)
      have "evict_oldest m st = evict_oldest m ?st"
        using Cons True by (subst evict_oldest.simps) simp
      moreover have "Suc (length (events st)) - m = Suc (Suc (length es) - m)"
        using Cons True by simp
      ultimately show ?thesis
        using 1(1) [OF Cons True wf 1(3)] Cons by simp
    next
      case False
      with 1 Cons show ?thesis by (subst evict_oldest.simps, subst evict_oldest.simps) simp
    qed
  qed
qed

lemma push_spec:
  assumes "stream_wf st" and "0 < m" and "entry_id e \<notin> event_id ` set (events st)"
  shows "\<exists>st'. push e n m st = (Inr (), st') \<and> stream_wf st' \<and>
    events st' = drop (Suc (length (events st)) - m) (events st) @ [\<lparr>entry = e, payload_bytes = n\<rparr>]"
proof -
  let ?st = "evict_oldest m st"
  have ev: "stream_wf ?st" "events ?st = drop (Suc (length (events st)) - m) (events st)"
    using evict_oldest_spec [OF assms(1,2)] by simp_all
  then have "entry_id e \<notin> event_id ` set (events ?st)"
    using assms(3) by (auto dest: in_set_dropD)
  with ev show ?thesis
    using assms(2) index_of_None_iff [of "events ?st" "entry_id e"]
    by (auto simp: push_def Let_def stream_wf_def index_of_append fun_eq_iff image_iff split: option.splits)
qed

lemma pop_expired_spec:
  "\<exists>m'. pop_expired now d es m r =
     (dropWhile (\<lambda>e. is_expired now (entry e) d) es, m',
      r \<or> dropWhile (\<lambda>e. is_expired now (entry e) d) es \<noteq> es) \<and>
    (dropWhile (\<lambda>e. is_expired now (entry e) d) es = es \<longrightarrow> m' = m)"
proof (induction es arbitrary: m r)
  case (Cons e es)
  have shorter: "dropWhile P es \<noteq> e # es" for P
    using length_dropWhile_le [of P es] by (metis impossible_Cons)
  show ?case
  proof (cases "is_expired now (entry e) d")
    case True
    obtain m' where "pop_expired now d es (m(event_id e := None)) True =
        (dropWhile (\<lambda>e. is_expired now (entry e) d) es, m', True)"
      using Cons.IH [of "m(event_id e := None)" True] unfolding simp_thms by blast
    with True shorter show ?thesis by simp
  qed simp
qed simp

lemma remove_expired_spec:
  obtains m where "remove_expired now d st =
      (let st' = st\<lparr>events := dropWhile (\<lambda>e. is_expired now (entry e) d) (events st), index := m\<rparr>
       in if events st' = events st then st else rebuild_index st')"
proof (cases d)
  case None
  then have "dropWhile (\<lambda>e. is_expired now (entry e) d) (events st) = events st"
    by (cases "events st") (simp_all add: is_expired_def)
  with None that show thesis by (simp add: remove_expired_def)
next
  case (Some t)
  let ?es = "dropWhile (\<lambda>e. is_expired now (entry e) d) (events st)"
  obtain m where m: "pop_expired now d (events st) (index st) False = (?es, m, ?es \<noteq> events st)"
    "?es = events st \<longrightarrow> m = index st"
    using pop_expired_spec [of now d "events st" "index st" False] unfolding simp_thms by blast
  show thesis
    by (rule that [of m], cases "?es = events st") (use m Some in \<open>simp_all add: remove_expired_def Let_def\<close>)
qed

lemma remove_expired_events [simp]:
  "events (remove_expired now d st) = dropWhile (\<lambda>e. is_expired now (entry e) d) (events st)"
  by (rule remove_expired_spec [of now d st]) (simp add: Let_def)

lemma remove_expired_wf [wf_intros]:
  assumes "stream_wf st"
  shows "stream_wf (remove_expired now d st)"
proof -
  have "distinct (map event_id (dropWhile (\<lambda>e. is_expired now (entry e) d) (events st)))"
    using assms by (simp add: stream_wf_def dropWhile_eq_drop drop_map [symmetric] distinct_drop)
  then show ?thesis
    using assms by (rule_tac remove_expired_spec [of now d st]) (simp add: Let_def rebuild_index_wf)
qed

section \<open>Measuring a payload\<close>

definition encoded_length :: "ser_run \<Rightarrow> nat" where
  "encoded_length r = length (concat (fst r))"

lemma counter_write_all:
  assumes "counter_bytes w \<le> counter_max_bytes w" and "counter_max_bytes w \<le> u64_max"
    and "\<not> counter_exceeded w"
  shows "\<exists>w'. write_all counter_write w bufs =
      (w', counter_bytes w + length (concat bufs) \<le> counter_max_bytes w) \<and>
    (if counter_bytes w + length (concat bufs) \<le> counter_max_bytes w
     then counter_bytes w' = counter_bytes w + length (concat bufs) \<and> \<not> counter_exceeded w'
     else counter_exceeded w')"
  using assms
proof (induction bufs arbitrary: w)
  case (Cons b bufs)
  consider "b = []" | "b \<noteq> []" "counter_max_bytes w < counter_bytes w + length b"
    | "b \<noteq> []" "counter_bytes w + length b \<le> counter_max_bytes w" by linarith
  then show ?case
  proof cases
    case 1
    then show ?thesis using Cons.IH [OF Cons.prems]
      by (cases "counter_bytes w + length (concat bufs) \<le> counter_max_bytes w") simp_all
  next
    case 2
    then have "counter_write w b = (w\<lparr>counter_exceeded := True\<rparr>, False)"
      by (simp add: counter_write_def checked_add_def)
    with 2 show ?thesis by simp
  next
    case 3
    let ?w = "w\<lparr>counter_bytes := counter_bytes w + length b\<rparr>"
    have "counter_write w b = (?w, True)"
      using 3 Cons.prems by (simp add: counter_write_def checked_add_def)
    then show ?thesis using 3 Cons.IH [of ?w] Cons.prems
      by (cases "counter_bytes w + length b + length (concat bufs) \<le> counter_max_bytes w")
        (simp_all add: add.assoc)
  qed
qed simp

section \<open>Identifiers\<close>

lemma takeWhile_show_nat: "takeWhile (\<lambda>c. c \<noteq> CHR ''-'') (show_nat n @ CHR ''-'' # r) = show_nat n"
  using show_nat_no_dash [of n] by (subst takeWhile_append2) auto

lemma format_event_id_inject [simp]:
  "format_event_id t k = format_event_id t' k' \<longleftrightarrow> t = t' \<and> k = k'"
proof
  assume eq: "format_event_id t k = format_event_id t' k'"
  then have "show_nat t = show_nat t'"
    using takeWhile_show_nat [of t "show_nat k"] takeWhile_show_nat [of t' "show_nat k'"]
    by (simp add: format_event_id_def)
  with eq show "t = t' \<and> k = k'" by (simp add: format_event_id_def)
qed simp

section \<open>Totals and the association list of streams\<close>

definition stream_sum :: "'v stream_events \<Rightarrow> nat" where
  "stream_sum st = sum_list (map payload_bytes (events st))"

definition payload_sum :: "'v streams \<Rightarrow> nat" where
  "payload_sum ss = sum_list (map (\<lambda>(sid, st). stream_sum st) ss)"

lemma total_payload_from_eq:
  "a \<le> u64_max \<Longrightarrow> total_payload_from a ss =
     (if a + payload_sum ss \<le> u64_max then Some (a + payload_sum ss) else None)"
  by (induction a ss rule: total_payload_from.induct)
    (auto simp: payload_sum_def stream_sum_def stream_payload_bytes_def try_sum_eq checked_add_def)

lemma total_payload_bytes_eq:
  "total_payload_bytes ss = (if payload_sum ss \<le> u64_max then Some (payload_sum ss) else None)"
  using total_payload_from_eq [of 0 ss] by (simp add: total_payload_bytes_def)

lemma sum_list_update:
  fixes f :: "'k \<times> 'a \<Rightarrow> nat"
  shows "sum_list (map f (AList.update k v al)) + (case map_of al k of None \<Rightarrow> 0 | Some w \<Rightarrow> f (k, w)) =
    sum_list (map f al) + f (k, v)"
  by (induction al) (auto split: option.splits)

lemma length_update_eq:
  "length (AList.update k v al) = (if map_of al k = None then Suc (length al) else length al)"
  by (induction al) auto

lemma cleanup_streams_eq:
  "cleanup_streams now d ss =
     filter (\<lambda>(sid, st). events st \<noteq> []) (map (\<lambda>(sid, st). (sid, remove_expired now d st)) ss)"
  by (cases d) (auto simp: cleanup_streams_def remove_expired_def [of now None] case_prod_beta' Let_def)

lemma cleanup_simps [simp]:
  "cleanup_streams now d [] = []"
  "cleanup_streams now d ((k, st) # ss) =
     (if events (remove_expired now d st) = [] then cleanup_streams now d ss
      else (k, remove_expired now d st) # cleanup_streams now d ss)"
  by (simp_all add: cleanup_streams_eq)

lemma cleanup_keys: "k \<in> set (map fst (cleanup_streams now d ss)) \<Longrightarrow> k \<in> set (map fst ss)"
  by (induction ss) (force split: if_splits)+

lemma cleanup_distinct: "distinct (map fst ss) \<Longrightarrow> distinct (map fst (cleanup_streams now d ss))"
proof (induction ss)
  case (Cons p ss)
  then show ?case using cleanup_keys [of "fst p" now d ss] by (cases p) auto
qed simp

lemma map_of_cleanup:
  assumes "distinct (map fst ss)"
  shows "map_of (cleanup_streams now d ss) sid =
    (case map_of ss sid of
       None \<Rightarrow> None
     | Some st \<Rightarrow> if events (remove_expired now d st) = [] then None else Some (remove_expired now d st))"
  using assms
proof (induction ss)
  case (Cons p ss)
  obtain k st where p: "p = (k, st)" by force
  then have "map_of (cleanup_streams now d ss) k = None"
    using Cons.prems cleanup_keys [of k now d ss] by (auto simp: map_of_eq_None_iff)
  with Cons p show ?case by (simp del: remove_expired_events)
qed simp

lemma cleanup_payload_sum: "payload_sum (cleanup_streams now d ss) \<le> payload_sum ss"
proof (induction ss)
  case (Cons p ss)
  obtain k st where p: "p = (k, st)" by force
  have "sum_list (map payload_bytes (dropWhile P es)) \<le> sum_list (map payload_bytes es)"
    for P and es :: "'a stored_event list"
    by (induction es) auto
  then have "stream_sum (remove_expired now d st) \<le> stream_sum st"
    by (simp add: stream_sum_def)
  with Cons p show ?case by (simp add: payload_sum_def)
qed simp

lemma cleanup_length: "length (cleanup_streams now d ss) \<le> length ss"
  by (induction ss) auto

section \<open>Invariant of the store\<close>

definition stored :: "'v event_store \<Rightarrow> bytes \<Rightarrow> 'v stored_event list" where
  "stored s sid = (case map_of (streams s) sid of None \<Rightarrow> [] | Some st \<Rightarrow> events st)"

definition stream_ok :: "('v \<Rightarrow> ser_run) \<Rightarrow> event_store_config \<Rightarrow> bytes \<Rightarrow> 'v stream_events \<Rightarrow> bool" where
  "stream_ok ser c sid st \<longleftrightarrow>
     stream_wf st \<and> events st \<noteq> [] \<and>
     length (events st) \<le> max_events_per_stream c \<and> length sid \<le> max_stream_id_bytes c \<and>
     (\<forall>e \<in> set (events st). entry_stream_id (entry e) = sid \<and>
        measure_event_payload ser (entry_data (entry e)) (max_event_payload_bytes c) = Inr (payload_bytes e))"

definition ids_ok :: "'v event_store \<Rightarrow> bool" where
  "ids_ok s \<longleftrightarrow>
     (\<forall>sid. \<forall>e \<in> set (stored s sid). \<exists>t k. k < event_counter s \<and> event_id e = format_event_id t k) \<and>
     (\<forall>sid sid'. event_id ` set (stored s sid) \<inter> event_id ` set (stored s sid') \<noteq> {} \<longrightarrow> sid = sid')"

definition store_wf :: "('v \<Rightarrow> ser_run) \<Rightarrow> 'v event_store \<Rightarrow> bool" where
  "store_wf ser s \<longleftrightarrow>
     validate (config s) = Inr () \<and> distinct (map fst (streams s)) \<and>
     (\<forall>sid st. map_of (streams s) sid = Some st \<longrightarrow> stream_ok ser (config s) sid st) \<and>
     length (streams s) \<le> max_streams (config s) \<and>
     payload_sum (streams s) \<le> max_total_event_payload_bytes (config s) \<and>
     payload_sum (streams s) \<le> u64_max \<and> ids_ok s"

lemma store_streamD:
  "store_wf ser s \<Longrightarrow> map_of (streams s) sid = Some st \<Longrightarrow> stream_ok ser (config s) sid st"
  by (simp add: store_wf_def)

lemma validate_ok_iff:
  "validate c = Inr () \<longleftrightarrow>
     0 < max_events_per_stream c \<and> 0 < max_streams c \<and> 0 < max_stream_id_bytes c \<and>
     0 < max_event_payload_bytes c \<and> 0 < max_total_event_payload_bytes c \<and>
     0 < max_replay_events c \<and> 0 < max_replay_payload_bytes c \<and> 0 < max_replay_cursor_bytes c"
  by (simp add: validate_def)

lemma store_wf_initial [wf_intros]:
  "validate c = Inr () \<Longrightarrow> store_wf ser (from_validated_config c)"
  by (simp add: store_wf_def from_validated_config_def payload_sum_def ids_ok_def stored_def)

lemma cleaned_simps [simp]:
  "config (cleaned now s) = config s" "event_counter (cleaned now s) = event_counter s"
  by (simp_all add: cleaned_def)

lemma stored_cleaned:
  assumes "distinct (map fst (streams s))"
  shows "stored (cleaned now s) sid =
    dropWhile (\<lambda>e. is_expired now (entry e) (ttl (config s))) (stored s sid)"
  using map_of_cleanup [OF assms, of now "ttl (config s)" sid]
  by (cases "map_of (streams s) sid")
    (auto simp add: stored_def cleaned_def remove_expired_events [symmetric]
      simp del: remove_expired_events split: if_splits)

lemma ids_ok_subset:
  assumes "ids_ok s" and "\<And>sid. set (stored s' sid) \<subseteq> set (stored s sid)"
    and "event_counter s \<le> event_counter s'"
  shows "ids_ok s'"
  unfolding ids_ok_def
proof (intro conjI allI ballI impI)
  fix sid e assume "e \<in> set (stored s' sid)"
  with assms show "\<exists>t k. k < event_counter s' \<and> event_id e = format_event_id t k"
    unfolding ids_ok_def by (meson less_le_trans subsetD)
next
  fix sid sid'
  assume "event_id ` set (stored s' sid) \<inter> event_id ` set (stored s' sid') \<noteq> {}"
  then have "event_id ` set (stored s sid) \<inter> event_id ` set (stored s sid') \<noteq> {}"
    using assms(2) [of sid] assms(2) [of sid'] by fast
  with assms(1) show "sid = sid'" unfolding ids_ok_def by blast
qed

lemma stream_ok_remove_expired:
  "stream_ok ser c sid st \<Longrightarrow> events (remove_expired now d st) \<noteq> [] \<Longrightarrow>
   stream_ok ser c sid (remove_expired now d st)"
  using length_dropWhile_le [of "\<lambda>e. is_expired now (entry e) d" "events st"]
  by (auto simp: stream_ok_def dest: set_dropWhileD intro: remove_expired_wf)

lemma cleaned_wf [wf_intros]:
  assumes "store_wf ser s"
  shows "store_wf ser (cleaned now s)"
proof -
  let ?d = "ttl (config s)"
  have dist: "distinct (map fst (streams s))" using assms by (simp add: store_wf_def)
  have "ids_ok (cleaned now s)"
    by (rule ids_ok_subset [of s])
      (use assms stored_cleaned [OF dist] in \<open>auto simp: store_wf_def dest: set_dropWhileD\<close>)
  moreover have "stream_ok ser (config s) sid st"
    if "map_of (cleanup_streams now ?d (streams s)) sid = Some st" for sid st
    using that assms map_of_cleanup [OF dist, of now ?d sid]
    by (auto simp: store_wf_def simp del: remove_expired_events intro!: stream_ok_remove_expired
        split: option.splits if_splits)
  ultimately show ?thesis
    using assms cleanup_distinct [OF dist] cleanup_length [of now ?d "streams s"]
      cleanup_payload_sum [of now ?d "streams s"]
    by (simp add: store_wf_def) (simp add: cleaned_def)
qed

section \<open>Storing an event\<close>

text \<open>
  \<open>surplus\<close> is the number of oldest events an insertion evicts, \<open>kept_after\<close> the payload bytes
  that remain in the store after the eviction, and \<open>appended\<close> the new content of the stream.
\<close>

definition surplus :: "'v event_store \<Rightarrow> bytes \<Rightarrow> nat" where
  "surplus s sid = Suc (length (stored s sid)) - max_events_per_stream (config s)"

definition kept_after :: "'v event_store \<Rightarrow> bytes \<Rightarrow> nat" where
  "kept_after s sid =
     payload_sum (streams s) - sum_list (map payload_bytes (take (surplus s sid) (stored s sid)))"

definition appended :: "'v event_store \<Rightarrow> bytes \<Rightarrow> 'v stored_event \<Rightarrow> 'v stored_event list" where
  "appended s sid e = drop (surplus s sid) (stored s sid) @ [e]"

lemma stored_sum_le: "sum_list (map payload_bytes (stored s sid)) \<le> payload_sum (streams s)"
proof (cases "map_of (streams s) sid")
  case (Some st)
  then have "(sid, st) \<in> set (streams s)" by (rule map_of_SomeD)
  then have "stream_sum st \<in> set (map (\<lambda>(sid, st). stream_sum st) (streams s))" by force
  then have "stream_sum st \<le> payload_sum (streams s)"
    unfolding payload_sum_def by (rule member_le_sum_list) simp
  then show ?thesis using Some by (simp add: stored_def stream_sum_def)
qed (simp add: stored_def)

lemma take_drop_sum:
  "sum_list (map payload_bytes (take k es)) + sum_list (map payload_bytes (drop k es)) =
     sum_list (map payload_bytes es)"
  by (metis append_take_drop_id map_append sum_list_append)

lemma evicted_sum_le:
  "sum_list (map payload_bytes (take k (stored s sid))) \<le> sum_list (map payload_bytes (stored s sid))"
  using take_drop_sum [of k "stored s sid"] by simp

lemma retained_after_eq:
  assumes "store_wf ser s"
  shows "retained_after sid n s =
    (if length (stored s sid) < u64_max \<and> kept_after s sid + n \<le> u64_max
     then Some (kept_after s sid + n) else None)"
proof -
  let ?k = "surplus s sid"
  have le: "sum_list (map payload_bytes (take ?k (stored s sid))) \<le> payload_sum (streams s)"
    using evicted_sum_le stored_sum_le le_trans by blast
  have tot: "payload_sum (streams s) \<le> u64_max" using assms by (simp add: store_wf_def)
  have evicted: "(case map_of (streams s) sid of None \<Rightarrow> Some 0
      | Some st \<Rightarrow> prospective_evicted_payload_bytes (max_events_per_stream (config s)) st) =
    (if length (stored s sid) < u64_max
     then Some (sum_list (map payload_bytes (take ?k (stored s sid)))) else None)"
    using le tot
    by (auto simp: prospective_evicted_payload_bytes_def stored_def surplus_def try_sum_eq
        checked_add_def u64_max_def split: option.splits)
  show ?thesis
    using le tot unfolding retained_after_def evicted
    by (simp add: total_payload_bytes_eq checked_sub_def checked_add_def kept_after_def)
qed

lemma stored_update:
  "stored (s\<lparr>event_counter := k, streams := AList.update sid st (streams s)\<rparr>) =
     (stored s)(sid := events st)"
  by (auto simp: stored_def update_conv' fun_eq_iff)

lemma fresh_id:
  assumes "ids_ok s"
  shows "format_event_id wall (event_counter s) \<notin> event_id ` set (stored s sid)"
proof
  assume "format_event_id wall (event_counter s) \<in> event_id ` set (stored s sid)"
  then obtain e where "e \<in> set (stored s sid)" "event_id e = format_event_id wall (event_counter s)"
    by auto
  with assms obtain t k where "k < event_counter s"
    "format_event_id wall (event_counter s) = format_event_id t k"
    unfolding ids_ok_def by metis
  then show False by simp
qed

lemma ids_ok_update:
  assumes "ids_ok s" and "event_id ` set (events st) \<subseteq>
      insert (format_event_id wall (event_counter s)) (event_id ` set (stored s sid))"
  shows "ids_ok (s\<lparr>event_counter := Suc (event_counter s), streams := AList.update sid st (streams s)\<rparr>)"
    (is "ids_ok ?s")
  unfolding ids_ok_def
proof (intro conjI allI ballI impI)
  have old: "\<exists>t k. k < event_counter s \<and> i = format_event_id t k"
    if "i \<in> event_id ` set (stored s sid')" for i sid'
    using assms(1) that unfolding ids_ok_def by blast
  {
    fix sid' e assume "e \<in> set (stored ?s sid')"
    then have "event_id e \<in> insert (format_event_id wall (event_counter s)) (event_id ` set (stored s sid'))"
      using assms(2) by (auto simp: stored_update split: if_splits)
    then show "\<exists>t k. k < event_counter ?s \<and> event_id e = format_event_id t k"
      using old [of "event_id e" sid'] by (auto simp: less_Suc_eq)
  }
  fix sid1 sid2
  assume "event_id ` set (stored ?s sid1) \<inter> event_id ` set (stored ?s sid2) \<noteq> {}"
  then obtain i where i: "i \<in> event_id ` set (stored ?s sid1)" "i \<in> event_id ` set (stored ?s sid2)"
    by blast
  show "sid1 = sid2"
  proof (rule ccontr)
    assume ne: "sid1 \<noteq> sid2"
    have split: "i \<in> event_id ` set (stored s sid') \<or>
        sid' = sid \<and> i = format_event_id wall (event_counter s)"
      if "i \<in> event_id ` set (stored ?s sid')" for sid'
      using that assms(2) unfolding stored_update by (cases "sid' = sid") auto
    have "i \<in> event_id ` set (stored s sid1) \<and> i \<in> event_id ` set (stored s sid2)"
      using split [OF i(1)] split [OF i(2)] ne fresh_id [OF assms(1), of wall sid1]
        fresh_id [OF assms(1), of wall sid2] by metis
    with assms(1) ne show False unfolding ids_ok_def by blast
  qed
qed

lemma store_commit_wf:
  assumes wf: "store_wf ser s" and n: "measure_event_payload ser data (max_event_payload_bytes (config s)) = Inr n"
    and sid: "length sid \<le> max_stream_id_bytes (config s)"
    and room: "map_of (streams s) sid = None \<longrightarrow> length (streams s) < max_streams (config s)"
    and total: "kept_after s sid + n \<le> max_total_event_payload_bytes (config s)"
      "kept_after s sid + n \<le> u64_max"
    and e: "entry_id e = format_event_id wall (event_counter s)" "entry_stream_id e = sid" "entry_data e = data"
    and st: "stream_wf st" "events st = appended s sid \<lparr>entry = e, payload_bytes = n\<rparr>"
  shows "store_wf ser (s\<lparr>event_counter := Suc (event_counter s), streams := AList.update sid st (streams s)\<rparr>)"
    (is "store_wf ser ?s")
proof -
  let ?c = "config s" and ?ss = "AList.update sid st (streams s)"
  have ok: "stream_ok ser ?c sid st'" if "map_of (streams s) sid = Some st'" for st'
    using wf that by (simp add: store_wf_def)
  have olds: "entry_stream_id (entry x) = sid \<and>
      measure_event_payload ser (entry_data (entry x)) (max_event_payload_bytes ?c) = Inr (payload_bytes x)"
    if "x \<in> set (stored s sid)" for x
    using that ok by (cases "map_of (streams s) sid") (auto simp: stored_def stream_ok_def)
  have len: "length (events st) \<le> max_events_per_stream ?c"
    using wf by (auto simp: st appended_def surplus_def store_wf_def validate_ok_iff)
  have "stream_ok ser ?c sid st"
    using len olds n sid e st by (auto simp: stream_ok_def appended_def dest: in_set_dropD)
  then have streams: "\<forall>k st'. map_of ?ss k = Some st' \<longrightarrow> stream_ok ser ?c k st'"
    using wf by (auto simp: store_wf_def update_conv')
  have "sum_list (map payload_bytes (take (surplus s sid) (stored s sid))) + stream_sum st =
      sum_list (map payload_bytes (stored s sid)) + n"
    using take_drop_sum [of "surplus s sid" "stored s sid"] by (simp add: stream_sum_def st appended_def)
  moreover have "payload_sum ?ss + sum_list (map payload_bytes (stored s sid)) =
      payload_sum (streams s) + stream_sum st"
    using sum_list_update [of "\<lambda>(sid, st). stream_sum st" sid st "streams s"]
    by (auto simp: payload_sum_def stored_def stream_sum_def split: option.splits)
  ultimately have sum: "payload_sum ?ss = kept_after s sid + n"
    using stored_sum_le [of s sid] evicted_sum_le [of "surplus s sid" s sid]
    unfolding kept_after_def by linarith
  have "ids_ok ?s"
    using wf e by (intro ids_ok_update [where wall = wall])
      (auto simp: store_wf_def st appended_def dest: in_set_dropD)
  with wf streams sum total room show ?thesis
    by (auto simp: store_wf_def length_update_eq distinct_update)
qed

text \<open>When an event is admitted, in terms of the state after the clean-up.\<close>

definition admits :: "('v \<Rightarrow> ser_run) \<Rightarrow> instant \<Rightarrow> bytes \<Rightarrow> 'v option \<Rightarrow> 'v event_store \<Rightarrow> nat \<Rightarrow> bool" where
  "admits ser now sid data s n \<longleftrightarrow>
     (let c = config s; s = cleaned now s in
      length sid \<le> max_stream_id_bytes c \<and>
      measure_event_payload ser data (max_event_payload_bytes c) = Inr n \<and>
      (stored s sid = [] \<longrightarrow> length (streams s) < max_streams c) \<and>
      length (stored s sid) < u64_max \<and>
      kept_after s sid + n \<le> max_total_event_payload_bytes c \<and> kept_after s sid + n \<le> u64_max)"

definition new_event :: "instant \<Rightarrow> nat \<Rightarrow> bytes \<Rightarrow> 'v option \<Rightarrow> 'v event_store \<Rightarrow> nat \<Rightarrow> 'v stored_event" where
  "new_event now wall sid data s n =
     \<lparr>entry = \<lparr>entry_id = format_event_id wall (event_counter s), entry_stream_id = sid,
               entry_data = data, created_at = now\<rparr>, payload_bytes = n\<rparr>"

lemma stored_Nil_iff: "store_wf ser s \<Longrightarrow> stored s sid = [] \<longleftrightarrow> map_of (streams s) sid = None"
  by (auto simp: stored_def store_wf_def stream_ok_def split: option.splits)

lemma store_event_admitted:
  assumes wf: "store_wf ser s" and cnt: "event_counter s < u64_max" and ad: "admits ser now sid data s n"
  obtains s' where "store_event ser now wall sid data s = (Inr (format_event_id wall (event_counter s)), s')"
    "store_wf ser s'" "config s' = config s" "event_counter s' = Suc (event_counter s)"
    "stored s' = (stored (cleaned now s))
       (sid := appended (cleaned now s) sid (new_event now wall sid data s n))"
proof -
  define s1 where "s1 = cleaned now s"
  let ?c = "config s" and ?e = "entry (new_event now wall sid data s n)"
  have s1: "config s1 = ?c" "event_counter s1 = event_counter s" "store_wf ser s1"
    using wf by (simp_all add: s1_def cleaned_wf)
  define st where "st = (case map_of (streams s1) sid of None \<Rightarrow> stream_events_new | Some st \<Rightarrow> st)"
  have st: "stream_wf st" "events st = stored s1 sid"
    using s1(3) by (auto simp: st_def stored_def store_wf_def stream_ok_def split: option.splits)
  have "0 < max_events_per_stream ?c" using wf by (simp add: store_wf_def validate_ok_iff)
  moreover have "entry_id ?e \<notin> event_id ` set (events st)"
    using fresh_id [of s1 wall sid] s1 by (simp add: new_event_def st store_wf_def)
  ultimately obtain st' where st': "push ?e n (max_events_per_stream ?c) st = (Inr (), st')"
    "stream_wf st'" "events st' = appended s1 sid (new_event now wall sid data s n)"
    using push_spec [OF st(1), of _ ?e n] st s1 by (auto simp: appended_def surplus_def new_event_def)
  let ?s = "s1\<lparr>event_counter := Suc (event_counter s1), streams := AList.update sid st' (streams s1)\<rparr>"
  have ad1: "length sid \<le> max_stream_id_bytes ?c"
    "measure_event_payload ser data (max_event_payload_bytes ?c) = Inr n"
    "map_of (streams s1) sid = None \<longrightarrow> length (streams s1) < max_streams ?c"
    "length (stored s1 sid) < u64_max" "kept_after s1 sid + n \<le> max_total_event_payload_bytes ?c"
    "kept_after s1 sid + n \<le> u64_max"
    using ad stored_Nil_iff [OF s1(3)] by (auto simp: admits_def Let_def s1_def)
  have mod: "Suc (event_counter s) mod Suc u64_max = Suc (event_counter s)" using cnt by simp
  have "store_event ser now wall sid data s = (Inr (format_event_id wall (event_counter s)), ?s)"
    using ad1 s1 st'(1) retained_after_eq [OF s1(3), of sid n] mod
    by (auto simp: store_event_def generate_event_id_def s1_def [symmetric] st_def [symmetric]
        new_event_def Let_def simp del: mod_less)
  moreover have "store_wf ser ?s"
    using ad1 s1 st' by (intro store_commit_wf [where e = ?e and n = n and wall = wall and data = data])
      (simp_all add: new_event_def)
  ultimately show thesis
    using s1 st' by (intro that [of ?s]) (simp_all add: stored_update s1_def)
qed

lemma store_event_refused:
  assumes wf: "store_wf ser s" and "store_event ser now wall sid data s = (r, s')"
    and no: "\<nexists>n. admits ser now sid data s n"
  shows "\<not> is_ok r \<and> (s' = s \<or> s' = cleaned now s)"
proof -
  define s1 where "s1 = cleaned now s"
  have s1: "config s1 = config s" "store_wf ser s1"
    using wf by (simp_all add: s1_def cleaned_wf)
  show ?thesis
    using assms(2) no stored_Nil_iff [OF s1(2)] s1(1)
    unfolding store_event_def Let_def s1_def [symmetric]
    by (auto simp: retained_after_eq [OF s1(2)] admits_def Let_def s1_def [symmetric]
        split: if_split_asm sum.split_asm)
qed

section \<open>Paged replay\<close>

text \<open>
  The contract a consumer of pages relies on: from the cursor behind the \<open>i\<close>th item a page holds
  the next items, at least one while there are any, leaves the log unchanged, and says whether it
  reached the end.  \<open>drain\<close> is the consumer: it asks for page after page, \<open>n\<close> times at most.
\<close>

definition cursor_at :: "('a \<Rightarrow> 'k) \<Rightarrow> 'a list \<Rightarrow> nat \<Rightarrow> 'k option" where
  "cursor_at key xs i = (if i = 0 then None else Some (key (xs ! (i - 1))))"

fun drain :: "('s \<Rightarrow> 'k option \<Rightarrow> ('e + 'a list \<times> 'k option \<times> bool) \<times> 's) \<Rightarrow> nat \<Rightarrow> 's \<Rightarrow> 'k option
    \<Rightarrow> 'a list option" where
  "drain page 0 s cur = None"
| "drain page (Suc n) s cur =
     (case page s cur of
        (Inl e, s') \<Rightarrow> None
      | (Inr (xs, nxt, fin), s') \<Rightarrow>
          if fin then Some xs else map_option (\<lambda>ys. xs @ ys) (drain page n s' nxt))"

locale paged_log =
  fixes inv :: "'s \<Rightarrow> bool"
    and items :: "'s \<Rightarrow> 'a list"
    and key :: "'a \<Rightarrow> 'k"
    and page :: "'s \<Rightarrow> 'k option \<Rightarrow> ('e + 'a list \<times> 'k option \<times> bool) \<times> 's"
  assumes page_law: "inv s \<Longrightarrow> i \<le> length (items s) \<Longrightarrow>
    \<exists>k s'. page s (cursor_at key (items s) i) =
        (Inr (take k (drop i (items s)), cursor_at key (items s) (i + k), i + k = length (items s)), s') \<and>
      i + k \<le> length (items s) \<and> (i < length (items s) \<longrightarrow> 0 < k) \<and> inv s' \<and> items s' = items s"
begin

lemma drain_from:
  "inv s \<Longrightarrow> i \<le> length (items s) \<Longrightarrow> max 1 (length (items s) - i) \<le> n \<Longrightarrow>
   drain page n s (cursor_at key (items s) i) = Some (drop i (items s))"
proof (induction n arbitrary: s i)
  case (Suc n)
  obtain k s' where k: "page s (cursor_at key (items s) i) =
      (Inr (take k (drop i (items s)), cursor_at key (items s) (i + k), i + k = length (items s)), s')"
    "i + k \<le> length (items s)" "i < length (items s) \<longrightarrow> 0 < k" "inv s'" "items s' = items s"
    using page_law [OF Suc.prems(1,2)] by blast
  show ?case
  proof (cases "i + k = length (items s)")
    case False
    then have "drain page n s' (cursor_at key (items s) (i + k)) = Some (drop (i + k) (items s))"
      using Suc.IH [of s' "i + k"] k Suc.prems by simp
    with False k show ?thesis
      by (simp add: add.commute [of i k] flip: drop_drop)
  qed (use k in simp)
qed simp

lemma drain_all: "inv s \<Longrightarrow> max 1 (length (items s)) \<le> n \<Longrightarrow> drain page n s None = Some (items s)"
  using drain_from [of s 0 n] by (simp add: cursor_at_def)

end

lemma replay_loop_ok:
  assumes "replay_loop me mp es acc nxt b = Inr batch"
  shows "\<exists>k \<le> length es. batch_events batch = acc @ map entry (take k es) \<and>
    next_after_id batch = (if k = 0 then nxt else Some (event_id (es ! (k - 1)))) \<and>
    batch_payload_bytes batch = b + sum_list (map payload_bytes (take k es)) \<and>
    (b \<le> mp \<longrightarrow> batch_payload_bytes batch \<le> mp) \<and>
    (length acc \<le> me \<longrightarrow> length (batch_events batch) \<le> me) \<and>
    (complete batch \<longleftrightarrow> k = length es) \<and>
    (acc = [] \<longrightarrow> 0 < me \<longrightarrow> es \<noteq> [] \<longrightarrow> 0 < k)"
  using assms
proof (induction es arbitrary: acc nxt b)
  case (Cons e es)
  show ?case
  proof (cases "length acc = me \<or> b + payload_bytes e > mp")
    case True
    with Cons.prems show ?thesis
      by (intro exI [of _ 0]) (auto simp: checked_add_def split: if_splits)
  next
    case False
    with Cons.prems have "replay_loop me mp es (acc @ [entry e]) (Some (event_id e)) (b + payload_bytes e) = Inr batch"
      by (auto simp: checked_add_def split: if_splits)
    from Cons.IH [OF this] False show ?thesis
      by (elim exE conjE, rule_tac x = "Suc k" in exI) (auto simp: nth_Cons')
  qed
qed auto

lemma replay_loop_total:
  assumes "\<forall>e \<in> set es. payload_bytes e \<le> mp" and "b + sum_list (map payload_bytes es) \<le> u64_max"
    and "acc = [] \<longrightarrow> b = 0"
  shows "\<exists>batch. replay_loop me mp es acc nxt b = Inr batch"
  using assms
  by (induction es arbitrary: acc nxt b) (auto simp: checked_add_def)

definition replayable :: "instant \<times> bytes \<times> 'v event_store \<Rightarrow> bool" where
  "replayable = (\<lambda>(now, sid, s). (\<exists>ser. store_wf ser s) \<and> length sid \<le> max_stream_id_bytes (config s) \<and>
     (\<forall>e \<in> set (stored s sid). length (event_id e) \<le> max_replay_cursor_bytes (config s) \<and>
        payload_bytes e \<le> max_replay_payload_bytes (config s)))"

definition retained_entries :: "instant \<times> bytes \<times> 'v event_store \<Rightarrow> 'v event_entry list" where
  "retained_entries = (\<lambda>(now, sid, s). map entry (stored (cleaned now s) sid))"

definition replay_page :: "instant \<times> bytes \<times> 'v event_store \<Rightarrow> bytes option
    \<Rightarrow> (event_store_error + 'v event_entry list \<times> bytes option \<times> bool) \<times> (instant \<times> bytes \<times> 'v event_store)" where
  "replay_page = (\<lambda>(now, sid, s) cur.
     (case replay_bounded now sid cur s of
        (Inl e, s') \<Rightarrow> (Inl e, (now, sid, s'))
      | (Inr b, s') \<Rightarrow> (Inr (batch_events b, next_after_id b, complete b), (now, sid, s'))))"

lemma dropWhile_twice: "dropWhile P (dropWhile P xs) = dropWhile P xs"
  by (induction xs) auto

lemma stored_cleaned_twice:
  assumes "store_wf ser s"
  shows "stored (cleaned now (cleaned now s)) sid = stored (cleaned now s) sid"
  using stored_cleaned [of "cleaned now s" now sid] stored_cleaned [of s now sid] assms
    cleaned_wf [OF assms, of now]
  by (simp add: store_wf_def dropWhile_twice)

lemma stream_replay_at:
  assumes "stream_wf st" and "i \<le> length (events st)" and "length (events st) \<le> u64_max"
  shows "stream_replay_bounded (cursor_at entry_id (map entry (events st)) i) me mp st =
    replay_loop me mp (drop i (events st)) [] (cursor_at entry_id (map entry (events st)) i) 0"
proof (cases i)
  case (Suc j)
  with assms have "index st (event_id (events st ! j)) = Some j"
    by (simp add: stream_wf_def index_of_nth)
  with Suc assms show ?thesis
    by (simp add: stream_replay_bounded_def cursor_at_def sat_add_def)
qed (simp add: stream_replay_bounded_def cursor_at_def)

lemma stream_page_law:
  assumes wf: "stream_wf st" and i: "i \<le> length (events st)" and small: "length (events st) \<le> u64_max"
    and fit: "\<forall>e \<in> set (events st). payload_bytes e \<le> mp" and sum: "stream_sum st \<le> u64_max"
    and me: "0 < me"
  obtains b k where
    "stream_replay_bounded (cursor_at entry_id (map entry (events st)) i) me mp st = Inr b"
    "i + k \<le> length (events st)" "i < length (events st) \<longrightarrow> 0 < k"
    "batch_events b = take k (drop i (map entry (events st)))"
    "next_after_id b = cursor_at entry_id (map entry (events st)) (i + k)"
    "complete b \<longleftrightarrow> i + k = length (events st)"
proof -
  let ?es = "events st" and ?cur = "cursor_at entry_id (map entry (events st)) i"
  have "sum_list (map payload_bytes (drop i ?es)) \<le> u64_max"
    using sum take_drop_sum [of i ?es] by (simp add: stream_sum_def)
  then obtain b where b: "replay_loop me mp (drop i ?es) [] ?cur 0 = Inr b"
    using replay_loop_total [of "drop i ?es"] fit by (metis add_0 in_set_dropD)
  from replay_loop_ok [OF b] me obtain k where k: "k \<le> length (drop i ?es)"
    "batch_events b = map entry (take k (drop i ?es))"
    "next_after_id b = (if k = 0 then ?cur else Some (event_id (drop i ?es ! (k - 1))))"
    "complete b \<longleftrightarrow> k = length (drop i ?es)" "drop i ?es \<noteq> [] \<longrightarrow> 0 < k" by auto
  show thesis
    using k i b stream_replay_at [OF wf i small, of me mp]
    by (intro that [of b k]) (auto simp: cursor_at_def take_map drop_map)
qed


lemma replay_page_law:
  assumes rep: "replayable (now, sid, s)" and small: "max_events_per_stream (config s) \<le> u64_max"
    and i: "i \<le> length (retained_entries (now, sid, s))"
  shows "\<exists>k. replay_page (now, sid, s) (cursor_at entry_id (retained_entries (now, sid, s)) i) =
      (Inr (take k (drop i (retained_entries (now, sid, s))),
            cursor_at entry_id (retained_entries (now, sid, s)) (i + k),
            i + k = length (retained_entries (now, sid, s))), (now, sid, cleaned now s)) \<and>
    i + k \<le> length (retained_entries (now, sid, s)) \<and>
    (i < length (retained_entries (now, sid, s)) \<longrightarrow> 0 < k)"
proof -
  define s1 where "s1 = cleaned now s"
  define es where "es = stored s1 sid"
  let ?c = "config s" and ?cur = "cursor_at entry_id (map entry es) i"
  obtain ser where wf: "store_wf ser s" using rep by (auto simp: replayable_def)
  have wf1: "store_wf ser s1" and c1: "config s1 = ?c" using wf by (simp_all add: s1_def cleaned_wf)
  have es: "retained_entries (now, sid, s) = map entry es"
    by (simp add: retained_entries_def es_def s1_def)
  have "set es \<subseteq> set (stored s sid)"
    using stored_cleaned [of s now sid] wf by (auto simp: store_wf_def es_def s1_def dest: set_dropWhileD)
  then have fit: "\<forall>e \<in> set es. length (event_id e) \<le> max_replay_cursor_bytes ?c \<and>
      payload_bytes e \<le> max_replay_payload_bytes ?c"
    using rep by (auto simp: replayable_def)
  have "es ! (i - 1) \<in> set es" if "0 < i" using that i by (simp add: es)
  then have cur: "\<not> (case ?cur of None \<Rightarrow> False | Some x \<Rightarrow> length x > max_replay_cursor_bytes ?c)"
    using fit i by (simp add: cursor_at_def es not_less)
  have bounded: "replay_bounded now sid ?cur s =
      (case map_of (streams s1) sid of
         Some st \<Rightarrow> stream_replay_bounded ?cur (max_replay_events ?c) (max_replay_payload_bytes ?c) st
       | None \<Rightarrow> if ?cur \<noteq> None then Inl ReplayCursorNotRetained else Inr empty_batch, s1)"
    using rep cur by (auto simp: replay_bounded_def replayable_def Let_def s1_def)
  show ?thesis
  proof (cases "map_of (streams s1) sid")
    case None
    then have "es = []" by (simp add: es_def stored_def)
    then show ?thesis using bounded None i
      by (simp add: replay_page_def es cursor_at_def empty_batch_def flip: s1_def)
  next
    case (Some st)
    then have st: "events st = es" "stream_wf st" "length es \<le> max_events_per_stream ?c"
      using wf1 c1 by (auto simp: es_def stored_def store_wf_def stream_ok_def)
    have "stream_sum st \<le> u64_max"
      using wf1 stored_sum_le [of s1 sid] by (simp add: store_wf_def stream_sum_def st es_def)
    moreover have "0 < max_replay_events ?c" using wf by (simp add: store_wf_def validate_ok_iff)
    ultimately obtain b k where bk:
      "stream_replay_bounded ?cur (max_replay_events ?c) (max_replay_payload_bytes ?c) st = Inr b"
      "i + k \<le> length es" "i < length es \<longrightarrow> 0 < k" "batch_events b = take k (drop i (map entry es))"
      "next_after_id b = cursor_at entry_id (map entry es) (i + k)" "complete b \<longleftrightarrow> i + k = length es"
      using stream_page_law [OF st(2), of i "max_replay_payload_bytes ?c" "max_replay_events ?c"] fit st i small
      by (auto simp: es)
    with bounded Some show ?thesis
      by (intro exI [of _ k]) (simp add: replay_page_def es flip: s1_def)
  qed
qed

text \<open>Cleaning keeps the stream replayable and its retained entries.\<close>

definition replay_inv :: "instant \<times> bytes \<times> 'v event_store \<Rightarrow> bool" where
  "replay_inv x \<longleftrightarrow> replayable x \<and> max_events_per_stream (config (snd (snd x))) \<le> u64_max"

lemma replay_inv_cleaned:
  assumes "replay_inv (now, sid, s)"
  shows "replay_inv (now, sid, cleaned now s) \<and>
    retained_entries (now, sid, cleaned now s) = retained_entries (now, sid, s)"
proof -
  obtain ser where wf: "store_wf ser s" using assms by (auto simp: replay_inv_def replayable_def)
  have "set (stored (cleaned now s) sid) \<subseteq> set (stored s sid)"
    using stored_cleaned [of s now sid] wf by (auto simp: store_wf_def dest: set_dropWhileD)
  with assms wf cleaned_wf [OF wf] show ?thesis
    by (auto simp: replay_inv_def replayable_def retained_entries_def stored_cleaned_twice [OF wf])
qed

interpretation store_log: paged_log replay_inv retained_entries entry_id replay_page
proof
  fix x :: "instant \<times> bytes \<times> 'v event_store" and i
  assume a: "replay_inv x" "i \<le> length (retained_entries x)"
  obtain now sid s where x: "x = (now, sid, s)" by (cases x) auto
  have pre: "replayable (now, sid, s)" "max_events_per_stream (config s) \<le> u64_max"
    "i \<le> length (retained_entries (now, sid, s))"
    using a by (simp_all add: x replay_inv_def)
  show "\<exists>k s'. replay_page x (cursor_at entry_id (retained_entries x) i) =
      (Inr (take k (drop i (retained_entries x)), cursor_at entry_id (retained_entries x) (i + k),
        i + k = length (retained_entries x)), s') \<and>
      i + k \<le> length (retained_entries x) \<and> (i < length (retained_entries x) \<longrightarrow> 0 < k) \<and>
      replay_inv s' \<and> retained_entries s' = retained_entries x"
    using replay_page_law [OF pre] replay_inv_cleaned [OF a(1) [unfolded x]] unfolding x by blast
qed

section \<open>Time\<close>

definition times_ok :: "instant \<Rightarrow> 'v event_store \<Rightarrow> bool" where
  "times_ok t s \<longleftrightarrow> (\<forall>sid. sorted (map (\<lambda>e. created_at (entry e)) (stored s sid)) \<and>
     (\<forall>e \<in> set (stored s sid). created_at (entry e) \<le> t))"

lemma dropWhile_expired_filter:
  assumes "sorted (map (\<lambda>e. created_at (entry e)) es)"
  shows "dropWhile (\<lambda>e. is_expired now (entry e) d) es = filter (\<lambda>e. \<not> is_expired now (entry e) d) es"
  using assms
proof (induction es)
  case (Cons e es)
  have "\<forall>x \<in> set es. \<not> is_expired now (entry x) d" if "\<not> is_expired now (entry e) d"
    using that Cons.prems by (fastforce simp: is_expired_def split: option.splits)
  with Cons show ?case by (simp add: filter_id_conv)
qed simp

lemma sorted_map_sublist:
  "sorted (map f xs) \<Longrightarrow> sorted (map f (drop k xs))" "sorted (map f xs) \<Longrightarrow> sorted (map f (filter P xs))"
  by (simp_all add: drop_map [symmetric] sorted_wrt_drop sorted_filter)

lemma times_ok_cleaned:
  assumes "times_ok t s" and "distinct (map fst (streams s))"
  shows "times_ok t (cleaned now s)"
  using assms
  by (auto simp: times_ok_def stored_cleaned dropWhile_expired_filter intro: sorted_map_sublist)

lemma times_ok_mono: "times_ok t s \<Longrightarrow> t \<le> t' \<Longrightarrow> times_ok t' s"
  unfolding times_ok_def using le_trans by blast

lemma times_ok_store:
  assumes "times_ok now s" and "stored s' = (stored s)(sid := appended s sid (new_event now wall sid data s0 n))"
  shows "times_ok now s'"
  unfolding times_ok_def
proof (intro allI)
  fix sid'
  have "sorted (map (\<lambda>e. created_at (entry e)) (drop k (stored s sid)))" for k
    using assms(1) by (simp add: times_ok_def sorted_map_sublist)
  with assms show "sorted (map (\<lambda>e. created_at (entry e)) (stored s' sid')) \<and>
      (\<forall>e \<in> set (stored s' sid'). created_at (entry e) \<le> now)"
    by (auto simp: times_ok_def appended_def new_event_def sorted_append dest: in_set_dropD)
qed

section \<open>The store as a machine\<close>

datatype 'v store_op =
    StoreEvent nat bytes "'v option"
  | StorePrimingEvent nat bytes
  | GetEventsAfter bytes "bytes option"
  | ReplayBounded bytes "bytes option"
  | ReplayEventsAfter bytes
  | FindStreamForEvent bytes
  | ClearStream bytes
  | CleanupExpired
  | StreamCount
  | EventCount
  | Stats

primrec apply_op :: "('v \<Rightarrow> ser_run) \<Rightarrow> instant \<Rightarrow> 'v store_op \<Rightarrow> 'v event_store \<Rightarrow> 'v event_store" where
  "apply_op ser now (StoreEvent wall sid data) s = snd (store_event ser now wall sid data s)"
| "apply_op ser now (StorePrimingEvent wall sid) s = snd (store_priming_event ser now wall sid s)"
| "apply_op ser now (GetEventsAfter sid cur) s = snd (get_events_after now sid cur s)"
| "apply_op ser now (ReplayBounded sid cur) s = snd (replay_bounded now sid cur s)"
| "apply_op ser now (ReplayEventsAfter i) s = snd (replay_events_after now i (\<lambda>e c. c) () s)"
| "apply_op ser now (FindStreamForEvent i) s = snd (find_stream_for_event now i s)"
| "apply_op ser now (ClearStream sid) s = clear_stream sid s"
| "apply_op ser now CleanupExpired s = cleanup_expired now s"
| "apply_op ser now StreamCount s = snd (stream_count now s)"
| "apply_op ser now EventCount s = snd (event_count now s)"
| "apply_op ser now Stats s = snd (stats now s)"

text \<open>
  The state of the machine is the last clock reading and the store; an operation happens at a later
  reading of the monotonic clock, before the 64-bit event counter is exhausted.
\<close>

definition op_enabled :: "instant \<times> 'v store_op \<Rightarrow> instant \<times> 'v event_store \<Rightarrow> bool" where
  "op_enabled = (\<lambda>(now, op) (t, s). t \<le> now \<and> event_counter s < u64_max)"

definition timed_step ::
  "('v \<Rightarrow> ser_run) \<Rightarrow> instant \<times> 'v store_op \<Rightarrow> instant \<times> 'v event_store \<Rightarrow> instant \<times> 'v event_store" where
  "timed_step ser = (\<lambda>(now, op) (t, s). (now, apply_op ser now op s))"

definition timed_wf :: "('v \<Rightarrow> ser_run) \<Rightarrow> instant \<times> 'v event_store \<Rightarrow> bool" where
  "timed_wf ser = (\<lambda>(t, s). store_wf ser s \<and> times_ok t s)"

lemma store_event_keeps:
  assumes "store_wf ser s" and "times_ok t s" and "t \<le> now" and "event_counter s < u64_max"
  shows "store_wf ser (snd (store_event ser now wall sid data s)) \<and>
    times_ok now (snd (store_event ser now wall sid data s))"
proof -
  have dist: "distinct (map fst (streams s))" using assms(1) by (simp add: store_wf_def)
  have t: "times_ok now (cleaned now s)" "times_ok now s"
    using times_ok_cleaned [OF _ dist] times_ok_mono assms by blast+
  show ?thesis
  proof (cases "\<exists>n. admits ser now sid data s n")
    case True
    then obtain n where n: "admits ser now sid data s n" by blast
    show ?thesis
      by (rule store_event_admitted [OF assms(1,4) n, of wall]) (use t times_ok_store in auto)
  next
    case False
    obtain r s' where r: "store_event ser now wall sid data s = (r, s')" by force
    from store_event_refused [OF assms(1) r False] t assms(1) cleaned_wf [OF assms(1), of now] r
    show ?thesis by auto
  qed
qed

lemma delete_payload_sum: "payload_sum (AList.delete sid ss) \<le> payload_sum ss"
  by (induction ss) (auto simp: AList.delete_eq payload_sum_def)

lemma clear_stream_keeps:
  assumes "store_wf ser s"
  shows "store_wf ser (clear_stream sid s) \<and> (times_ok t s \<longrightarrow> times_ok t (clear_stream sid s))"
proof -
  let ?ss = "AList.delete sid (streams s)"
  have st: "stored (clear_stream sid s) = (stored s)(sid := [])"
    by (auto simp: stored_def clear_stream_def delete_conv' fun_eq_iff)
  have "ids_ok (clear_stream sid s)"
    by (rule ids_ok_subset [of s]) (use assms st in \<open>auto simp: store_wf_def clear_stream_def\<close>)
  moreover have "length ?ss \<le> length (streams s)" "payload_sum ?ss \<le> payload_sum (streams s)"
    using delete_payload_sum by (auto simp: AList.delete_eq)
  ultimately show ?thesis
    using assms by (auto simp: store_wf_def clear_stream_def delete_conv' distinct_delete times_ok_def
        st [unfolded clear_stream_def])
qed

lemma apply_op_cases:
  "apply_op ser now op s = s \<or> apply_op ser now op s = cleaned now s \<or>
   (\<exists>sid. apply_op ser now op s = clear_stream sid s) \<or>
   (\<exists>wall sid data. apply_op ser now op s = snd (store_event ser now wall sid data s))"
  by (cases op) (auto simp: store_priming_event_def get_events_after_def replay_bounded_def
      replay_events_after_def find_stream_for_event_def cleanup_expired_def stream_count_def
      event_count_def stats_def Let_def)

lemma timed_step_keeps:
  assumes "timed_wf ser x" and "op_enabled a x"
  shows "timed_wf ser (timed_step ser a x)"
proof -
  obtain now op t s where a: "a = (now, op)" "x = (t, s)" by (cases a; cases x) auto
  have s: "store_wf ser s" "times_ok t s" "t \<le> now" "event_counter s < u64_max"
    using assms by (simp_all add: a timed_wf_def op_enabled_def)
  have times: "times_ok now s" using s times_ok_mono by blast
  then have cl: "store_wf ser (cleaned now s) \<and> times_ok now (cleaned now s)"
    using cleaned_wf [OF s(1)] times_ok_cleaned [OF times] s(1) by (simp add: store_wf_def)
  have "store_wf ser (apply_op ser now op s) \<and> times_ok now (apply_op ser now op s)"
    using apply_op_cases [of ser now op s] cl s(1) times store_event_keeps [OF s]
      clear_stream_keeps [OF s(1)] by (elim disjE exE) simp_all
  then show ?thesis by (simp add: a timed_wf_def timed_step_def)
qed

interpretation store_machine: guarded_machine "timed_wf ser" op_enabled "timed_step ser" for ser
  by unfold_locales (rule timed_step_keeps)

lemma find_owner_unique:
  assumes "distinct (map fst ss)" and "map_of ss sid = Some st" and "contains i st"
    and "\<And>sid' st'. map_of ss sid' = Some st' \<Longrightarrow> contains i st' \<Longrightarrow> sid' = sid"
  shows "find_owner i ss = Some (sid, st)"
  using assms
proof (induction ss)
  case (Cons p ss)
  obtain k v where p: "p = (k, v)" by force
  have none: "map_of ss k = None" using Cons.prems(1) p by (simp add: map_of_eq_None_iff)
  show ?case
  proof (cases "k = sid")
    case False
    then have "\<not> contains i v" using Cons.prems(4) [of k v] p by auto
    moreover have "sid' = sid" if "map_of ss sid' = Some st'" "contains i st'" for sid' st'
      using none Cons.prems(4) [of sid' st'] that p by (cases "sid' = k") auto
    moreover have "distinct (map fst ss)" "map_of ss sid = Some st"
      using Cons.prems(1,2) False p by simp_all
    ultimately show ?thesis using Cons.IH [OF _ _ Cons.prems(3)] p by simp
  qed (use Cons.prems(2,3) p in simp)
qed simp

section \<open>Properties\<close>

definition sample_ser :: "bytes \<Rightarrow> ser_run" where
  "sample_ser v = ([v], True)"

definition sample_config :: event_store_config where
  "sample_config = \<lparr>max_events_per_stream = 2, max_streams = 2, max_stream_id_bytes = 4,
     max_event_payload_bytes = 4, max_total_event_payload_bytes = 8, max_replay_events = 1,
     max_replay_payload_bytes = 4, max_replay_cursor_bytes = 8, ttl = Some 10\<rparr>"

lemmas store_eval = store_event_def sample_config_def from_validated_config_def
  measure_event_payload_def to_writer_def sample_ser_def counter_write_def counter_new_def
  checked_add_def checked_sub_def cleaned_def cleanup_streams_def retained_after_def
  total_payload_bytes_def generate_event_id_def push_def evict_oldest.simps stream_events_new_def
  stream_payload_bytes_def prospective_evicted_payload_bytes_def remove_expired_def is_expired_def
  u64_max_def

lemma sample_config_valid: "validate sample_config = Inr ()"
  by (simp add: validate_ok_iff sample_config_def)

text \<open>
  C9: Every state that a sequence of operations reaches from a validated configuration satisfies
  the invariant: distinct non-empty streams, at most the configured number of streams, events for
  each stream and payload bytes in total, exact per-event accounting, an index that agrees with the
  deque, identifiers that occur once in the whole store, and events in order of creation.
\<close>

theorem event_store_run_wf:
  assumes "validate c = Inr ()"
    and "admissible op_enabled (timed_step ser) ops (t, from_validated_config c)"
  shows "timed_wf ser (fold (timed_step ser) ops (t, from_validated_config c))"
proof (rule store_machine.run_keeps [OF _ assms(2)])
  show "timed_wf ser (t, from_validated_config c)"
    using store_wf_initial [OF assms(1)]
    by (simp add: timed_wf_def times_ok_def stored_def from_validated_config_def)
qed

theorem event_store_run_wf_witness:
  "timed_wf sample_ser (fold (timed_step sample_ser)
     [(1, StoreEvent 7 ''a'' (Some ''xy'')), (3, StoreEvent 7 ''a'' None), (4, ClearStream ''b'')]
     (0, from_validated_config sample_config))"
  by (rule event_store_run_wf [OF sample_config_valid])
    (simp add: op_enabled_def timed_step_def clear_stream_def store_eval)

text \<open>
  C5: Storing refines the abstract append.  The event is admitted exactly when the identifier, the
  payload, the number of streams and the bytes retained after eviction fit; then the stream is its
  unexpired content with the oldest surplus dropped and the new event appended, no other stream
  changes beyond expiry, and the identifier is fresh.  A refused event leaves the store as it was,
  up to expiry.
\<close>

theorem store_event_refines:
  assumes "store_wf ser s" and "event_counter s < u64_max"
  shows "case store_event ser now wall sid data s of
      (Inl err, s') \<Rightarrow> (\<nexists>n. admits ser now sid data s n) \<and> (s' = s \<or> s' = cleaned now s)
    | (Inr i, s') \<Rightarrow>
        i = format_event_id wall (event_counter s) \<and> (\<forall>sid'. i \<notin> event_id ` set (stored s sid')) \<and>
        store_wf ser s' \<and> event_counter s' = Suc (event_counter s) \<and>
        (\<exists>n. admits ser now sid data s n \<and>
             stored s' = (stored (cleaned now s))
               (sid := appended (cleaned now s) sid (new_event now wall sid data s n)))"
proof (cases "\<exists>n. admits ser now sid data s n")
  case True
  then obtain n where n: "admits ser now sid data s n" by blast
  have "ids_ok s" using assms(1) by (simp add: store_wf_def)
  then show ?thesis
    using n fresh_id by (rule_tac store_event_admitted [OF assms n, of wall]) auto
next
  case False
  obtain r s' where r: "store_event ser now wall sid data s = (r, s')" by force
  show ?thesis using store_event_refused [OF assms(1) r False] r False by (cases r) auto
qed

theorem store_event_refines_witness:
  "\<exists>s'. store_event sample_ser 1 7 ''a'' (Some ''xy'') (from_validated_config sample_config) =
       (Inr (format_event_id 7 0), s') \<and>
     stored s' ''a'' = [\<lparr>entry = \<lparr>entry_id = format_event_id 7 0, entry_stream_id = ''a'',
       entry_data = Some ''xy'', created_at = 1\<rparr>, payload_bytes = 2\<rparr>] \<and> store_wf sample_ser s'"
proof -
  let ?s = "from_validated_config sample_config"
  have "store_wf sample_ser ?s" "event_counter ?s < u64_max"
    using store_wf_initial [OF sample_config_valid]
    by (simp_all add: from_validated_config_def u64_max_def)
  from store_event_refines [OF this, where now = 1 and wall = 7 and sid = "''a''" and data = "Some ''xy''"]
  show ?thesis
    by (simp add: store_eval stored_def)
qed

text \<open>
  C19: Replay is complete.  Let every event of the stream have a payload of at most
  \<open>max_replay_payload_bytes\<close> bytes, which a page can then hold, and an identifier of at most
  \<open>max_replay_cursor_bytes\<close>, which can then be sent back as a cursor.  A consumer that starts without a
  cursor and passes each page's cursor back receives every retained, unexpired event of the stream,
  once and in order, after at most one page for each event (one page in all when there is none).
\<close>

theorem replay_drains_stream:
  assumes "store_wf ser s" and "length sid \<le> max_stream_id_bytes (config s)"
    and "\<forall>e \<in> set (stored s sid). length (event_id e) \<le> max_replay_cursor_bytes (config s) \<and>
           payload_bytes e \<le> max_replay_payload_bytes (config s)"
    and "max_events_per_stream (config s) \<le> u64_max"
    and "max 1 (length (stored (cleaned now s) sid)) \<le> n"
  shows "drain replay_page n (now, sid, s) None = Some (map entry (stored (cleaned now s) sid))"
proof -
  have "replay_inv (now, sid, s)" using assms by (auto simp: replay_inv_def replayable_def)
  from store_log.drain_all [OF this, of n] assms(5) show ?thesis by (simp add: retained_entries_def)
qed

definition sample_store :: "bytes event_store" where
  "sample_store = snd (store_event sample_ser 2 7 ''a'' (Some ''z'')
     (snd (store_event sample_ser 1 7 ''a'' (Some ''xy'') (from_validated_config sample_config))))"

lemma sample_store_wf: "store_wf sample_ser sample_store" "config sample_store = sample_config"
  "event_counter sample_store = 2"
proof -
  let ?s0 = "from_validated_config sample_config"
  have "timed_wf sample_ser (0, ?s0)"
    using store_wf_initial [OF sample_config_valid]
    by (simp add: timed_wf_def times_ok_def stored_def from_validated_config_def)
  then have "timed_wf sample_ser (fold (timed_step sample_ser)
      [(1, StoreEvent 7 ''a'' (Some ''xy'')), (2, StoreEvent 7 ''a'' (Some ''z''))] (0, ?s0))"
    by (rule store_machine.run_keeps) (simp add: op_enabled_def timed_step_def store_eval)
  then show "store_wf sample_ser sample_store"
    by (simp add: timed_step_def timed_wf_def sample_store_def)
qed (simp_all add: sample_store_def store_eval)

lemma sample_store_stored:
  "stored sample_store sid = (if sid = ''a'' then
     [\<lparr>entry = \<lparr>entry_id = format_event_id 7 0, entry_stream_id = ''a'',
        entry_data = Some ''xy'', created_at = 1\<rparr>, payload_bytes = 2\<rparr>,
      \<lparr>entry = \<lparr>entry_id = format_event_id 7 1, entry_stream_id = ''a'',
        entry_data = Some ''z'', created_at = 2\<rparr>, payload_bytes = 1\<rparr>] else [])"
  by (simp add: sample_store_def store_eval stored_def)

theorem replay_drains_stream_witness:
  "drain replay_page 2 (5, ''a'', sample_store) None = Some (map entry (stored sample_store ''a''))"
proof -
  have cl: "stored (cleaned 5 sample_store) ''a'' = stored sample_store ''a''"
    using stored_cleaned [of sample_store 5 "''a''"] sample_store_wf
    by (simp add: store_wf_def sample_store_stored is_expired_def sample_config_def)
  show ?thesis
    using replay_drains_stream [OF sample_store_wf(1), of "''a''" 5 2]
    by (simp add: cl) (simp add: sample_store_wf(2) sample_store_stored sample_config_def
        format_event_id_def show_nat.simps u64_max_def)
qed



text \<open>
  Cursors do not leak across streams.  An identifier retained by another stream, or by none, is
  refused as \<open>ReplayCursorNotRetained\<close> with the same error, and the unbounded read returns nothing.
\<close>

lemma replay_cursor_isolation:
  assumes "store_wf ser s" and "length sid \<le> max_stream_id_bytes (config s)"
    and "length i \<le> max_replay_cursor_bytes (config s)"
    and "i \<in> event_id ` set (stored s other) \<and> other \<noteq> sid \<or> (\<forall>o'. i \<notin> event_id ` set (stored s o'))"
  shows "replay_bounded now sid (Some i) s = (Inl ReplayCursorNotRetained, cleaned now s) \<and>
    get_events_after now sid (Some i) s = ([], cleaned now s)"
proof -
  have wf1: "store_wf ser (cleaned now s)" using assms(1) by (rule cleaned_wf)
  have "i \<notin> event_id ` set (stored s sid)"
    using assms(1,4) unfolding store_wf_def ids_ok_def by blast
  then have "i \<notin> event_id ` set (stored (cleaned now s) sid)"
    using stored_cleaned [of s now sid] assms(1) by (auto simp: store_wf_def dest: set_dropWhileD)
  then have "index st i = None" if "map_of (streams (cleaned now s)) sid = Some st" for st
    using store_streamD [OF wf1 that] that
    by (auto simp: stream_ok_def stream_wf_def index_of_None_iff stored_def)
  then show ?thesis
    using assms(2,3)
    by (auto simp: replay_bounded_def get_events_after_def stream_replay_bounded_def events_after_def
        Let_def split: option.splits)
qed

text \<open>
  C24: Resumption by identifier.  Whatever the iteration order of the hash map, an identifier that is
  retained at position \<open>j\<close> of a stream is resolved to that stream, and the callback is run on exactly
  the events behind it, in order.
\<close>

theorem resume_by_event_id:
  assumes "store_wf ser s" and "j < length (stored (cleaned now s) sid)"
    and "i = event_id (stored (cleaned now s) sid ! j)"
  shows "find_stream_for_event now i s = (Some sid, cleaned now s) \<and>
    replay_events_after now i callback c s =
      ((Some sid, fold callback (map entry (drop (Suc j) (stored (cleaned now s) sid))) c), cleaned now s)"
proof -
  let ?s = "cleaned now s"
  have wf: "store_wf ser ?s" using assms(1) by (rule cleaned_wf)
  obtain st where st: "map_of (streams ?s) sid = Some st" "stored ?s sid = events st"
    using assms(2) by (auto simp: stored_def split: option.splits)
  have sw: "stream_wf st" using store_streamD [OF wf st(1)] by (simp add: stream_ok_def)
  then have idx: "index st i = Some j"
    using assms(2,3) st(2) by (simp add: stream_wf_def index_of_nth)
  have owner: "find_owner i (streams ?s) = Some (sid, st)"
  proof (rule find_owner_unique [OF _ st(1)])
    show "distinct (map fst (streams ?s))" using wf by (simp add: store_wf_def)
    show "contains i st" using idx by (simp add: contains_def)
    fix sid' st' assume "map_of (streams ?s) sid' = Some st'" "contains i st'"
    then have "i \<in> event_id ` set (stored ?s sid')"
      using store_streamD [OF wf, of sid' st'] index_of_None_iff [of "events st'" i]
      by (auto simp: stream_ok_def stream_wf_def contains_def stored_def)
    moreover have "i \<in> event_id ` set (stored ?s sid)" using assms(2,3) by simp
    ultimately show "sid' = sid" using wf unfolding store_wf_def ids_ok_def by blast
  qed
  show ?thesis
    using owner idx st(2)
    by (simp add: find_stream_for_event_def replay_events_after_def events_after_def Let_def)
qed

theorem resume_by_event_id_witness:
  "fst (replay_events_after 5 (format_event_id 7 0) (\<lambda>e ds. ds @ [entry_data e]) [] sample_store) =
     (Some ''a'', [Some ''z''])"
proof -
  have cl: "stored (cleaned 5 sample_store) ''a'' = stored sample_store ''a''"
    using stored_cleaned [of sample_store 5 "''a''"] sample_store_wf
    by (simp add: store_wf_def sample_store_stored is_expired_def sample_config_def)
  have "0 < length (stored (cleaned 5 sample_store) ''a'')"
    "format_event_id 7 0 = event_id (stored (cleaned 5 sample_store) ''a'' ! 0)"
    by (simp_all add: cl sample_store_stored)
  from resume_by_event_id [OF sample_store_wf(1) this, of "\<lambda>e ds. ds @ [entry_data e]" "[]"]
  show ?thesis by (simp add: cl sample_store_stored)
qed

text \<open>
  Expiry is exact.  Under a monotone clock the clean-up every operation starts with keeps, in
  order, exactly the events whose age does not exceed the time to live, in every stream.
\<close>

lemma cleanup_removes_exactly_expired:
  assumes "timed_wf ser (t, s)" and "t \<le> now"
  shows "stored (cleanup_expired now s) sid =
      filter (\<lambda>e. \<not> is_expired now (entry e) (ttl (config s))) (stored s sid) \<and>
    timed_wf ser (now, cleanup_expired now s)"
proof -
  have s: "store_wf ser s" "times_ok t s" and dist: "distinct (map fst (streams s))"
    using assms(1) by (simp_all add: timed_wf_def store_wf_def)
  have "sorted (map (\<lambda>e. created_at (entry e)) (stored s sid))" using s by (simp add: times_ok_def)
  with dist have "stored (cleaned now s) sid =
      filter (\<lambda>e. \<not> is_expired now (entry e) (ttl (config s))) (stored s sid)"
    by (simp add: stored_cleaned dropWhile_expired_filter)
  then show ?thesis
    using cleaned_wf [OF s(1), of now] times_ok_cleaned [OF times_ok_mono [OF s(2) assms(2)] dist]
    by (simp add: cleanup_expired_def timed_wf_def)
qed

text \<open>
  Payload measurement is exact: the counting writer returns the length of the compact encoding
  when it fits, and otherwise reports the size error, even when the serializer itself would fail
  later; a serializer failure within the limit is reported as such.
\<close>

lemma measure_event_payload_exact:
  assumes "m \<le> u64_max"
  shows "measure_event_payload ser (Some v) m =
    (if encoded_length (ser v) > m then Inl (EventPayloadTooLarge m)
     else if snd (ser v) then Inr (encoded_length (ser v)) else Inl PayloadMeasurementFailed)"
  using counter_write_all [of "counter_new m" "fst (ser v)"] assms
  by (auto simp: measure_event_payload_def to_writer_def counter_new_def encoded_length_def Let_def
      split: if_splits)

end
