(* ===== verification/Docket.thy ===== *)
theory Docket
  imports Prelude
begin

text \<open>
  The task queue (\<open>crates/fastmcp-server/src/docket.rs\<close>): settings, tasks, the backend trait as a
  record of operations, the in-memory backend, the client \<open>Docket\<close> and the \<open>Worker\<close>.  Task
  parameters and results are a type parameter.  The operations of \<open>chrono\<close> the code relies on
  (formatting, parsing, duration conversion) are the record \<open>chrono\<close>, and the time of each call is
  an argument.  The build is the one without the \<open>redis\<close> feature.  Lock poisoning is not
  modelled: it needs a panic while a lock is held.  \<open>u32\<close> counters wrap, as in a release build.
\<close>

section \<open>Status, settings and tasks\<close>

datatype task_status = Pending | Running | Completed | Failed | Cancelled

definition is_terminal :: "task_status \<Rightarrow> bool" where
  "is_terminal st \<longleftrightarrow> st = Completed \<or> st = Failed \<or> st = Cancelled"

record redis_settings =
  url :: bytes
  pool_size :: nat
  connect_timeout :: duration

datatype docket_backend_type = Memory | Redis redis_settings

record docket_settings =
  backend_type :: docket_backend_type
  queue_prefix :: bytes
  visibility_timeout :: duration
  default_task_timeout :: duration
  default_max_retries :: nat
  retry_delay :: duration
  poll_interval :: duration

abbreviation secs :: "nat \<Rightarrow> duration" where
  "secs n \<equiv> n * 1000000000"

definition default_settings :: docket_settings where
  "default_settings = \<lparr>backend_type = Memory, queue_prefix = ''fastmcp:docket'',
     visibility_timeout = secs 30, default_task_timeout = secs 300, default_max_retries = 3,
     retry_delay = secs 1, poll_interval = 100 * 1000000\<rparr>"

definition memory_settings :: docket_settings where
  "memory_settings = default_settings"

definition redis_backend_settings :: "bytes \<Rightarrow> docket_settings" where
  "redis_backend_settings u = default_settings\<lparr>backend_type :=
     Redis \<lparr>url = u, pool_size = 10, connect_timeout = secs 5\<rparr>\<rparr>"

definition with_queue_prefix :: "bytes \<Rightarrow> docket_settings \<Rightarrow> docket_settings" where
  "with_queue_prefix prefix s = s\<lparr>queue_prefix := prefix\<rparr>"

definition with_visibility_timeout :: "duration \<Rightarrow> docket_settings \<Rightarrow> docket_settings" where
  "with_visibility_timeout timeout s = s\<lparr>visibility_timeout := timeout\<rparr>"

definition with_max_retries :: "nat \<Rightarrow> docket_settings \<Rightarrow> docket_settings" where
  "with_max_retries retries s = s\<lparr>default_max_retries := retries\<rparr>"

definition with_poll_interval :: "duration \<Rightarrow> docket_settings \<Rightarrow> docket_settings" where
  "with_poll_interval interval s = s\<lparr>poll_interval := interval\<rparr>"

type_synonym task_id = bytes

record 'v docket_task =
  task_id :: task_id
  task_type :: bytes
  params :: 'v
  priority :: int
  retry_count :: nat
  max_retries :: nat
  created_at :: bytes
  claimed_at :: "bytes option"
  status :: task_status
  task_error :: "bytes option"
  task_result :: "'v option"

record chrono =
  to_rfc3339 :: "int \<Rightarrow> bytes"
  parse_from_rfc3339 :: "bytes \<Rightarrow> int option"
  from_std :: "duration \<Rightarrow> int option"

definition task_new :: "chrono \<Rightarrow> int \<Rightarrow> task_id \<Rightarrow> bytes \<Rightarrow> 'v \<Rightarrow> int \<Rightarrow> nat \<Rightarrow> 'v docket_task" where
  "task_new ch now i ty ps prio retries =
     \<lparr>task_id = i, task_type = ty, params = ps, priority = prio, retry_count = 0,
      max_retries = retries, created_at = to_rfc3339 ch now, claimed_at = None, status = Pending,
      task_error = None, task_result = None\<rparr>"

text \<open>The type parameter \<open>'f\<close> stands for the floating-point type of the progress field.\<close>

record 'f task_info =
  info_id :: task_id
  info_task_type :: bytes
  info_status :: task_status
  info_progress :: "'f option"
  info_message :: "bytes option"
  info_created_at :: bytes
  info_started_at :: "bytes option"
  info_completed_at :: "bytes option"
  info_error :: "bytes option"

definition to_task_info :: "chrono \<Rightarrow> int \<Rightarrow> 'v docket_task \<Rightarrow> 'f task_info" where
  "to_task_info ch now t =
     \<lparr>info_id = task_id t, info_task_type = task_type t, info_status = status t,
      info_progress = None, info_message = None, info_created_at = created_at t, info_started_at = claimed_at t,
      info_completed_at = (if is_terminal (status t) then Some (to_rfc3339 ch now) else None),
      info_error = task_error t\<rparr>"

record 'v task_outcome =
  outcome_id :: task_id
  outcome_success :: bool
  outcome_data :: "'v option"
  outcome_error :: "bytes option"

definition to_task_result :: "'v docket_task \<Rightarrow> 'v task_outcome option" where
  "to_task_result t =
     (if \<not> is_terminal (status t) then None
      else Some \<lparr>outcome_id = task_id t, outcome_success = (status t = Completed),
                 outcome_data = task_result t, outcome_error = task_error t\<rparr>)"

record submit_options =
  opt_priority :: int
  opt_max_retries :: "nat option"
  opt_delay :: "duration option"

definition submit_options_new :: submit_options where
  "submit_options_new = \<lparr>opt_priority = 0, opt_max_retries = None, opt_delay = None\<rparr>"

definition opt_with_priority :: "int \<Rightarrow> submit_options \<Rightarrow> submit_options" where
  "opt_with_priority p opts = opts\<lparr>opt_priority := p\<rparr>"

definition opt_with_max_retries :: "nat \<Rightarrow> submit_options \<Rightarrow> submit_options" where
  "opt_with_max_retries r opts = opts\<lparr>opt_max_retries := Some r\<rparr>"

definition opt_with_delay :: "duration \<Rightarrow> submit_options \<Rightarrow> submit_options" where
  "opt_with_delay d opts = opts\<lparr>opt_delay := Some d\<rparr>"

datatype docket_error =
    NotFound bytes
  | Connection bytes
  | Serialization bytes
  | Handler bytes
  | Backend bytes
  | OperationCancelled

fun error_display :: "docket_error \<Rightarrow> bytes" where
  "error_display (NotFound msg) = ''Task not found: '' @ msg"
| "error_display (Connection msg) = ''Connection error: '' @ msg"
| "error_display (Serialization msg) = ''Serialization error: '' @ msg"
| "error_display (Handler msg) = ''Handler error: '' @ msg"
| "error_display (Backend msg) = ''Backend error: '' @ msg"
| "error_display OperationCancelled = ''Operation cancelled''"

record queue_stats =
  stats_pending :: nat
  stats_in_progress :: nat
  stats_completed :: nat
  stats_failed :: nat
  stats_cancelled :: nat

section \<open>The backend trait\<close>

text \<open>
  \<open>dyn DocketBackend\<close>: its operations on the backend's state \<open>'s\<close>; those that read the clock take
  the time of the call.
\<close>

record ('s, 'v) docket_backend =
  b_enqueue :: "'v docket_task \<Rightarrow> 's \<Rightarrow> (docket_error + unit) \<times> 's"
  b_dequeue :: "int \<Rightarrow> bytes list \<Rightarrow> 's \<Rightarrow> (docket_error + 'v docket_task option) \<times> 's"
  b_ack :: "task_id \<Rightarrow> 'v \<Rightarrow> 's \<Rightarrow> (docket_error + unit) \<times> 's"
  b_nack :: "task_id \<Rightarrow> bytes \<Rightarrow> 's \<Rightarrow> (docket_error + unit) \<times> 's"
  b_get_task :: "task_id \<Rightarrow> 's \<Rightarrow> docket_error + 'v docket_task option"
  b_list_tasks :: "task_status option \<Rightarrow> nat \<Rightarrow> 's \<Rightarrow> docket_error + 'v docket_task list"
  b_cancel :: "task_id \<Rightarrow> bytes option \<Rightarrow> 's \<Rightarrow> (docket_error + unit) \<times> 's"
  b_stats :: "'s \<Rightarrow> docket_error + queue_stats"
  b_requeue_stale :: "int \<Rightarrow> 's \<Rightarrow> (docket_error + nat) \<times> 's"

section \<open>The in-memory backend\<close>

record 'v memory_backend =
  tasks :: "(task_id \<times> 'v docket_task) list"
  pending :: "task_id list"
  settings :: docket_settings

definition memory_new :: "docket_settings \<Rightarrow> 'v memory_backend" where
  "memory_new s = \<lparr>tasks = [], pending = [], settings = s\<rparr>"

definition insert_at :: "nat \<Rightarrow> 'a \<Rightarrow> 'a list \<Rightarrow> 'a list" where
  "insert_at pos x xs = take pos xs @ x # drop pos xs"

definition u32_inc :: "nat \<Rightarrow> nat" where
  "u32_inc n = (n + 1) mod 4294967296"

text \<open>
  \<open>enqueue\<close> runs under two separate critical sections: the task is recorded first and published in
  the queue second.
\<close>

definition enqueue_record :: "'v docket_task \<Rightarrow> 'v memory_backend \<Rightarrow> 'v memory_backend" where
  "enqueue_record t s = s\<lparr>tasks := AList.update (task_id t) t (tasks s)\<rparr>"

definition enqueue_publish :: "task_id \<Rightarrow> int \<Rightarrow> 'v memory_backend \<Rightarrow> 'v memory_backend" where
  "enqueue_publish i prio s =
     (let pos = (case position (\<lambda>j. case map_of (tasks s) j of None \<Rightarrow> True | Some t \<Rightarrow> priority t < prio)
                    (pending s) of
                   Some p \<Rightarrow> p | None \<Rightarrow> length (pending s))
      in s\<lparr>pending := insert_at pos i (pending s)\<rparr>)"

definition enqueue :: "'v docket_task \<Rightarrow> 'v memory_backend \<Rightarrow> (docket_error + unit) \<times> 'v memory_backend" where
  "enqueue t s = (Inr (), enqueue_publish (task_id t) (priority t) (enqueue_record t s))"

definition claimable :: "bytes list \<Rightarrow> 'v docket_task \<Rightarrow> bool" where
  "claimable types t \<longleftrightarrow> status t = Pending \<and> task_type t \<in> set types"

definition queue_match :: "bytes list \<Rightarrow> 'v memory_backend \<Rightarrow> task_id \<Rightarrow> bool" where
  "queue_match types s j =
     (case map_of (tasks s) j of None \<Rightarrow> False | Some t \<Rightarrow> claimable types t)"

definition dequeue ::
  "chrono \<Rightarrow> int \<Rightarrow> bytes list \<Rightarrow> 'v memory_backend
     \<Rightarrow> (docket_error + 'v docket_task option) \<times> 'v memory_backend" where
  "dequeue ch now types s =
     (case position (queue_match types s) (pending s) of
        None \<Rightarrow> (Inr None, s)
      | Some pos \<Rightarrow>
          let i = pending s ! pos;
              s = s\<lparr>pending := take pos (pending s) @ drop (Suc pos) (pending s)\<rparr>
          in case map_of (tasks s) i of
               None \<Rightarrow> (Inr None, s)
             | Some t \<Rightarrow>
                 let t = t\<lparr>status := Running, claimed_at := Some (to_rfc3339 ch now)\<rparr>
                 in (Inr (Some t), s\<lparr>tasks := AList.update i t (tasks s)\<rparr>))"

definition ack :: "task_id \<Rightarrow> 'v \<Rightarrow> 'v memory_backend \<Rightarrow> (docket_error + unit) \<times> 'v memory_backend" where
  "ack i result s =
     (case map_of (tasks s) i of
        None \<Rightarrow> (Inl (NotFound i), s)
      | Some t \<Rightarrow>
          (Inr (), s\<lparr>tasks := AList.update i (t\<lparr>status := Completed, task_result := Some result\<rparr>) (tasks s)\<rparr>))"

definition nack :: "task_id \<Rightarrow> bytes \<Rightarrow> 'v memory_backend \<Rightarrow> (docket_error + unit) \<times> 'v memory_backend" where
  "nack i err s =
     (case map_of (tasks s) i of
        None \<Rightarrow> (Inl (NotFound i), s)
      | Some t \<Rightarrow>
          let t = t\<lparr>retry_count := u32_inc (retry_count t), task_error := Some err\<rparr>
          in if retry_count t \<ge> max_retries t
             then (Inr (), s\<lparr>tasks := AList.update i (t\<lparr>status := Failed\<rparr>) (tasks s)\<rparr>)
             else (Inr (), s\<lparr>tasks := AList.update i (t\<lparr>status := Pending, claimed_at := None\<rparr>) (tasks s),
                             pending := pending s @ [i]\<rparr>))"

definition get_task :: "task_id \<Rightarrow> 'v memory_backend \<Rightarrow> docket_error + 'v docket_task option" where
  "get_task i s = Inr (map_of (tasks s) i)"

definition list_tasks ::
  "task_status option \<Rightarrow> nat \<Rightarrow> 'v memory_backend \<Rightarrow> docket_error + 'v docket_task list" where
  "list_tasks st limit s =
     Inr (take limit (filter (\<lambda>t. case st of None \<Rightarrow> True | Some x \<Rightarrow> status t = x) (map snd (tasks s))))"

fun status_debug :: "task_status \<Rightarrow> bytes" where
  "status_debug Pending = ''Pending''"
| "status_debug Running = ''Running''"
| "status_debug Completed = ''Completed''"
| "status_debug Failed = ''Failed''"
| "status_debug Cancelled = ''Cancelled''"

definition cancel ::
  "task_id \<Rightarrow> bytes option \<Rightarrow> 'v memory_backend \<Rightarrow> (docket_error + unit) \<times> 'v memory_backend" where
  "cancel i reason s =
     (case map_of (tasks s) i of
        None \<Rightarrow> (Inl (NotFound i), s)
      | Some t \<Rightarrow>
          if is_terminal (status t)
          then (Inl (Backend (''Cannot cancel task in terminal state: '' @ status_debug (status t))), s)
          else (Inr (), s\<lparr>tasks := AList.update i (t\<lparr>status := Cancelled, task_error := reason\<rparr>) (tasks s),
                          pending := filter (\<lambda>j. j \<noteq> i) (pending s)\<rparr>))"

fun count_status :: "queue_stats \<Rightarrow> task_status \<Rightarrow> queue_stats" where
  "count_status q Pending = q\<lparr>stats_pending := stats_pending q + 1\<rparr>"
| "count_status q Running = q\<lparr>stats_in_progress := stats_in_progress q + 1\<rparr>"
| "count_status q Completed = q\<lparr>stats_completed := stats_completed q + 1\<rparr>"
| "count_status q Failed = q\<lparr>stats_failed := stats_failed q + 1\<rparr>"
| "count_status q Cancelled = q\<lparr>stats_cancelled := stats_cancelled q + 1\<rparr>"

definition stats :: "'v memory_backend \<Rightarrow> docket_error + queue_stats" where
  "stats s = Inr (foldl count_status
     \<lparr>stats_pending = 0, stats_in_progress = 0, stats_completed = 0, stats_failed = 0, stats_cancelled = 0\<rparr>
     (map (status \<circ> snd) (tasks s)))"

definition is_stale :: "chrono \<Rightarrow> int \<Rightarrow> int \<Rightarrow> 'v docket_task \<Rightarrow> bool" where
  "is_stale ch now timeout t \<longleftrightarrow> status t = Running \<and>
     (case claimed_at t of
        None \<Rightarrow> False
      | Some c \<Rightarrow> (case parse_from_rfc3339 ch c of None \<Rightarrow> False | Some claimed \<Rightarrow> now - claimed > timeout))"

definition requeue_task :: "'v docket_task \<Rightarrow> 'v docket_task" where
  "requeue_task t =
     (let t = t\<lparr>status := Pending, claimed_at := None, retry_count := u32_inc (retry_count t)\<rparr>
      in if retry_count t \<ge> max_retries t
         then t\<lparr>status := Failed, task_error := Some ''Exceeded visibility timeout''\<rparr> else t)"

fun requeue_loop ::
  "chrono \<Rightarrow> int \<Rightarrow> int \<Rightarrow> (task_id \<times> 'v docket_task) list \<Rightarrow> task_id list \<Rightarrow> nat
     \<Rightarrow> (task_id \<times> 'v docket_task) list \<times> task_id list \<times> nat" where
  "requeue_loop ch now timeout [] pend requeued = ([], pend, requeued)"
| "requeue_loop ch now timeout ((k, t) # ts) pend requeued =
     (if is_stale ch now timeout t then
        let t' = requeue_task t;
            (pend, requeued) = (if status t' = Failed then (pend, requeued)
                                else (pend @ [task_id t'], requeued + 1));
            (ts', pend, requeued) = requeue_loop ch now timeout ts pend requeued
        in ((k, t') # ts', pend, requeued)
      else
        let (ts', pend, requeued) = requeue_loop ch now timeout ts pend requeued
        in ((k, t) # ts', pend, requeued))"

definition requeue_stale :: "chrono \<Rightarrow> int \<Rightarrow> 'v memory_backend \<Rightarrow> (docket_error + nat) \<times> 'v memory_backend" where
  "requeue_stale ch now s =
     (let timeout = (case from_std ch (visibility_timeout (settings s)) of Some d \<Rightarrow> d | None \<Rightarrow> int (secs 30));
          (ts, pend, requeued) = requeue_loop ch now timeout (tasks s) (pending s) 0
      in (Inr requeued, s\<lparr>tasks := ts, pending := pend\<rparr>))"

definition memory_backend_ops :: "chrono \<Rightarrow> ('v memory_backend, 'v) docket_backend" where
  "memory_backend_ops ch = \<lparr>b_enqueue = enqueue, b_dequeue = dequeue ch, b_ack = ack, b_nack = nack,
     b_get_task = get_task, b_list_tasks = list_tasks, b_cancel = cancel, b_stats = stats,
     b_requeue_stale = requeue_stale ch\<rparr>"

section \<open>The client\<close>

record 's docket =
  dk_backend :: 's
  dk_settings :: docket_settings
  task_counter :: nat

definition docket_new :: "docket_settings \<Rightarrow> docket_error + 'v memory_backend docket" where
  "docket_new st =
     (case backend_type st of
        Memory \<Rightarrow> Inr \<lparr>dk_backend = memory_new st, dk_settings = st, task_counter = 0\<rparr>
      | Redis r \<Rightarrow> Inl (Backend ''Redis backend requires 'redis' feature''))"

definition hex_digit :: "nat \<Rightarrow> byte" where
  "hex_digit d = (if d < 10 then char_of (48 + d) else char_of (87 + d))"

fun show_hex :: "nat \<Rightarrow> bytes" where
  "show_hex n = (if n < 16 then [hex_digit n] else show_hex (n div 16) @ [hex_digit (n mod 16)])"

declare show_hex.simps [simp del]

definition format_task_id :: "nat \<Rightarrow> task_id" where
  "format_task_id counter =
     ''docket-'' @ replicate (8 - length (show_hex counter)) (CHR ''0'') @ show_hex counter"

definition submit_with_options ::
  "('s, 'v) docket_backend \<Rightarrow> chrono \<Rightarrow> int \<Rightarrow> bytes \<Rightarrow> 'v \<Rightarrow> submit_options \<Rightarrow> 's docket
     \<Rightarrow> (docket_error + task_id) \<times> 's docket" where
  "submit_with_options be ch now ty ps opts d =
     (let counter = task_counter d;
          i = format_task_id counter;
          retries = (case opt_max_retries opts of Some r \<Rightarrow> r | None \<Rightarrow> default_max_retries (dk_settings d));
          t = task_new ch now i ty ps (opt_priority opts) retries;
          d = d\<lparr>task_counter := (counter + 1) mod (u64_max + 1)\<rparr>
      in case b_enqueue be t (dk_backend d) of
           (Inl e, b) \<Rightarrow> (Inl e, d\<lparr>dk_backend := b\<rparr>)
         | (Inr _, b) \<Rightarrow> (Inr i, d\<lparr>dk_backend := b\<rparr>))"

definition submit ::
  "('s, 'v) docket_backend \<Rightarrow> chrono \<Rightarrow> int \<Rightarrow> bytes \<Rightarrow> 'v \<Rightarrow> 's docket
     \<Rightarrow> (docket_error + task_id) \<times> 's docket" where
  "submit be ch now ty ps d = submit_with_options be ch now ty ps submit_options_new d"

definition docket_get_task :: "('s, 'v) docket_backend \<Rightarrow> task_id \<Rightarrow> 's docket \<Rightarrow> docket_error + 'v docket_task option" where
  "docket_get_task be i d = b_get_task be i (dk_backend d)"

definition docket_list_tasks ::
  "('s, 'v) docket_backend \<Rightarrow> task_status option \<Rightarrow> nat \<Rightarrow> 's docket \<Rightarrow> docket_error + 'v docket_task list" where
  "docket_list_tasks be st limit d = b_list_tasks be st limit (dk_backend d)"

definition docket_cancel ::
  "('s, 'v) docket_backend \<Rightarrow> task_id \<Rightarrow> bytes option \<Rightarrow> 's docket \<Rightarrow> (docket_error + unit) \<times> 's docket" where
  "docket_cancel be i reason d =
     (let (r, b) = b_cancel be i reason (dk_backend d) in (r, d\<lparr>dk_backend := b\<rparr>))"

definition docket_stats :: "('s, 'v) docket_backend \<Rightarrow> 's docket \<Rightarrow> docket_error + queue_stats" where
  "docket_stats be d = b_stats be (dk_backend d)"

section \<open>The worker\<close>

text \<open>
  A handler is a future: while the worker awaits it, other threads may use the backend, so a handler
  returns its result and the backend state at that moment.
\<close>

type_synonym ('s, 'v) handler = "'v docket_task \<Rightarrow> 's \<Rightarrow> (docket_error + 'v) \<times> 's"

type_synonym ('s, 'v) handlers = "(bytes \<times> ('s, 'v) handler) list"

definition subscribe :: "bytes \<Rightarrow> ('s, 'v) handler \<Rightarrow> ('s, 'v) handlers \<Rightarrow> ('s, 'v) handlers" where
  "subscribe ty h hs = AList.update ty h hs"

definition subscribed_types :: "('s, 'v) handlers \<Rightarrow> bytes list" where
  "subscribed_types hs = map fst hs"

definition process_one ::
  "('s, 'v) docket_backend \<Rightarrow> ('s, 'v) handlers \<Rightarrow> bool \<Rightarrow> int \<Rightarrow> 's \<Rightarrow> (docket_error + bool) \<times> 's" where
  "process_one be hs cancel_requested now s =
     (if cancel_requested then (Inl OperationCancelled, s)
      else case b_dequeue be now (subscribed_types hs) s of
        (Inl e, s) \<Rightarrow> (Inl e, s)
      | (Inr None, s) \<Rightarrow> (Inr False, s)
      | (Inr (Some t), s) \<Rightarrow>
          (case map_of hs (task_type t) of
             None \<Rightarrow>
               (case b_nack be (task_id t) ''No handler for task type'' s of
                  (Inl e, s) \<Rightarrow> (Inl e, s) | (Inr _, s) \<Rightarrow> (Inr True, s))
           | Some h \<Rightarrow>
               (case h t s of
                  (Inr d, s) \<Rightarrow>
                    (case b_ack be (task_id t) d s of
                       (Inl e, s) \<Rightarrow> (Inl e, s) | (Inr _, s) \<Rightarrow> (Inr True, s))
                | (Inl e, s) \<Rightarrow>
                    (case b_nack be (task_id t) (error_display e) s of
                       (Inl e, s) \<Rightarrow> (Inl e, s) | (Inr _, s) \<Rightarrow> (Inr True, s)))))"

text \<open>
  One iteration of \<open>run\<close> observes the running flag, the cancellation token at the loop head and in
  \<open>process_one\<close>, the time, and what other threads did to the backend before it.
\<close>

record 's worker_env =
  env_before :: "'s \<Rightarrow> 's"
  env_running :: bool
  env_cancel_head :: bool
  env_cancel_task :: bool
  env_now :: int

text \<open>\<open>False\<close>: the observations ran out with the loop still going; \<open>True\<close>: the loop returned.\<close>

fun worker_run ::
  "('s, 'v) docket_backend \<Rightarrow> ('s, 'v) handlers \<Rightarrow> 's worker_env list \<Rightarrow> 's \<Rightarrow> bool \<times> 's" where
  "worker_run be hs [] s = (False, s)"
| "worker_run be hs (e # es) s =
     (let s = env_before e s in
      if \<not> env_running e \<or> env_cancel_head e then (True, s)
      else let s = snd (b_requeue_stale be (env_now e) s)
        in case process_one be hs (env_cancel_task e) (env_now e) s of
             (Inr processed, s) \<Rightarrow> worker_run be hs es s
           | (Inl OperationCancelled, s) \<Rightarrow> (True, s)
           | (Inl err, s) \<Rightarrow> worker_run be hs es s)"

section \<open>Invariant of the in-memory backend\<close>

text \<open>An active task has not used up its attempts; retry limits are \<open>u32\<close> values.\<close>

definition task_ok :: "'v docket_task \<Rightarrow> bool" where
  "task_ok t \<longleftrightarrow> max_retries t < 4294967296 \<and>
     (status t = Pending \<or> status t = Running \<longrightarrow> retry_count t < max 1 (max_retries t))"

definition memory_wf :: "'v memory_backend \<Rightarrow> bool" where
  "memory_wf s \<longleftrightarrow> distinct (map fst (tasks s)) \<and>
     (\<forall>i t. map_of (tasks s) i = Some t \<longrightarrow> task_id t = i \<and> (status t = Pending \<longrightarrow> i \<in> set (pending s)) \<and>
        task_ok t) \<and>
     set (pending s) \<subseteq> fst ` set (tasks s)"

abbreviation view :: "'v memory_backend \<Rightarrow> task_id \<rightharpoonup> 'v docket_task" where
  "view s \<equiv> map_of (tasks s)"

lemma memory_wf_new [wf_intros]: "memory_wf (memory_new st)"
  by (simp add: memory_wf_def memory_new_def)

text \<open>Replacing one task and the queue keeps the invariant when the new task and queue agree.\<close>

lemma memory_wf_update:
  assumes "memory_wf s" and "task_id t = i" and "status t = Pending \<longrightarrow> i \<in> set q"
    and "task_ok t" and "set (pending s) - {i} \<subseteq> set q" and "set q \<subseteq> insert i (set (pending s))"
  shows "memory_wf (s\<lparr>tasks := AList.update i t (tasks s), pending := q\<rparr>)"
proof -
  have "fst ` set (AList.update i t (tasks s)) = insert i (fst ` set (tasks s))"
    by (metis dom_map_of_conv_image_fst dom_fun_upd option.distinct(1) update_conv')
  with assms show ?thesis
    by (auto simp: memory_wf_def update_conv' distinct_update)
qed

lemma in_insert_at: "set (insert_at p x xs) = insert x (set xs)"
  by (simp add: insert_at_def) (metis Un_insert_right append_take_drop_id set_append)

lemma enqueue_wf [wf_intros]:
  assumes "memory_wf s" and "task_ok t"
  shows "memory_wf (snd (enqueue t s))"
proof -
  obtain q where q: "snd (enqueue t s) = s\<lparr>tasks := AList.update (task_id t) t (tasks s), pending := q\<rparr>"
    "set q = insert (task_id t) (set (pending s))"
    by (auto simp: enqueue_def enqueue_publish_def enqueue_record_def Let_def in_insert_at)
  with assms show ?thesis by (auto intro!: memory_wf_update)
qed

definition claimed :: "chrono \<Rightarrow> int \<Rightarrow> 'v docket_task \<Rightarrow> 'v docket_task" where
  "claimed ch now t = t\<lparr>status := Running, claimed_at := Some (to_rfc3339 ch now)\<rparr>"

lemma queue_match_iff: "queue_match types s j \<longleftrightarrow> (\<exists>t. view s j = Some t \<and> claimable types t)"
  by (auto simp: queue_match_def split: option.splits)

lemma no_match_iff:
  assumes "memory_wf s"
  shows "position (queue_match types s) (pending s) = None \<longleftrightarrow>
    (\<forall>i t. view s i = Some t \<longrightarrow> \<not> claimable types t)"
proof -
  have "i \<in> set (pending s)" if "view s i = Some t" "claimable types t" for i t
    using assms that unfolding memory_wf_def claimable_def by blast
  then show ?thesis by (auto simp: position_None_iff queue_match_iff)
qed

lemma dequeue_claims:
  assumes "memory_wf s" and "\<exists>i t. view s i = Some t \<and> claimable types t"
  obtains t p where "dequeue ch now types s = (Inr (Some (claimed ch now t)),
      s\<lparr>tasks := AList.update (task_id t) (claimed ch now t) (tasks s),
        pending := take p (pending s) @ drop (Suc p) (pending s)\<rparr>)"
    "p < length (pending s)" "pending s ! p = task_id t" "view s (task_id t) = Some t" "claimable types t"
    "\<forall>j < p. \<not> queue_match types s (pending s ! j)"
proof -
  obtain p where p: "position (queue_match types s) (pending s) = Some p"
    using assms no_match_iff [OF assms(1), of types] by (cases "position (queue_match types s) (pending s)") auto
  then have pos: "p < length (pending s)" "queue_match types s (pending s ! p)"
    "\<forall>j < p. \<not> queue_match types s (pending s ! j)"
    by (auto simp: position_Some_iff)
  from pos(2) obtain t where t: "view s (pending s ! p) = Some t" "claimable types t"
    unfolding queue_match_iff by blast
  then have "task_id t = pending s ! p" using assms(1) unfolding memory_wf_def by blast
  then show thesis
    using p pos t by (intro that [of t p]) (simp_all add: dequeue_def Let_def claimed_def)
qed

lemma dequeue_empty:
  assumes "memory_wf s" and "\<forall>i t. view s i = Some t \<longrightarrow> \<not> claimable types t"
  shows "dequeue ch now types s = (Inr None, s)"
  using no_match_iff [OF assms(1), of types] assms(2) by (simp add: dequeue_def)

lemma take_drop_Suc_set: "p < length xs \<Longrightarrow> set (take p xs @ drop (Suc p) xs) \<union> {xs ! p} = set xs"
  by (metis Un_insert_right append_Nil2 id_take_nth_drop list.set(2) set_append sup_bot_right)

lemma dequeue_wf [wf_intros]:
  assumes wf: "memory_wf s"
  shows "memory_wf (snd (dequeue ch now types s))"
proof (cases "\<exists>i t. view s i = Some t \<and> claimable types t")
  case True
  show ?thesis
  proof (rule dequeue_claims [OF wf True, of ch now])
    fix t p
    assume d: "dequeue ch now types s = (Inr (Some (claimed ch now t)),
        s\<lparr>tasks := AList.update (task_id t) (claimed ch now t) (tasks s),
          pending := take p (pending s) @ drop (Suc p) (pending s)\<rparr>)"
      and p: "p < length (pending s)" "pending s ! p = task_id t" and t: "view s (task_id t) = Some t"
      "claimable types t"
    have q: "set (take p (pending s) @ drop (Suc p) (pending s)) \<union> {task_id t} = set (pending s)"
      using take_drop_Suc_set [OF p(1)] p(2) by simp
    have "task_ok t" using wf t unfolding memory_wf_def by blast
    then have "task_ok (claimed ch now t)" using t by (simp add: task_ok_def claimed_def claimable_def)
    with wf q show ?thesis
      unfolding d snd_conv by (intro memory_wf_update) (auto simp: claimed_def)
  qed
next
  case False
  then have "dequeue ch now types s = (Inr None, s)" using dequeue_empty [OF wf] by blast
  with wf show ?thesis by simp
qed

lemma memory_wf_update_task:
  assumes "memory_wf s" and "task_id t = i" and "status t \<noteq> Pending" and "task_ok t" and "view s i \<noteq> None"
  shows "memory_wf (s\<lparr>tasks := AList.update i t (tasks s)\<rparr>)"
proof -
  have "s\<lparr>tasks := AList.update i t (tasks s)\<rparr> = s\<lparr>tasks := AList.update i t (tasks s), pending := pending s\<rparr>"
    by simp
  with memory_wf_update [OF assms(1,2), of "pending s"] assms show ?thesis by auto
qed

lemma view_task_id: "memory_wf s \<Longrightarrow> view s i = Some t \<Longrightarrow> task_id t = i"
  by (simp add: memory_wf_def)

lemma view_task_ok: "memory_wf s \<Longrightarrow> view s i = Some t \<Longrightarrow> task_ok t"
  by (simp add: memory_wf_def)

definition acked :: "'v \<Rightarrow> 'v docket_task \<Rightarrow> 'v docket_task" where
  "acked v t = t\<lparr>status := Completed, task_result := Some v\<rparr>"

definition nacked :: "bytes \<Rightarrow> 'v docket_task \<Rightarrow> 'v docket_task" where
  "nacked e t =
     (let t = t\<lparr>retry_count := u32_inc (retry_count t), task_error := Some e\<rparr>
      in if retry_count t \<ge> max_retries t then t\<lparr>status := Failed\<rparr>
         else t\<lparr>status := Pending, claimed_at := None\<rparr>)"

lemma acked_simps [simp]: "task_id (acked v t) = task_id t" "status (acked v t) = Completed"
  "task_ok t \<Longrightarrow> task_ok (acked v t)"
  by (simp_all add: acked_def task_ok_def)

lemma nacked_simps [simp]: "task_id (nacked e t) = task_id t" "task_ok t \<Longrightarrow> task_ok (nacked e t)"
  by (auto simp: nacked_def task_ok_def Let_def)

lemma ack_eq: "view s i = Some t \<Longrightarrow> ack i v s = (Inr (), s\<lparr>tasks := AList.update i (acked v t) (tasks s)\<rparr>)"
  by (simp add: ack_def acked_def)

lemma nack_eq:
  "view s i = Some t \<Longrightarrow>
   nack i e s = (Inr (), s\<lparr>tasks := AList.update i (nacked e t) (tasks s),
     pending := (if status (nacked e t) = Pending then pending s @ [i] else pending s)\<rparr>)"
  by (simp add: nack_def nacked_def Let_def)

lemma ack_wf [wf_intros]: "memory_wf s \<Longrightarrow> memory_wf (snd (ack i v s))"
  by (cases "view s i")
    (simp add: ack_def, simp add: ack_eq view_task_id view_task_ok memory_wf_update_task del: map_of_eq_Some_iff)

lemma nack_wf [wf_intros]:
  assumes "memory_wf s"
  shows "memory_wf (snd (nack i e s))"
proof (cases "view s i")
  case (Some t)
  then show ?thesis
    unfolding nack_eq [OF Some] snd_conv using assms view_task_id [OF assms Some] view_task_ok [OF assms Some]
    by (intro memory_wf_update) auto
qed (simp add: nack_def assms)

lemma cancel_wf [wf_intros]:
  assumes "memory_wf s"
  shows "memory_wf (snd (cancel i r s))"
proof (cases "view s i")
  case (Some t)
  then show ?thesis
    unfolding cancel_def using assms view_task_id [OF assms Some] view_task_ok [OF assms Some]
    by (auto intro!: memory_wf_update simp: task_ok_def)
qed (simp add: cancel_def assms)

lemma requeue_task_simps [simp]:
  "task_id (requeue_task t) = task_id t" "max_retries (requeue_task t) = max_retries t"
  "priority (requeue_task t) = priority t" "retry_count (requeue_task t) = u32_inc (retry_count t)"
  "status (requeue_task t) = (if u32_inc (retry_count t) \<ge> max_retries t then Failed else Pending)"
  by (simp_all add: requeue_task_def Let_def)

lemma requeue_loop_eq:
  "requeue_loop ch now to ts q n =
     (map (\<lambda>(k, t). (k, if is_stale ch now to t then requeue_task t else t)) ts,
      q @ map (\<lambda>(k, t). task_id t) (filter (\<lambda>(k, t). is_stale ch now to t \<and> status (requeue_task t) = Pending) ts),
      n + length (filter (\<lambda>(k, t). is_stale ch now to t \<and> status (requeue_task t) = Pending) ts))"
  by (induction ch now to ts q n rule: requeue_loop.induct) (auto simp: Let_def)

lemma map_of_map_values:
  "map_of (map (\<lambda>(k, t). (k, f t)) ts) i = map_option f (map_of ts i)"
  by (induction ts) auto

definition requeued :: "chrono \<Rightarrow> int \<Rightarrow> 'v memory_backend \<Rightarrow> 'v docket_task \<Rightarrow> 'v docket_task" where
  "requeued ch now s t =
     (if is_stale ch now (case from_std ch (visibility_timeout (settings s)) of
         Some d \<Rightarrow> d | None \<Rightarrow> int (secs 30)) t then requeue_task t else t)"

lemma requeue_stale_view:
  "view (snd (requeue_stale ch now s)) i = map_option (requeued ch now s) (view s i)"
  by (simp add: requeue_stale_def requeue_loop_eq Let_def map_of_map_values requeued_def [abs_def])

lemma requeue_stale_wf [wf_intros]:
  assumes "memory_wf s"
  shows "memory_wf (snd (requeue_stale ch now s))"
proof -
  let ?s = "snd (requeue_stale ch now s)"
  define to where "to = (case from_std ch (visibility_timeout (settings s)) of
      Some d \<Rightarrow> d | None \<Rightarrow> int (secs 30))"
  have q: "pending ?s = pending s @ map (\<lambda>(k, t). task_id t)
      (filter (\<lambda>(k, t). is_stale ch now to t \<and> status (requeue_task t) = Pending) (tasks s))"
    by (simp add: requeue_stale_def requeue_loop_eq Let_def to_def)
  have keys: "map fst (tasks ?s) = map fst (tasks s)"
    by (simp add: requeue_stale_def requeue_loop_eq Let_def comp_def case_prod_beta')
  have ids: "task_id t = i" if "(i, t) \<in> set (tasks s)" for i t
    using assms that by (simp add: memory_wf_def)
  have "task_id (requeued ch now s t) = i \<and>
      (status (requeued ch now s t) = Pending \<longrightarrow> i \<in> set (pending ?s)) \<and>
      task_ok (requeued ch now s t)"
    if t: "view s i = Some t" for i t
  proof -
    have old: "task_id t = i" "status t = Pending \<longrightarrow> i \<in> set (pending s)"
      "task_ok t"
      using assms t unfolding memory_wf_def by blast+
    have "i \<in> set (pending ?s)" if "is_stale ch now to t" "status (requeue_task t) = Pending"
      unfolding q using that map_of_SomeD [OF t] old(1) by force
    with old show ?thesis by (auto simp: requeued_def to_def q task_ok_def)
  qed
  moreover have "fst ` set (tasks ?s) = fst ` set (tasks s)" using keys by (metis set_map)
  moreover have "set (pending ?s) \<subseteq> fst ` set (tasks s)"
  proof
    fix x assume "x \<in> set (pending ?s)"
    then consider "x \<in> set (pending s)" | k t where "(k, t) \<in> set (tasks s)" "x = task_id t"
      unfolding q by auto
    then show "x \<in> fst ` set (tasks s)"
    proof cases
      case 1
      then show ?thesis using assms unfolding memory_wf_def by blast
    next
      case 2
      with ids show ?thesis by (metis fst_conv imageI)
    qed
  qed
  ultimately show ?thesis
    using assms keys unfolding memory_wf_def requeue_stale_view
    by (intro conjI allI impI) (simp_all del: map_of_eq_Some_iff, blast+)
qed

section \<open>The contract of a backend and its clients\<close>

text \<open>
  What \<open>Docket\<close> and \<open>Worker\<close> rely on, in terms of the map \<open>look\<close> from identifiers to tasks:
  a dequeue hands out a pending task of a subscribed type and marks it, or there is none; the other
  operations change one task.  \<open>mark\<close> is what the backend does to a task it hands out.
\<close>

text \<open>A handler, with what other threads do while it runs, keeps the invariant and removes no task.\<close>

definition handlers_ok :: "('s \<Rightarrow> bool) \<Rightarrow> ('s \<Rightarrow> task_id \<rightharpoonup> 'v docket_task) \<Rightarrow> ('s, 'v) handlers \<Rightarrow> bool" where
  "handlers_ok I look hs \<longleftrightarrow> (\<forall>h \<in> snd ` set hs. \<forall>t s. I s \<longrightarrow>
     I (snd (h t s)) \<and> dom (look s) \<subseteq> dom (look (snd (h t s))))"

text \<open>Handlers that run without interference, and what they make of a claimed task.\<close>

definition quiet_handlers :: "(bytes \<times> ('v docket_task \<Rightarrow> docket_error + 'v)) list \<Rightarrow> ('s, 'v) handlers" where
  "quiet_handlers fs = map (\<lambda>(ty, f). (ty, \<lambda>t s. (f t, s))) fs"

definition outcome :: "(bytes \<times> ('v docket_task \<Rightarrow> docket_error + 'v)) list \<Rightarrow> 'v docket_task \<Rightarrow> 'v docket_task" where
  "outcome fs t =
     (case map_of fs (task_type t) of
        None \<Rightarrow> nacked ''No handler for task type'' t
      | Some f \<Rightarrow> (case f t of Inr v \<Rightarrow> acked v t | Inl e \<Rightarrow> nacked (error_display e) t))"

fun process_many ::
  "('s, 'v) docket_backend \<Rightarrow> ('s, 'v) handlers \<Rightarrow> int \<Rightarrow> nat \<Rightarrow> 's \<Rightarrow> 's" where
  "process_many be hs now 0 s = s"
| "process_many be hs now (Suc n) s = process_many be hs now n (snd (process_one be hs False now s))"

definition attempts_left :: "bytes list \<Rightarrow> 'v docket_task \<Rightarrow> nat" where
  "attempts_left types t = (if claimable types t then max 1 (max_retries t) - retry_count t else 0)"

definition budget :: "bytes list \<Rightarrow> (task_id \<rightharpoonup> 'v docket_task) \<Rightarrow> nat" where
  "budget types m = (\<Sum>i \<in> dom m. attempts_left types (the (m i)))"

lemma budget_update:
  assumes "finite (dom m)" and "m i = Some t"
  shows "budget types (m(i \<mapsto> u)) + attempts_left types t = budget types m + attempts_left types u"
proof -
  have "i \<in> dom m" using assms(2) by auto
  then have "budget types m = attempts_left types t + (\<Sum>j \<in> dom m - {i}. attempts_left types (the (m j)))"
    "budget types (m(i \<mapsto> u)) = attempts_left types u + (\<Sum>j \<in> dom m - {i}. attempts_left types (the (m j)))"
    using assms by (simp_all add: budget_def sum.remove insert_absorb)
  then show ?thesis by simp
qed

lemma attempts_left_pos: "task_ok t \<Longrightarrow> claimable types t \<Longrightarrow> 0 < attempts_left types t"
  by (auto simp: attempts_left_def task_ok_def claimable_def)

lemma attempts_left_outcome:
  assumes "task_ok t" and "claimable types t" and "retry_count u = retry_count t" and "max_retries u = max_retries t"
  shows "attempts_left types (outcome fs u) < attempts_left types t"
proof -
  have pos: "0 < attempts_left types t" using assms(1,2) by (rule attempts_left_pos)
  have "attempts_left types (acked v u) = 0" for v by (simp add: attempts_left_def claimable_def)
  moreover have "attempts_left types (nacked e u) < attempts_left types t" for e
    using assms pos by (auto simp: attempts_left_def nacked_def task_ok_def claimable_def u32_inc_def Let_def)
  ultimately show ?thesis using pos by (auto simp: outcome_def split: option.splits sum.splits)
qed

locale docket_contract =
  fixes be :: "('s, 'v) docket_backend"
    and inv :: "'s \<Rightarrow> bool"
    and look :: "'s \<Rightarrow> task_id \<rightharpoonup> 'v docket_task"
    and mark :: "int \<Rightarrow> 'v docket_task \<Rightarrow> 'v docket_task"
  assumes look_law: "inv s \<Longrightarrow> finite (dom (look s)) \<and>
      (\<forall>i t. look s i = Some t \<longrightarrow> task_id t = i \<and> task_ok t)"
    and mark_law: "task_id (mark now t) = task_id t" "task_type (mark now t) = task_type t"
      "retry_count (mark now t) = retry_count t" "max_retries (mark now t) = max_retries t"
    and enqueue_law: "inv s \<Longrightarrow> task_ok t \<Longrightarrow>
      \<exists>s'. b_enqueue be t s = (Inr (), s') \<and> inv s' \<and> look s' = (look s)(task_id t \<mapsto> t)"
    and dequeue_some_law: "inv s \<Longrightarrow> \<exists>i t. look s i = Some t \<and> claimable types t \<Longrightarrow>
      \<exists>t s'. b_dequeue be now types s = (Inr (Some (mark now t)), s') \<and> look s (task_id t) = Some t \<and>
        claimable types t \<and> inv s' \<and> look s' = (look s)(task_id t \<mapsto> mark now t)"
    and dequeue_none_law: "inv s \<Longrightarrow> \<forall>i t. look s i = Some t \<longrightarrow> \<not> claimable types t \<Longrightarrow>
      b_dequeue be now types s = (Inr None, s)"
    and ack_law: "inv s \<Longrightarrow> look s i = Some t \<Longrightarrow>
      \<exists>s'. b_ack be i v s = (Inr (), s') \<and> inv s' \<and> look s' = (look s)(i \<mapsto> acked v t)"
    and nack_law: "inv s \<Longrightarrow> look s i = Some t \<Longrightarrow>
      \<exists>s'. b_nack be i e s = (Inr (), s') \<and> inv s' \<and> look s' = (look s)(i \<mapsto> nacked e t)"
    and get_law: "b_get_task be i s = Inr (look s i)"
    and requeue_law: "inv s \<Longrightarrow> inv (snd (b_requeue_stale be now s)) \<and>
      dom (look (snd (b_requeue_stale be now s))) = dom (look s)"
begin

lemma submit_spec:
  assumes "inv (dk_backend d)" and "task_counter d < u64_max"
    and "default_max_retries (dk_settings d) < 4294967296" and "\<forall>r. opt_max_retries opts = Some r \<longrightarrow> r < 4294967296"
  shows "\<exists>d'. submit_with_options be ch now ty ps opts d = (Inr (format_task_id (task_counter d)), d') \<and>
    inv (dk_backend d') \<and> task_counter d' = Suc (task_counter d) \<and> dk_settings d' = dk_settings d \<and>
    look (dk_backend d') = (look (dk_backend d))(format_task_id (task_counter d) \<mapsto>
      task_new ch now (format_task_id (task_counter d)) ty ps (opt_priority opts)
        (case opt_max_retries opts of Some r \<Rightarrow> r | None \<Rightarrow> default_max_retries (dk_settings d)))"
proof -
  define t where "t = task_new ch now (format_task_id (task_counter d)) ty ps (opt_priority opts)
        (case opt_max_retries opts of Some r \<Rightarrow> r | None \<Rightarrow> default_max_retries (dk_settings d))"
  have "task_ok t" "task_id t = format_task_id (task_counter d)"
    using assms(3,4) by (auto simp: t_def task_ok_def task_new_def split: option.splits)
  then obtain b where b: "b_enqueue be t (dk_backend d) = (Inr (), b)" "inv b"
    "look b = (look (dk_backend d))(format_task_id (task_counter d) \<mapsto> t)"
    using enqueue_law [OF assms(1), of t] by auto
  show ?thesis
    using assms(2) b unfolding submit_with_options_def Let_def t_def [symmetric] by simp
qed

lemma process_one_total:
  assumes "inv s" and "handlers_ok inv look hs"
  shows "\<exists>s'. process_one be hs False now s =
      (Inr (\<exists>i t. look s i = Some t \<and> claimable (subscribed_types hs) t), s') \<and>
    inv s' \<and> dom (look s) \<subseteq> dom (look s')"
proof (cases "\<exists>i t. look s i = Some t \<and> claimable (subscribed_types hs) t")
  case True
  then obtain t s1 where d: "b_dequeue be now (subscribed_types hs) s = (Inr (Some (mark now t)), s1)"
    "look s (task_id t) = Some t" "claimable (subscribed_types hs) t" "inv s1"
    "look s1 = (look s)(task_id t \<mapsto> mark now t)"
    using dequeue_some_law [OF assms(1) True] by blast
  have "task_type t \<in> set (map fst hs)" using d(3) by (simp add: claimable_def subscribed_types_def)
  then obtain h where h: "map_of hs (task_type t) = Some h" by (auto simp: map_of_eq_None_iff dest!: weak_map_of_SomeI)
  then have "h \<in> snd ` set hs" by (metis imageI map_of_SomeD snd_conv)
  obtain r s2 where r: "h (mark now t) s1 = (r, s2)" by force
  then have s2: "inv s2" "dom (look s1) \<subseteq> dom (look s2)"
    using assms(2) \<open>h \<in> snd ` set hs\<close> d(4) unfolding handlers_ok_def by (metis snd_conv)+
  have "task_id t \<in> dom (look s2)" using s2(2) d(5) by auto
  then obtain u where u: "look s2 (task_id t) = Some u" by auto
  show ?thesis
  proof (cases r)
    case (Inr v)
    obtain s3 where "b_ack be (task_id t) v s2 = (Inr (), s3)" "inv s3"
      "look s3 = (look s2)(task_id t \<mapsto> acked v u)"
      using ack_law [OF s2(1) u] by blast
    then show ?thesis using d h r Inr True s2(2) by (auto simp: process_one_def mark_law)
  next
    case (Inl e)
    obtain s3 where "b_nack be (task_id t) (error_display e) s2 = (Inr (), s3)" "inv s3"
      "look s3 = (look s2)(task_id t \<mapsto> nacked (error_display e) u)"
      using nack_law [OF s2(1) u] by blast
    then show ?thesis using d h r Inl True s2(2) by (auto simp: process_one_def mark_law)
  qed
next
  case False
  then show ?thesis using dequeue_none_law [OF assms(1)] assms(1) by (auto simp: process_one_def)
qed

lemma process_one_quiet:
  assumes "inv s" and "\<exists>i t. look s i = Some t \<and> claimable (map fst fs) t"
  shows "\<exists>t s'. look s (task_id t) = Some t \<and> claimable (map fst fs) t \<and>
    process_one be (quiet_handlers fs) False now s = (Inr True, s') \<and> inv s' \<and>
    look s' = (look s)(task_id t \<mapsto> outcome fs (mark now t))"
proof -
  have types: "subscribed_types (quiet_handlers fs) = map fst fs"
    by (simp add: subscribed_types_def quiet_handlers_def comp_def case_prod_beta')
  have hs: "map_of (quiet_handlers fs) ty = map_option (\<lambda>f t s. (f t, s)) (map_of fs ty)" for ty
    by (simp add: quiet_handlers_def map_of_map_values)
  obtain t s1 where d: "b_dequeue be now (map fst fs) s = (Inr (Some (mark now t)), s1)"
    "look s (task_id t) = Some t" "claimable (map fst fs) t" "inv s1"
    "look s1 = (look s)(task_id t \<mapsto> mark now t)"
    using dequeue_some_law [OF assms] by blast
  then have l: "look s1 (task_id t) = Some (mark now t)" by simp
  obtain f where f: "map_of fs (task_type t) = Some f"
    using d(3) by (auto simp: claimable_def map_of_eq_None_iff dest!: weak_map_of_SomeI)
  show ?thesis
  proof (cases "f (mark now t)")
    case (Inr v)
    obtain s2 where "b_ack be (task_id t) v s1 = (Inr (), s2)" "inv s2"
      "look s2 = (look s1)(task_id t \<mapsto> acked v (mark now t))"
      using ack_law [OF d(4) l] by blast
    then show ?thesis using d f Inr by (intro exI [of _ t]) (auto simp: process_one_def types hs mark_law outcome_def)
  next
    case (Inl e)
    obtain s2 where "b_nack be (task_id t) (error_display e) s1 = (Inr (), s2)" "inv s2"
      "look s2 = (look s1)(task_id t \<mapsto> nacked (error_display e) (mark now t))"
      using nack_law [OF d(4) l] by blast
    then show ?thesis using d f Inl by (intro exI [of _ t]) (auto simp: process_one_def types hs mark_law outcome_def)
  qed
qed

lemma process_many_drains:
  "inv s \<Longrightarrow> budget (map fst fs) (look s) \<le> n \<Longrightarrow>
   inv (process_many be (quiet_handlers fs) now n s) \<and>
   (\<forall>i t. look (process_many be (quiet_handlers fs) now n s) i = Some t \<longrightarrow> \<not> claimable (map fst fs) t)"
proof (induction n arbitrary: s)
  case 0
  have "attempts_left (map fst fs) t = 0" if "look s i = Some t" for i t
    using 0 domI [of "look s" i t] that look_law [OF 0(1)] by (force simp: budget_def)
  moreover have "0 < attempts_left (map fst fs) t" if "look s i = Some t" "claimable (map fst fs) t" for i t
    using that look_law [OF 0(1)] attempts_left_pos by blast
  ultimately show ?case using 0(1) by fastforce
next
  case (Suc n)
  have types: "subscribed_types (quiet_handlers fs) = map fst fs"
    by (simp add: subscribed_types_def quiet_handlers_def comp_def case_prod_beta')
  show ?case
  proof (cases "\<exists>i t. look s i = Some t \<and> claimable (map fst fs) t")
    case True
    obtain t s' where t: "look s (task_id t) = Some t" "claimable (map fst fs) t"
      "process_one be (quiet_handlers fs) False now s = (Inr True, s')" "inv s'"
      "look s' = (look s)(task_id t \<mapsto> outcome fs (mark now t))"
      using process_one_quiet [OF Suc.prems(1) True] by blast
    have "task_ok t" "finite (dom (look s))" using look_law [OF Suc.prems(1)] t(1) by blast+
    then have "attempts_left (map fst fs) (outcome fs (mark now t)) < attempts_left (map fst fs) t"
      using attempts_left_outcome [OF _ t(2)] mark_law by blast
    moreover have "budget (map fst fs) (look s') + attempts_left (map fst fs) t =
        budget (map fst fs) (look s) + attempts_left (map fst fs) (outcome fs (mark now t))"
      unfolding t(5) by (rule budget_update [OF \<open>finite (dom (look s))\<close> t(1)])
    ultimately have "budget (map fst fs) (look s') < budget (map fst fs) (look s)" by linarith
    then show ?thesis using Suc.IH [OF t(4)] Suc.prems(2) t(3) by simp
  next
    case False
    then have "process_one be (quiet_handlers fs) False now s = (Inr False, s)"
      using dequeue_none_law [OF Suc.prems(1), of "map fst fs" now] by (auto simp: process_one_def types)
    moreover have "budget (map fst fs) (look s) = 0"
      using False unfolding budget_def by (intro sum.neutral) (auto simp: attempts_left_def)
    ultimately show ?thesis using Suc.IH [OF Suc.prems(1)] by simp
  qed
qed

lemma worker_run_keeps:
  "inv s \<Longrightarrow> handlers_ok inv look hs \<Longrightarrow>
   \<forall>e \<in> set es. \<forall>s. inv s \<longrightarrow> inv (env_before e s) \<and> dom (look s) \<subseteq> dom (look (env_before e s)) \<Longrightarrow>
   inv (snd (worker_run be hs es s)) \<and> dom (look s) \<subseteq> dom (look (snd (worker_run be hs es s)))"
proof (induction es arbitrary: s)
  case (Cons e es)
  let ?s1 = "env_before e s" and ?s2 = "snd (b_requeue_stale be (env_now e) (env_before e s))"
  have s1: "inv ?s1" "dom (look s) \<subseteq> dom (look ?s1)" using Cons.prems by simp_all
  have s2: "inv ?s2" "dom (look ?s2) = dom (look ?s1)" using requeue_law [OF s1(1)] by simp_all
  obtain s3 where s3: "process_one be hs False (env_now e) ?s2 =
      (Inr (\<exists>i t. look ?s2 i = Some t \<and> claimable (subscribed_types hs) t), s3)"
    "inv s3" "dom (look ?s2) \<subseteq> dom (look s3)"
    using process_one_total [OF s2(1) Cons.prems(2)] by blast
  have IH: "inv (snd (worker_run be hs es s3)) \<and> dom (look s3) \<subseteq> dom (look (snd (worker_run be hs es s3)))"
    using Cons.IH [OF s3(2) Cons.prems(2)] Cons.prems(3) by simp
  consider "\<not> env_running e \<or> env_cancel_head e" | "env_running e" "\<not> env_cancel_head e" "env_cancel_task e"
    | "env_running e" "\<not> env_cancel_head e" "\<not> env_cancel_task e" by blast
  then show ?case
  proof cases
    case 1
    then show ?thesis using s1 by (simp add: Let_def)
  next
    case 2
    then show ?thesis using s1 s2 by (simp add: Let_def process_one_def)
  next
    case 3
    then show ?thesis using s1 s2 s3 IH by (simp add: Let_def) blast
  qed
qed simp

end

section \<open>The in-memory backend fulfils the contract\<close>

lemma enqueue_view: "view (snd (enqueue t s)) = (view s)(task_id t \<mapsto> t)"
  by (simp add: enqueue_def enqueue_publish_def enqueue_record_def Let_def update_conv')

interpretation memory_docket: docket_contract "memory_backend_ops ch" memory_wf "\<lambda>s. map_of (tasks s)" "claimed ch" for ch
proof
  fix s :: "'v memory_backend" and t :: "'v docket_task" and i now types e v
  show "memory_wf s \<Longrightarrow> finite (dom (view s)) \<and> (\<forall>i t. view s i = Some t \<longrightarrow> task_id t = i \<and> task_ok t)"
    using view_task_id view_task_ok by (metis finite_dom_map_of)
  show "task_id (claimed ch now t) = task_id t" "task_type (claimed ch now t) = task_type t"
    "retry_count (claimed ch now t) = retry_count t" "max_retries (claimed ch now t) = max_retries t"
    by (simp_all add: claimed_def)
  show "memory_wf s \<Longrightarrow> task_ok t \<Longrightarrow> \<exists>s'. b_enqueue (memory_backend_ops ch) t s = (Inr (), s') \<and>
      memory_wf s' \<and> view s' = (view s)(task_id t \<mapsto> t)"
    using enqueue_wf [of s t] enqueue_view [of t s] by (simp add: memory_backend_ops_def enqueue_def)
  show "memory_wf s \<Longrightarrow> \<exists>i t. view s i = Some t \<and> claimable types t \<Longrightarrow>
      \<exists>t s'. b_dequeue (memory_backend_ops ch) now types s = (Inr (Some (claimed ch now t)), s') \<and>
        view s (task_id t) = Some t \<and> claimable types t \<and> memory_wf s' \<and>
        view s' = (view s)(task_id t \<mapsto> claimed ch now t)"
  proof -
    assume wf: "memory_wf s" and ex: "\<exists>i t. view s i = Some t \<and> claimable types t"
    show ?thesis
      by (rule dequeue_claims [OF wf ex, of ch now])
        (use dequeue_wf [OF wf, of ch now types] in \<open>auto simp: memory_backend_ops_def update_conv'\<close>)
  qed
  show "memory_wf s \<Longrightarrow> \<forall>i t. view s i = Some t \<longrightarrow> \<not> claimable types t \<Longrightarrow>
      b_dequeue (memory_backend_ops ch) now types s = (Inr None, s)"
    by (simp add: memory_backend_ops_def dequeue_empty)
  show "memory_wf s \<Longrightarrow> view s i = Some t \<Longrightarrow> \<exists>s'. b_ack (memory_backend_ops ch) i v s = (Inr (), s') \<and>
      memory_wf s' \<and> view s' = (view s)(i \<mapsto> acked v t)"
    using ack_wf [of s i v] by (simp add: memory_backend_ops_def ack_eq update_conv' del: map_of_eq_Some_iff)
  show "memory_wf s \<Longrightarrow> view s i = Some t \<Longrightarrow> \<exists>s'. b_nack (memory_backend_ops ch) i e s = (Inr (), s') \<and>
      memory_wf s' \<and> view s' = (view s)(i \<mapsto> nacked e t)"
    using nack_wf [of s i e] by (simp add: memory_backend_ops_def nack_eq update_conv' del: map_of_eq_Some_iff)
  show "b_get_task (memory_backend_ops ch) i s = Inr (view s i)"
    by (simp add: memory_backend_ops_def get_task_def)
  show "memory_wf s \<Longrightarrow> memory_wf (snd (b_requeue_stale (memory_backend_ops ch) now s)) \<and>
      dom (view (snd (b_requeue_stale (memory_backend_ops ch) now s))) = dom (view s)"
    using requeue_stale_wf [of s ch now] by (auto simp: memory_backend_ops_def requeue_stale_view dom_def)
qed

end
