(* ===== verification/Docket_Attempts.thy ===== *)
theory Docket_Attempts
  imports Docket
begin

text \<open>
  Properties of the task queue across operations: how often a task is handed out, the order in
  which tasks are handed out, the worker, the client's identifiers, and the lock order of the
  in-memory backend.
\<close>

section \<open>Attempts\<close>


text \<open>
  The queue as a machine with a ghost counter of how often each task was handed out.
\<close>

datatype 'v queue_op =
    Enqueue "'v docket_task"
  | Dequeue int "bytes list"
  | Ack task_id 'v
  | Nack task_id bytes
  | Cancel task_id "bytes option"
  | RequeueStale int

type_synonym 'v counted = "'v memory_backend \<times> (task_id \<Rightarrow> nat)"

fun queue_step :: "chrono \<Rightarrow> 'v queue_op \<Rightarrow> 'v counted \<Rightarrow> 'v counted" where
  "queue_step ch (Enqueue t) (s, c) = (snd (enqueue t s), c)"
| "queue_step ch (Dequeue now types) (s, c) =
     (case dequeue ch now types s of
        (Inr (Some t), s') \<Rightarrow> (s', c(task_id t := c (task_id t) + 1))
      | (_, s') \<Rightarrow> (s', c))"
| "queue_step ch (Ack i v) (s, c) = (snd (ack i v s), c)"
| "queue_step ch (Nack i e) (s, c) = (snd (nack i e s), c)"
| "queue_step ch (Cancel i r) (s, c) = (snd (cancel i r s), c)"
| "queue_step ch (RequeueStale now) (s, c) = (snd (requeue_stale ch now s), c)"

text \<open>Tasks are submitted once, fresh; no retry counter is about to wrap.\<close>

fun queue_pre :: "'v queue_op \<Rightarrow> 'v counted \<Rightarrow> bool" where
  "queue_pre (Enqueue t) (s, c) \<longleftrightarrow>
     view s (task_id t) = None \<and> status t = Pending \<and> retry_count t = 0 \<and> max_retries t < 4294967296"
| "queue_pre op (s, c) \<longleftrightarrow> (\<forall>(i, t) \<in> set (tasks s). retry_count t + 1 < 4294967296)"

definition claim_ok :: "'v docket_task \<Rightarrow> nat \<Rightarrow> bool" where
  "claim_ok t n \<longleftrightarrow> n \<le> max 1 (max_retries t) \<and>
     n \<le> retry_count t + (if status t = Pending then 0 else 1)"

definition claims_bound :: "(task_id \<rightharpoonup> 'v docket_task) \<Rightarrow> (task_id \<Rightarrow> nat) \<Rightarrow> bool" where
  "claims_bound m c \<longleftrightarrow> (\<forall>i. m i = None \<longrightarrow> c i = 0) \<and> (\<forall>i t. m i = Some t \<longrightarrow> claim_ok t (c i))"

definition counted_wf :: "'v counted \<Rightarrow> bool" where
  "counted_wf = (\<lambda>(s, c). memory_wf s \<and> claims_bound (view s) c)"

lemma claims_bound_update:
  assumes "claims_bound m c" and "claim_ok u (c i)"
  shows "claims_bound (m(i \<mapsto> u)) c"
  using assms by (simp add: claims_bound_def)

lemma claims_boundD: "claims_bound m c \<Longrightarrow> m i = Some t \<Longrightarrow> claim_ok t (c i)"
  by (simp add: claims_bound_def)

lemma u32_inc_exact: "n + 1 < 4294967296 \<Longrightarrow> u32_inc n = n + 1"
  by (simp add: u32_inc_def)

lemma claim_ok_acked: "claim_ok t n \<Longrightarrow> claim_ok (acked v t) n"
  by (auto simp: claim_ok_def acked_def split: if_splits)

lemma claim_ok_cancelled: "claim_ok t n \<Longrightarrow> claim_ok (t\<lparr>status := Cancelled, task_error := r\<rparr>) n"
  by (auto simp: claim_ok_def split: if_splits)

lemma claim_ok_nacked: "claim_ok t n \<Longrightarrow> retry_count t + 1 < 4294967296 \<Longrightarrow> claim_ok (nacked e t) n"
  by (auto simp: claim_ok_def nacked_def Let_def u32_inc_exact split: if_splits)

lemma claim_ok_requeued:
  "claim_ok t n \<Longrightarrow> retry_count t + 1 < 4294967296 \<Longrightarrow> claim_ok (requeued ch now s t) n"
  by (auto simp: claim_ok_def requeued_def is_stale_def u32_inc_exact split: if_splits)

lemma claim_ok_claimed: "claim_ok t n \<Longrightarrow> status t = Pending \<Longrightarrow> task_ok t \<Longrightarrow> claim_ok (claimed ch now t) (n + 1)"
  by (auto simp: claim_ok_def claimed_def task_ok_def)

lemma dequeue_step_keeps:
  assumes wf: "memory_wf s" and cb: "claims_bound (view s) c"
  shows "counted_wf (queue_step ch (Dequeue now types) (s, c))"
proof (cases "\<exists>i t. view s i = Some t \<and> claimable types t")
  case True
  obtain t p where d: "dequeue ch now types s = (Inr (Some (claimed ch now t)),
      s\<lparr>tasks := AList.update (task_id t) (claimed ch now t) (tasks s),
        pending := take p (pending s) @ drop (Suc p) (pending s)\<rparr>)" (is "_ = (_, ?s)")
    and t: "view s (task_id t) = Some t" "claimable types t"
    by (rule dequeue_claims [OF wf True, of ch now])
  let ?c = "c(task_id t := c (task_id t) + 1)"
  have "claim_ok (claimed ch now t) (c (task_id t) + 1)"
    using claim_ok_claimed claims_boundD [OF cb t(1)] view_task_ok [OF wf t(1)] t(2)
    by (auto simp: claimable_def)
  then have "claims_bound ((view s)(task_id t \<mapsto> claimed ch now t)) ?c"
    using cb by (simp add: claims_bound_def)
  moreover have "memory_wf ?s" using dequeue_wf [OF wf, of ch now types] d by simp
  ultimately show ?thesis
    using d by (simp add: counted_wf_def update_conv' claimed_def [THEN arg_cong, of task_id])
next
  case False
  then show ?thesis using wf cb dequeue_empty [OF wf, of types ch now] by (simp add: counted_wf_def)
qed

lemma queue_step_keeps:
  assumes "counted_wf x" and "queue_pre op x"
  shows "counted_wf (queue_step ch op x)"
proof -
  obtain s c where x: "x = (s, c)" by force
  have wf: "memory_wf s" and cb: "claims_bound (view s) c" using assms(1) by (simp_all add: x counted_wf_def)
  have small: "retry_count t + 1 < 4294967296"
    if "view s i = Some t" "\<forall>(i, t) \<in> set (tasks s). retry_count t + 1 < 4294967296" for i t
    using that map_of_SomeD by fastforce
  show ?thesis
  proof (cases op)
    case (Enqueue t)
    have "claims_bound ((view s)(task_id t \<mapsto> t)) c"
      using cb assms(2) by (intro claims_bound_update) (simp_all add: x Enqueue claims_bound_def claim_ok_def)
    then show ?thesis using enqueue_wf [OF wf, of t] assms(2)
      by (simp add: x Enqueue counted_wf_def enqueue_view task_ok_def)
  next
    case (Dequeue now types)
    then show ?thesis using dequeue_step_keeps [OF wf cb] by (simp add: x)
  next
    case (Ack i v)
    show ?thesis
    proof (cases "view s i")
      case (Some t)
      have "claims_bound ((view s)(i \<mapsto> acked v t)) c"
        by (rule claims_bound_update [OF cb claim_ok_acked [OF claims_boundD [OF cb Some]]])
      then show ?thesis using ack_wf [OF wf, of i v] by (simp add: x Ack counted_wf_def ack_eq [OF Some] update_conv')
    qed (use wf cb in \<open>simp add: x Ack counted_wf_def ack_def\<close>)
  next
    case (Nack i e)
    show ?thesis
    proof (cases "view s i")
      case (Some t)
      have "retry_count t + 1 < 4294967296" using small [OF Some] assms(2) by (simp add: x Nack)
      then have "claims_bound ((view s)(i \<mapsto> nacked e t)) c"
        by (rule claims_bound_update [OF cb claim_ok_nacked [OF claims_boundD [OF cb Some]]])
      then show ?thesis using nack_wf [OF wf, of i e] by (simp add: x Nack counted_wf_def nack_eq [OF Some] update_conv')
    qed (use wf cb in \<open>simp add: x Nack counted_wf_def nack_def\<close>)
  next
    case (Cancel i r)
    show ?thesis
    proof (cases "view s i")
      case (Some t)
      have "claims_bound ((view s)(i \<mapsto> t\<lparr>status := Cancelled, task_error := r\<rparr>)) c"
        by (rule claims_bound_update [OF cb claim_ok_cancelled [OF claims_boundD [OF cb Some]]])
      then show ?thesis using cancel_wf [OF wf, of i r] wf cb Some
        by (simp add: x Cancel counted_wf_def cancel_def update_conv' del: map_of_eq_Some_iff)
    qed (use wf cb in \<open>simp add: x Cancel counted_wf_def cancel_def\<close>)
  next
    case (RequeueStale now)
    have pre: "\<forall>(i, t) \<in> set (tasks s). retry_count t + 1 < 4294967296"
      using assms(2) by (simp add: x RequeueStale)
    have "claims_bound (\<lambda>i. map_option (requeued ch now s) (view s i)) c"
      unfolding claims_bound_def
    proof (intro conjI allI impI)
      fix i u assume "map_option (requeued ch now s) (view s i) = Some u"
      then obtain t where t: "view s i = Some t" "u = requeued ch now s t" by (cases "view s i") simp_all
      show "claim_ok u (c i)"
        unfolding t(2) by (rule claim_ok_requeued [OF claims_boundD [OF cb t(1)] small [OF t(1) pre]])
    qed (use cb in \<open>simp add: claims_bound_def\<close>)
    then show ?thesis using requeue_stale_wf [OF wf, of ch now]
      by (simp add: x RequeueStale counted_wf_def requeue_stale_view [abs_def])
  qed
qed

interpretation queue_machine: guarded_machine counted_wf queue_pre "queue_step ch" for ch
  by unfold_locales (rule queue_step_keeps)

section \<open>Order of the queue\<close>

definition queue_priority :: "'v memory_backend \<Rightarrow> task_id \<Rightarrow> int" where
  "queue_priority s i = (case view s i of Some t \<Rightarrow> priority t | None \<Rightarrow> 0)"

definition by_priority :: "'v memory_backend \<Rightarrow> bool" where
  "by_priority s \<longleftrightarrow> sorted_wrt (\<lambda>i j. queue_priority s j \<le> queue_priority s i) (pending s)"

lemma position_cong: "(\<And>x. x \<in> set xs \<Longrightarrow> P x = Q x) \<Longrightarrow> position P xs = position Q xs"
  by (induction xs) auto

lemma split_at_priority:
  fixes f :: "'a \<Rightarrow> int"
  assumes "sorted_wrt (\<lambda>i j. f j \<le> f i) xs"
    and "p = (case position (\<lambda>j. f j < v) xs of Some p \<Rightarrow> p | None \<Rightarrow> length xs)"
  shows "take p xs = filter (\<lambda>j. v \<le> f j) xs \<and> drop p xs = filter (\<lambda>j. f j < v) xs"
  using assms
proof (induction xs arbitrary: p)
  case (Cons x xs)
  show ?case
  proof (cases "f x < v")
    case True
    then have "\<forall>j \<in> set xs. f j < v" using Cons.prems(1) by fastforce
    with True Cons.prems(2) show ?thesis by (auto simp: filter_id_conv filter_empty_conv not_less [symmetric])
  next
    case False
    with Cons show ?thesis by (cases "position (\<lambda>j. f j < v) xs") auto
  qed
qed simp

lemma queue_priority_enqueue:
  "queue_priority (snd (enqueue t s)) i = (if i = task_id t then priority t else queue_priority s i)"
  by (simp add: queue_priority_def enqueue_view)

lemma enqueue_record_pending: "pending (enqueue_record t s) = pending s"
  by (simp add: enqueue_record_def)

lemma enqueue_pending:
  assumes wf: "memory_wf s" and sorted: "by_priority s" and fresh: "view s (task_id t) = None"
  shows "pending (snd (enqueue t s)) =
    filter (\<lambda>j. priority t \<le> queue_priority s j) (pending s) @ task_id t #
    filter (\<lambda>j. queue_priority s j < priority t) (pending s)"
proof -
  let ?s = "enqueue_record t s"
  have "position (\<lambda>j. case view ?s j of None \<Rightarrow> True | Some u \<Rightarrow> priority u < priority t) (pending s) =
      position (\<lambda>j. queue_priority s j < priority t) (pending s)"
  proof (rule position_cong)
    fix j assume "j \<in> set (pending s)"
    then have "j \<in> fst ` set (tasks s)" using wf unfolding memory_wf_def by blast
    then have "view s j \<noteq> None" by (simp add: map_of_eq_None_iff)
    moreover from this fresh have "j \<noteq> task_id t" by auto
    ultimately show "(case view ?s j of None \<Rightarrow> True | Some u \<Rightarrow> priority u < priority t) =
        (queue_priority s j < priority t)"
      by (auto simp: enqueue_record_def update_conv' queue_priority_def)
  qed
  then show ?thesis
    using split_at_priority [OF sorted [unfolded by_priority_def], of _ "priority t"]
    by (simp add: enqueue_def enqueue_publish_def Let_def insert_at_def enqueue_record_pending [of t s]
        cong: option.case_cong)
qed

lemma enqueue_by_priority:
  assumes wf: "memory_wf s" and sorted: "by_priority s" and fresh: "view s (task_id t) = None"
  shows "by_priority (snd (enqueue t s))"
proof -
  have "task_id t \<notin> set (pending s)"
    using wf fresh unfolding memory_wf_def by (auto simp: map_of_eq_None_iff)
  then have same: "queue_priority (snd (enqueue t s)) j = queue_priority s j" if "j \<in> set (pending s)" for j
    using that by (auto simp: queue_priority_enqueue)
  have new: "queue_priority (snd (enqueue t s)) (task_id t) = priority t"
    by (simp add: queue_priority_enqueue)
  have "sorted_wrt (\<lambda>i j. queue_priority (snd (enqueue t s)) j \<le> queue_priority (snd (enqueue t s)) i)
      (filter P (pending s))" for P
    by (rule sorted_wrt_mono_rel [OF _ sorted_wrt_filter [OF sorted [unfolded by_priority_def]]])
      (simp add: same)
  then show ?thesis
    unfolding by_priority_def enqueue_pending [OF assms] by (auto simp: sorted_wrt_append same new)
qed

lemma sorted_wrt_remove_nth:
  assumes "p < length xs" and "sorted_wrt R xs"
  shows "sorted_wrt R (take p xs @ drop (Suc p) xs)"
proof -
  have "sorted_wrt R (take p xs @ xs ! p # drop (Suc p) xs)"
    using assms id_take_nth_drop [of p xs] by simp
  then show ?thesis by (simp add: sorted_wrt_append)
qed

lemma dequeue_by_priority:
  assumes wf: "memory_wf s" and sorted: "by_priority s"
  shows "by_priority (snd (dequeue ch now types s))"
proof (cases "\<exists>i t. view s i = Some t \<and> claimable types t")
  case True
  obtain t p where d: "snd (dequeue ch now types s) =
      s\<lparr>tasks := AList.update (task_id t) (claimed ch now t) (tasks s),
        pending := take p (pending s) @ drop (Suc p) (pending s)\<rparr>"
    and p: "p < length (pending s)" and t: "view s (task_id t) = Some t"
    by (rule dequeue_claims [OF wf True, of ch now]) simp
  have "queue_priority (snd (dequeue ch now types s)) = queue_priority s"
    using t by (auto simp: d queue_priority_def update_conv' claimed_def fun_eq_iff)
  then show ?thesis
    using sorted_wrt_remove_nth [OF p sorted [unfolded by_priority_def]] unfolding by_priority_def by (simp add: d)
next
  case False
  then show ?thesis using dequeue_empty [OF wf, of types ch now] sorted by simp
qed

lemma dequeue_returns_highest:
  assumes wf: "memory_wf s" and sorted: "by_priority s"
    and d: "dequeue ch now types s = (Inr (Some t), s')" and u: "view s i = Some u" "claimable types u"
  shows "priority u \<le> priority t"
proof -
  have ex: "\<exists>i t. view s i = Some t \<and> claimable types t" using u by blast
  obtain t0 p where t: "t = claimed ch now t0" and p: "p < length (pending s)" "pending s ! p = task_id t0"
    "view s (task_id t0) = Some t0" and first: "\<forall>j < p. \<not> queue_match types s (pending s ! j)"
    by (rule dequeue_claims [OF wf ex, of ch now]) (use d in simp)
  have "i \<in> set (pending s)" using wf u unfolding memory_wf_def claimable_def by blast
  then obtain q where q: "q < length (pending s)" "pending s ! q = i" by (auto simp: in_set_conv_nth)
  have "\<not> q < p" using first q(2) u queue_match_iff by blast
  then have "queue_priority s i \<le> queue_priority s (task_id t0)"
    using sorted_wrt_nth_less [OF sorted [unfolded by_priority_def], of p q] p(1,2) q
    by (cases "p = q") (auto simp: not_less)
  then show ?thesis using u(1) p(3) by (simp add: queue_priority_def t claimed_def)
qed

lemma dequeued_task:
  assumes wf: "memory_wf s" and d: "dequeue ch now types s = (Inr (Some u), s')"
  shows "\<exists>t. view s (task_id t) = Some t \<and> claimable types t \<and> u = claimed ch now t"
proof -
  have ex: "\<exists>j t. view s j = Some t \<and> claimable types t"
    using d dequeue_empty [OF wf, of types ch now] by force
  show ?thesis
  proof (rule dequeue_claims [OF wf ex, of ch now])
    fix t p
    assume "dequeue ch now types s = (Inr (Some (claimed ch now t)),
        s\<lparr>tasks := AList.update (task_id t) (claimed ch now t) (tasks s),
          pending := take p (pending s) @ drop (Suc p) (pending s)\<rparr>)"
      "view s (task_id t) = Some t" "claimable types t"
    then show ?thesis using d by (intro exI [of _ t]) simp
  qed
qed

section \<open>Identifiers of the client\<close>

definition hex_value :: "byte \<Rightarrow> nat" where
  "hex_value c = (if code c < 58 then code c - 48 else code c - 87)"

definition read_hex :: "bytes \<Rightarrow> nat" where
  "read_hex s = foldl (\<lambda>n c. n * 16 + hex_value c) 0 s"

lemma hex_value_digit: "d < 16 \<Longrightarrow> hex_value (hex_digit d) = d"
  by (auto simp: hex_value_def hex_digit_def)

lemma read_show_hex: "read_hex (show_hex n) = n"
proof (induction n rule: show_hex.induct)
  case (1 n)
  show ?case
  proof (cases "n < 16")
    case True
    then show ?thesis by (simp add: show_hex.simps [of n] read_hex_def hex_value_digit)
  next
    case False
    with 1 have "read_hex (show_hex (n div 16)) = n div 16" by simp
    with False show ?thesis by (simp add: show_hex.simps [of n] read_hex_def hex_value_digit)
  qed
qed

lemma read_hex_padded: "read_hex (replicate k (CHR ''0'') @ s) = read_hex s"
  by (induction k) (simp_all add: read_hex_def hex_value_def)

lemma format_task_id_inject [simp]: "format_task_id m = format_task_id n \<longleftrightarrow> m = n"
proof
  assume "format_task_id m = format_task_id n"
  then have "read_hex (drop 7 (format_task_id m)) = read_hex (drop 7 (format_task_id n))" by simp
  then show "m = n" by (simp add: format_task_id_def read_hex_padded read_show_hex)
qed simp

definition docket_wf :: "'v memory_backend docket \<Rightarrow> bool" where
  "docket_wf d \<longleftrightarrow> memory_wf (dk_backend d) \<and> default_max_retries (dk_settings d) < 4294967296 \<and>
     dom (view (dk_backend d)) \<subseteq> format_task_id ` {..<task_counter d}"

section \<open>Lock order of the in-memory backend\<close>

text \<open>
  Each operation as the sequence of its lock acquisitions and releases, in source order; guards are
  released at the end of their scope, the youngest first.
\<close>

datatype lock = TasksLock | PendingLock

datatype lock_action = AcquireWrite lock | AcquireRead lock | Release lock

definition enqueue_locks :: "lock_action list" where
  "enqueue_locks = [AcquireWrite TasksLock, Release TasksLock, AcquireWrite PendingLock,
     AcquireRead TasksLock, Release TasksLock, Release PendingLock]"

definition dequeue_locks :: "lock_action list" where
  "dequeue_locks = [AcquireWrite PendingLock, AcquireWrite TasksLock, Release TasksLock, Release PendingLock]"

definition nack_locks :: "lock_action list" where
  "nack_locks = [AcquireWrite TasksLock, AcquireWrite PendingLock, Release PendingLock, Release TasksLock]"

text \<open>
  Threads with their remaining actions, and the guards held as triples of thread, lock and whether
  it is a write guard.
\<close>

type_synonym lock_state = "(nat \<Rightarrow> lock_action list) \<times> (nat \<times> lock \<times> bool) list"

inductive lock_step :: "lock_state \<Rightarrow> lock_state \<Rightarrow> bool" where
  acquire_write: "prog t = AcquireWrite l # as \<Longrightarrow> \<forall>(u, l', w) \<in> set held. l' \<noteq> l \<Longrightarrow>
    lock_step (prog, held) (prog(t := as), (t, l, True) # held)"
| acquire_read: "prog t = AcquireRead l # as \<Longrightarrow> \<forall>(u, l', w) \<in> set held. l' = l \<longrightarrow> \<not> w \<Longrightarrow>
    lock_step (prog, held) (prog(t := as), (t, l, False) # held)"
| unlock: "prog t = Release l # as \<Longrightarrow>
    lock_step (prog, held) (prog(t := as), filter (\<lambda>(u, l', w). \<not> (u = t \<and> l' = l)) held)"

inductive_cases lock_stepE: "lock_step (prog, held) y"

definition deadlocked :: "lock_state \<Rightarrow> bool" where
  "deadlocked x \<longleftrightarrow> (\<exists>t. fst x t \<noteq> []) \<and> (\<forall>y. \<not> lock_step x y)"

definition two_threads :: "lock_action list \<Rightarrow> lock_action list \<Rightarrow> nat \<Rightarrow> lock_action list" where
  "two_threads a b = (\<lambda>t. if t = 0 then a else if t = 1 then b else [])"

text \<open>
  C28: The lock order is cyclic: a dequeue and a negative acknowledgement on two threads can reach a
  state in which each holds the lock the other waits for and no step is possible.
\<close>

theorem dequeue_nack_can_deadlock:
  "\<exists>x. lock_step\<^sup>*\<^sup>* (two_threads dequeue_locks nack_locks, []) x \<and> deadlocked x"
proof (intro exI conjI)
  let ?p0 = "two_threads dequeue_locks nack_locks"
  let ?p1 = "?p0(0 := [AcquireWrite TasksLock, Release TasksLock, Release PendingLock])"
  let ?p2 = "?p1(1 := [AcquireWrite PendingLock, Release PendingLock, Release TasksLock])"
  let ?x = "(?p2, [(1, TasksLock, True), (0, PendingLock, True)])"
  have "lock_step (?p0, []) (?p1, [(0, PendingLock, True)])"
    by (rule lock_step.acquire_write) (simp_all add: two_threads_def dequeue_locks_def)
  moreover have "lock_step (?p1, [(0, PendingLock, True)]) ?x"
    by (rule lock_step.acquire_write) (simp_all add: two_threads_def nack_locks_def)
  ultimately show "lock_step\<^sup>*\<^sup>* (?p0, []) ?x" by (meson converse_rtranclp_into_rtranclp rtranclp.rtrancl_refl)
  have "\<not> lock_step ?x y" for y
    by (auto elim!: lock_stepE simp: two_threads_def split: if_splits)
  moreover have "fst ?x 0 \<noteq> []" by simp
  ultimately show "deadlocked ?x" unfolding deadlocked_def by blast
qed

section \<open>Properties\<close>

definition sample_chrono :: chrono where
  "sample_chrono =
     \<lparr>to_rfc3339 = (\<lambda>t. if t < 0 then ''-'' @ show_nat (nat (- t)) else show_nat (nat t)),
      parse_from_rfc3339 = (\<lambda>s. Some (if hd s = CHR ''-'' then - int (read_nat (tl s)) else int (read_nat s))),
      from_std = (\<lambda>d. Some (int d))\<rparr>"

lemma sample_chrono_parse: "parse_from_rfc3339 sample_chrono (to_rfc3339 sample_chrono x) = Some x"
proof -
  have "show_nat n \<noteq> []" for n by (subst show_nat.simps) simp
  then have "hd (show_nat n) \<noteq> CHR ''-''" for n using show_nat_no_dash [of n] hd_in_set by metis
  then show ?thesis by (simp add: sample_chrono_def)
qed

definition sample_task :: "bytes \<Rightarrow> int \<Rightarrow> nat \<Rightarrow> nat docket_task" where
  "sample_task i prio retries = task_new sample_chrono 0 i ''mail'' 7 prio retries"

lemmas task_eval = sample_task_def task_new_def enqueue_def enqueue_publish_def enqueue_record_def
  insert_at_def dequeue_def queue_match_def claimable_def nack_def ack_def cancel_def u32_inc_def
  is_terminal_def memory_new_def Let_def

text \<open>
  C6: Attempts are bounded.  In every sequence of queue operations (fresh submissions, dequeues by any
  number of workers, acknowledgements, failures, cancellations and visibility time-outs in any order)
  a task is handed to a worker at most \<open>max_retries\<close> times, and at most once when that is zero.
\<close>

theorem task_handed_out_at_most:
  assumes "admissible queue_pre (queue_step ch) ops (memory_new st, \<lambda>i. 0)"
    and "fold (queue_step ch) ops (memory_new st, \<lambda>i. 0) = (s, c)" and "view s i = Some t"
  shows "c i \<le> max 1 (max_retries t)"
proof -
  have "counted_wf (memory_new st, \<lambda>i. 0)"
    using memory_wf_new [of st] by (simp add: counted_wf_def claims_bound_def memory_new_def)
  from queue_machine.run_keeps [OF this assms(1)] have "claims_bound (view s) c"
    unfolding assms(2) by (simp add: counted_wf_def)
  from claims_boundD [OF this assms(3)] show ?thesis by (simp add: claim_ok_def)
qed

theorem task_handed_out_at_most_witness:
  "\<exists>s c t. fold (queue_step sample_chrono)
       [Enqueue (sample_task ''a'' 0 2), Dequeue 1 [''mail''], Nack ''a'' ''e'', Dequeue 2 [''mail''], Nack ''a'' ''e'',
        Dequeue 3 [''mail'']] (memory_new default_settings, \<lambda>i. 0) = (s, c) \<and>
     view s ''a'' = Some t \<and> c ''a'' = 2 \<and> c ''a'' \<le> max 1 (max_retries t)"
proof -
  let ?ops = "[Enqueue (sample_task ''a'' 0 2), Dequeue 1 [''mail''], Nack ''a'' ''e'', Dequeue 2 [''mail''],
    Nack ''a'' ''e'', Dequeue 3 [''mail'']]"
  let ?x = "fold (queue_step sample_chrono) ?ops (memory_new default_settings, \<lambda>i. 0)"
  have adm: "admissible queue_pre (queue_step sample_chrono) ?ops (memory_new default_settings, \<lambda>i. 0)"
    by (simp add: task_eval)
  have run: "snd ?x ''a'' = 2" "view (fst ?x) ''a'' \<noteq> None" by (simp_all add: task_eval)
  then obtain t where t: "view (fst ?x) ''a'' = Some t" by blast
  have "snd ?x ''a'' \<le> max 1 (max_retries t)"
    by (rule task_handed_out_at_most [OF adm _ t]) simp
  with run t show ?thesis by (metis prod.collapse)
qed

text \<open>
  C26: The queue is a stable priority queue while tasks are only submitted and claimed.  A new task is
  inserted behind all queued tasks of at least its priority and in front of all others, whose order
  does not change, so that the queue stays ordered by priority and, within one priority, by arrival.
\<close>

theorem enqueue_stable_priority:
  assumes "memory_wf s" and "by_priority s" and "view s (task_id t) = None" and "task_ok t"
  shows "pending (snd (enqueue t s)) =
      filter (\<lambda>j. priority t \<le> queue_priority s j) (pending s) @ task_id t #
      filter (\<lambda>j. queue_priority s j < priority t) (pending s) \<and>
    by_priority (snd (enqueue t s)) \<and> memory_wf (snd (enqueue t s)) \<and>
    view (snd (enqueue t s)) = (view s)(task_id t \<mapsto> t)"
  using enqueue_pending enqueue_by_priority enqueue_wf enqueue_view assms by auto

theorem enqueue_stable_priority_witness:
  "pending (snd (enqueue (sample_task ''c'' 5 1)
     (snd (enqueue (sample_task ''b'' 1 1) (snd (enqueue (sample_task ''a'' 5 1) (memory_new default_settings)))))))
   = [''a'', ''c'', ''b'']"
proof -
  let ?s0 = "memory_new default_settings :: nat memory_backend"
  let ?s1 = "snd (enqueue (sample_task ''a'' 5 1) ?s0)"
  let ?s2 = "snd (enqueue (sample_task ''b'' 1 1) ?s1)"
  have ok: "task_ok (sample_task i p 1)" for i p by (simp add: task_eval task_ok_def)
  have s0: "memory_wf ?s0" "by_priority ?s0"
    using memory_wf_new by (simp_all add: by_priority_def memory_new_def)
  have v1: "view ?s0 (task_id (sample_task ''a'' 5 1)) = None"
    and v2: "view ?s1 (task_id (sample_task ''b'' 1 1)) = None"
    by (simp_all add: task_eval)
  have s1: "memory_wf ?s1" "by_priority ?s1"
    using enqueue_wf [OF s0(1) ok] enqueue_by_priority [OF s0 v1] by blast+
  have s2: "memory_wf ?s2" "by_priority ?s2"
    using enqueue_wf [OF s1(1) ok] enqueue_by_priority [OF s1 v2] by blast+
  have "view ?s2 (task_id (sample_task ''c'' 5 1)) = None" by (simp add: task_eval)
  note enqueue_stable_priority [OF s2 this ok, THEN conjunct1]
  also have "filter (\<lambda>j. priority (sample_task ''c'' 5 1) \<le> queue_priority ?s2 j) (pending ?s2) @
      task_id (sample_task ''c'' 5 1) #
      filter (\<lambda>j. queue_priority ?s2 j < priority (sample_task ''c'' 5 1)) (pending ?s2) = [''a'', ''c'', ''b'']"
    by (simp add: task_eval queue_priority_def)
  finally show ?thesis .
qed

text \<open>
  C25: A dequeue from a well-formed queue hands out a task exactly when some pending task has a
  subscribed type.  The task was pending, is now running with the claim time, and no other task
  changes; from a queue in priority order it has the highest priority of all claimable tasks.
\<close>

theorem dequeue_claims_highest:
  assumes "memory_wf s"
  shows "case dequeue ch now types s of
      (Inl e, s') \<Rightarrow> False
    | (Inr None, s') \<Rightarrow> s' = s \<and> (\<forall>i t. view s i = Some t \<longrightarrow> \<not> claimable types t)
    | (Inr (Some t), s') \<Rightarrow> \<exists>t0. view s (task_id t) = Some t0 \<and> claimable types t0 \<and> t = claimed ch now t0 \<and>
        memory_wf s' \<and> view s' = (view s)(task_id t \<mapsto> t) \<and>
        (by_priority s \<longrightarrow> by_priority s' \<and>
           (\<forall>i u. view s i = Some u \<longrightarrow> claimable types u \<longrightarrow> priority u \<le> priority t))"
proof (cases "\<exists>i t. view s i = Some t \<and> claimable types t")
  case True
  obtain t p where d: "dequeue ch now types s = (Inr (Some (claimed ch now t)),
      s\<lparr>tasks := AList.update (task_id t) (claimed ch now t) (tasks s),
        pending := take p (pending s) @ drop (Suc p) (pending s)\<rparr>)" (is "_ = (_, ?s)")
    and t: "view s (task_id t) = Some t" "claimable types t"
    by (rule dequeue_claims [OF assms True, of ch now])
  have "memory_wf ?s" using dequeue_wf [OF assms, of ch now types] d by simp
  moreover have "by_priority ?s" if "by_priority s"
    using dequeue_by_priority [OF assms that, of ch now types] d by simp
  moreover have "task_id (claimed ch now t) = task_id t" by (simp add: claimed_def)
  ultimately show ?thesis
    using t dequeue_returns_highest [OF assms _ d] unfolding d by (auto simp: update_conv')
next
  case False
  then show ?thesis using dequeue_empty [OF assms, of types ch now] by simp
qed

theorem dequeue_claims_highest_witness:
  "\<exists>t s'. dequeue sample_chrono 4 [''mail'']
      (snd (enqueue (sample_task ''b'' 9 1) (snd (enqueue (sample_task ''a'' 5 1) (memory_new default_settings)))))
      = (Inr (Some t), s') \<and> task_id t = ''b'' \<and> status t = Running \<and> memory_wf s'"
proof -
  let ?s = "snd (enqueue (sample_task ''b'' 9 1) (snd (enqueue (sample_task ''a'' 5 1) (memory_new default_settings))))"
  have ok: "task_ok (sample_task i p 1)" for i p by (simp add: task_eval task_ok_def)
  have wf: "memory_wf ?s" by (intro enqueue_wf memory_wf_new ok)
  obtain t s' where d: "dequeue sample_chrono 4 [''mail''] ?s = (Inr (Some t), s')"
    and t: "task_id t = ''b''" "status t = Running"
    by (simp add: task_eval)
  from dequeue_claims_highest [OF wf, where ch = sample_chrono and now = 4 and types = "[''mail'']"] have "memory_wf s'"
    unfolding d by auto
  with d t show ?thesis by blast
qed

text \<open>
  A worker step never fails.  With handlers that keep the invariant and remove no task (other
  threads may use the queue meanwhile), \<open>process_one\<close> returns without error, reports whether a task
  of a subscribed type was pending, and keeps the invariant and every task.
\<close>

lemma worker_step_total:
  assumes "memory_wf s" and "handlers_ok memory_wf (\<lambda>s. view s) hs"
  shows "\<exists>s'. process_one (memory_backend_ops ch) hs False now s =
      (Inr (\<exists>i t. view s i = Some t \<and> claimable (subscribed_types hs) t), s') \<and>
    memory_wf s' \<and> dom (view s) \<subseteq> dom (view s')"
  using memory_docket.process_one_total [OF assms] .

text \<open>
  C27: The worker drains the queue.  With handlers that run without interference, succeeding or failing
  as they like, as many worker steps as there are attempts left over all pending tasks of subscribed
  types leave no such task pending: every one has completed or failed for good.
\<close>

theorem worker_drains_queue:
  assumes "memory_wf s" and "budget (map fst fs) (view s) \<le> n"
  shows "memory_wf (process_many (memory_backend_ops ch) (quiet_handlers fs) now n s) \<and>
    (\<forall>i t. view (process_many (memory_backend_ops ch) (quiet_handlers fs) now n s) i = Some t \<longrightarrow>
       \<not> claimable (map fst fs) t)"
  using memory_docket.process_many_drains [OF assms] .

theorem worker_drains_queue_witness:
  "\<nexists>i t. view (process_many (memory_backend_ops sample_chrono)
       (quiet_handlers [(''mail'', \<lambda>t. Inl OperationCancelled)]) 1 2
       (snd (enqueue (sample_task ''a'' 5 2) (memory_new default_settings)))) i = Some t \<and>
     claimable [''mail''] t"
proof -
  let ?s = "snd (enqueue (sample_task ''a'' 5 2) (memory_new default_settings))"
  have "task_ok (sample_task ''a'' 5 2)" by (simp add: task_eval task_ok_def)
  then have wf: "memory_wf ?s" by (intro enqueue_wf memory_wf_new)
  have "budget [''mail''] (view ?s) \<le> 2"
    by (simp add: budget_def attempts_left_def task_eval)
  with worker_drains_queue [OF wf, where fs = "[(''mail'', \<lambda>t. Inl OperationCancelled)]" and n = 2
      and ch = sample_chrono and now = 1]
  show ?thesis by auto
qed

text \<open>
  Submission round trip.  A submitted task gets an identifier that no earlier task has, a lookup
  returns it as it was submitted (pending, no attempts, priority and retry limit from the options or
  the settings), every other task is unchanged, and the client stays well-formed.
\<close>

lemma submit_get_roundtrip:
  assumes "docket_wf d" and "task_counter d < u64_max" and "\<forall>r. opt_max_retries opts = Some r \<longrightarrow> r < 4294967296"
  shows "\<exists>d'. submit_with_options (memory_backend_ops ch) ch now ty ps opts d =
      (Inr (format_task_id (task_counter d)), d') \<and> docket_wf d' \<and>
    docket_get_task (memory_backend_ops ch) (format_task_id (task_counter d)) d = Inr None \<and>
    docket_get_task (memory_backend_ops ch) (format_task_id (task_counter d)) d' =
      Inr (Some (task_new ch now (format_task_id (task_counter d)) ty ps (opt_priority opts)
        (case opt_max_retries opts of Some r \<Rightarrow> r | None \<Rightarrow> default_max_retries (dk_settings d)))) \<and>
    (\<forall>i. i \<noteq> format_task_id (task_counter d) \<longrightarrow>
       docket_get_task (memory_backend_ops ch) i d' = docket_get_task (memory_backend_ops ch) i d)"
proof -
  have d: "memory_wf (dk_backend d)" "default_max_retries (dk_settings d) < 4294967296"
    "dom (view (dk_backend d)) \<subseteq> format_task_id ` {..<task_counter d}"
    using assms(1) by (simp_all add: docket_wf_def)
  have "format_task_id (task_counter d) \<notin> dom (view (dk_backend d))" using d(3) by auto
  then have fresh: "view (dk_backend d) (format_task_id (task_counter d)) = None" by auto
  obtain d' where d': "submit_with_options (memory_backend_ops ch) ch now ty ps opts d =
      (Inr (format_task_id (task_counter d)), d')" "memory_wf (dk_backend d')"
    "task_counter d' = Suc (task_counter d)" "dk_settings d' = dk_settings d"
    "view (dk_backend d') = (view (dk_backend d))(format_task_id (task_counter d) \<mapsto>
      task_new ch now (format_task_id (task_counter d)) ty ps (opt_priority opts)
        (case opt_max_retries opts of Some r \<Rightarrow> r | None \<Rightarrow> default_max_retries (dk_settings d)))"
    using memory_docket.submit_spec [OF d(1) assms(2) d(2) assms(3), of ch ch now ty ps] by blast
  have "docket_wf d'"
    using d d' by (auto simp: docket_wf_def lessThan_Suc)
  with d' fresh show ?thesis
    by (simp add: docket_get_task_def memory_docket.get_law del: map_of_eq_None_iff)
qed

text \<open>
  Cancellation.  It fails, leaving the queue as it was, exactly for an unknown task and for a task
  in a terminal state; otherwise the task is cancelled with the reason and leaves the queue, so that
  no dequeue returns it.
\<close>

lemma cancel_error_or_removed:
  assumes "memory_wf s"
  shows "case cancel i reason s of
      (Inl e, s') \<Rightarrow> s' = s \<and>
        (case view s i of None \<Rightarrow> e = NotFound i
         | Some t \<Rightarrow> is_terminal (status t) \<and>
             e = Backend (''Cannot cancel task in terminal state: '' @ status_debug (status t)))
    | (Inr _, s') \<Rightarrow> memory_wf s' \<and> i \<notin> set (pending s') \<and>
        (\<exists>t. view s i = Some t \<and> \<not> is_terminal (status t) \<and>
           view s' = (view s)(i \<mapsto> t\<lparr>status := Cancelled, task_error := reason\<rparr>)) \<and>
        (\<forall>ch now types u s''. dequeue ch now types s' = (Inr (Some u), s'') \<longrightarrow> task_id u \<noteq> i)"
proof (cases "view s i")
  case (Some t)
  show ?thesis
  proof (cases "is_terminal (status t)")
    case False
    let ?s = "s\<lparr>tasks := AList.update i (t\<lparr>status := Cancelled, task_error := reason\<rparr>) (tasks s),
      pending := filter (\<lambda>j. j \<noteq> i) (pending s)\<rparr>"
    have c: "cancel i reason s = (Inr (), ?s)" using Some False by (simp add: cancel_def)
    have wf: "memory_wf ?s" using cancel_wf [OF assms, of i reason] c by simp
    have "task_id u \<noteq> i" if d: "dequeue ch now types ?s = (Inr (Some u), s'')" for ch now types u s''
    proof -
      obtain t0 where u: "u = claimed ch now t0" "view ?s (task_id t0) = Some t0" "claimable types t0"
        using dequeued_task [OF wf d] by blast
      show ?thesis
      proof
        assume "task_id u = i"
        then have "task_id t0 = i" using u(1) by (simp add: claimed_def)
        with u(2,3) show False by (auto simp: update_conv' claimable_def)
      qed
    qed
    with wf Some False show ?thesis unfolding c by (simp add: update_conv' del: map_of_eq_Some_iff) metis
  qed (simp add: cancel_def Some)
qed (simp add: cancel_def)

text \<open>
  Visibility time-out.  When the time library parses what it formats, a running task is returned
  to the queue, or failed when its attempts are used up, exactly when it was claimed longer ago than
  the visibility time-out; every other task keeps its state.
\<close>

lemma requeue_stale_exact:
  assumes "memory_wf s" and "\<And>x. parse_from_rfc3339 ch (to_rfc3339 ch x) = Some x"
    and "from_std ch (visibility_timeout (settings s)) = Some timeout"
    and "view s i = Some t" and "status t = Running" and "claimed_at t = Some (to_rfc3339 ch at)"
  shows "memory_wf (snd (requeue_stale ch now s)) \<and>
    view (snd (requeue_stale ch now s)) i =
      Some (if now - at > timeout then
              (if u32_inc (retry_count t) \<ge> max_retries t
               then t\<lparr>status := Failed, claimed_at := None, retry_count := u32_inc (retry_count t),
                      task_error := Some ''Exceeded visibility timeout''\<rparr>
               else t\<lparr>status := Pending, claimed_at := None, retry_count := u32_inc (retry_count t)\<rparr>)
            else t) \<and>
    (\<forall>j u. view s j = Some u \<longrightarrow> status u \<noteq> Running \<longrightarrow> view (snd (requeue_stale ch now s)) j = Some u)"
proof -
  have v: "view (snd (requeue_stale ch now s)) j = map_option (requeued ch now s) (view s j)" for j
    by (rule requeue_stale_view)
  have "requeued ch now s u = u" if "status u \<noteq> Running" for u
    using that by (simp add: requeued_def is_stale_def)
  moreover have "requeued ch now s t = (if now - at > timeout then requeue_task t else t)"
    using assms(2,3,5,6) by (simp add: requeued_def is_stale_def)
  ultimately show ?thesis
    using requeue_stale_wf [OF assms(1), of ch now] v assms(4)
    by (simp add: requeue_task_def Let_def del: map_of_eq_Some_iff)
qed

text \<open>
  The worker loop keeps the queue well-formed and loses no task, whatever the running flag and the
  cancellation token do, whatever other threads do to the queue in between, and for every number of
  iterations.
\<close>

lemma worker_loop_keeps_tasks:
  assumes "memory_wf s" and "handlers_ok memory_wf (\<lambda>s. view s) hs"
    and "\<forall>e \<in> set es. \<forall>s. memory_wf s \<longrightarrow>
      memory_wf (env_before e s) \<and> dom (view s) \<subseteq> dom (view (env_before e s))"
  shows "memory_wf (snd (worker_run (memory_backend_ops ch) hs es s)) \<and>
    dom (view s) \<subseteq> dom (view (snd (worker_run (memory_backend_ops ch) hs es s)))"
  using memory_docket.worker_run_keeps [OF assms] .

section \<open>Deviations from the documentation\<close>

text \<open>
  A failed task goes to the end of the queue whatever its priority, so that the queue is no longer
  ordered by priority and a task of lower priority is handed out first.
\<close>

lemma nack_breaks_priority_order:
  "\<exists>s :: nat memory_backend. memory_wf s \<and> by_priority s \<and> \<not> by_priority (snd (nack ''a'' ''e'' s)) \<and>
     (\<exists>t s'. dequeue sample_chrono 2 [''mail''] (snd (nack ''a'' ''e'' s)) = (Inr (Some t), s') \<and> task_id t = ''b'' \<and>
        priority t = 1 \<and> (\<exists>u. view (snd (nack ''a'' ''e'' s)) ''a'' = Some u \<and> claimable [''mail''] u \<and> priority u = 9))"
proof -
  let ?s = "\<lparr>tasks = [(''a'', (sample_task ''a'' 9 3)\<lparr>status := Running\<rparr>), (''b'', sample_task ''b'' 1 3)],
    pending = [''b''], settings = default_settings\<rparr>"
  have "memory_wf ?s" "by_priority ?s"
    by (auto simp: memory_wf_def by_priority_def task_ok_def task_eval split: if_splits)
  moreover have "\<not> by_priority (snd (nack ''a'' ''e'' ?s))"
    by (simp add: by_priority_def task_eval queue_priority_def)
  moreover have "\<exists>t s'. dequeue sample_chrono 2 [''mail''] (snd (nack ''a'' ''e'' ?s)) = (Inr (Some t), s') \<and>
      task_id t = ''b'' \<and> priority t = 1 \<and>
      (\<exists>u. view (snd (nack ''a'' ''e'' ?s)) ''a'' = Some u \<and> claimable [''mail''] u \<and> priority u = 9)"
    by (simp add: task_eval)
  ultimately show ?thesis by blast
qed

text \<open>
  C29: Cancelling a running task does not last.  From every well-formed state in which task \<open>i\<close> runs:
  its cancellation succeeds and marks it cancelled, but when its handler then fails, the negative
  acknowledgement makes it pending again while attempts are left (and failed otherwise); it is then
  claimable by every worker of its type, and the next dequeue hands it out when no other task is.
\<close>

theorem cancelled_task_runs_again:
  assumes "memory_wf s" and "view s i = Some t" and "status t = Running"
  shows "let s1 = snd (cancel i reason s); s2 = snd (nack i err s1)
    in fst (cancel i reason s) = Inr () \<and> map_option status (view s1 i) = Some Cancelled \<and>
      fst (nack i err s1) = Inr () \<and>
      map_option status (view s2 i) = Some (if retry_count t + 1 < max_retries t then Pending else Failed) \<and>
      (retry_count t + 1 < max_retries t \<and> task_type t \<in> set types \<longrightarrow>
         queue_match types s2 i \<and> i \<in> set (pending s2) \<and>
         ((\<forall>j. j \<noteq> i \<longrightarrow> \<not> queue_match types s j) \<longrightarrow>
            (\<exists>t' s3. dequeue ch now types s2 = (Inr (Some t'), s3) \<and> task_id t' = i \<and> status t' = Running)))"
proof -
  let ?c = "t\<lparr>status := Cancelled, task_error := reason\<rparr>"
  define s1 where "s1 = snd (cancel i reason s)"
  define s2 where "s2 = snd (nack i err s1)"
  have can: "cancel i reason s = (Inr (), s1)" "view s1 i = Some ?c" "view s1 = (view s)(i \<mapsto> ?c)"
    using assms(2,3) by (simp_all add: s1_def cancel_def is_terminal_def update_conv')
  have ok: "retry_count t + 1 < 4294967296"
    using view_task_ok [OF assms(1,2)] assms(3) by (auto simp: task_ok_def max_def split: if_split_asm)
  have st: "status (nacked err ?c) = (if retry_count t + 1 < max_retries t then Pending else Failed)"
    "task_type (nacked err ?c) = task_type t"
    using ok by (auto simp: nacked_def u32_inc_def Let_def)
  have nk: "fst (nack i err s1) = Inr ()" "view s2 = (view s)(i \<mapsto> nacked err ?c)"
    "retry_count t + 1 < max_retries t \<longrightarrow> i \<in> set (pending s2)"
    using nack_eq [OF can(2), of err] st can(3) by (simp_all add: s2_def update_conv')
  have wf: "memory_wf s2" unfolding s2_def s1_def by (intro wf_intros assms(1))
  have "\<exists>t' s3. dequeue ch now types s2 = (Inr (Some t'), s3) \<and> task_id t' = i \<and> status t' = Running"
    if again: "retry_count t + 1 < max_retries t" "task_type t \<in> set types"
      and alone: "\<forall>j. j \<noteq> i \<longrightarrow> \<not> queue_match types s j"
  proof -
    have "\<exists>j u. view s2 j = Some u \<and> claimable types u"
      using again st nk(2) by (intro exI [of _ i]) (simp add: claimable_def)
    from dequeue_claims [OF wf this, of ch now] obtain u s3 where
      u: "dequeue ch now types s2 = (Inr (Some (claimed ch now u)), s3)" "view s2 (task_id u) = Some u" "claimable types u"
      by metis
    moreover have "task_id u = i"
      using alone u(2,3) nk(2) by (auto simp: queue_match_def split: if_split_asm option.splits)
    ultimately show ?thesis by (simp add: claimed_def)
  qed
  then show ?thesis
    using can nk st by (simp add: s1_def [symmetric] s2_def [symmetric] queue_match_def claimable_def)
qed

theorem cancelled_task_runs_again_witness:
  "let s = \<lparr>tasks = [(''a'', (sample_task ''a'' 9 3)\<lparr>status := Running\<rparr>)], pending = [], settings = default_settings\<rparr>
   in \<exists>t' s3. dequeue sample_chrono 2 [''mail''] (snd (nack ''a'' ''e'' (snd (cancel ''a'' None s)))) =
        (Inr (Some t'), s3) \<and> task_id t' = ''a'' \<and> status t' = Running"
proof -
  let ?t = "(sample_task ''a'' 9 3)\<lparr>status := Running\<rparr>"
  let ?s = "\<lparr>tasks = [(''a'', ?t)], pending = [], settings = default_settings\<rparr>"
  have "memory_wf ?s" by (auto simp: memory_wf_def task_ok_def task_eval split: if_splits)
  moreover have "retry_count ?t + 1 < max_retries ?t \<and> task_type ?t \<in> set [''mail'']"
    "\<forall>j. j \<noteq> ''a'' \<longrightarrow> \<not> queue_match [''mail''] ?s j"
    by (simp_all add: task_eval)
  ultimately show ?thesis
    using cancelled_task_runs_again [of ?s "''a''" ?t None "''e''" "[''mail'']" sample_chrono 2]
    unfolding Let_def by simp
qed

end
