(* ===== verification/Utf8.thy ===== *)
theory Utf8
  imports Prelude
begin

text \<open>
  UTF-8 decoding as Rust's standard library performs it.  \<open>utf8_step\<close> classifies the start of a
  byte string: a well-formed scalar value and its length, or an ill-formed sequence and the
  length of its maximal prefix that could still begin a scalar value.  \<open>utf8_valid\<close> is the
  success of \<open>std::str::from_utf8\<close> and \<open>from_utf8_lossy\<close> is \<open>String::from_utf8_lossy\<close>: each
  ill-formed sequence becomes one U+FFFD (bytes EF BF BD).
\<close>

section \<open>Definitions\<close>

definition is_cont :: "byte \<Rightarrow> bool" where
  "is_cont b \<longleftrightarrow> 128 \<le> code b \<and> code b < 192"

definition second3_ok :: "nat \<Rightarrow> byte \<Rightarrow> bool" where
  "second3_ok c b \<longleftrightarrow>
     (if c = 224 then 160 \<le> code b \<and> code b < 192
      else if c = 237 then 128 \<le> code b \<and> code b < 160
      else is_cont b)"

definition second4_ok :: "nat \<Rightarrow> byte \<Rightarrow> bool" where
  "second4_ok c b \<longleftrightarrow>
     (if c = 240 then 144 \<le> code b \<and> code b < 192
      else if c = 244 then 128 \<le> code b \<and> code b < 144
      else is_cont b)"

fun utf8_tail :: "nat \<Rightarrow> bytes \<Rightarrow> bool \<times> nat" where
  "utf8_tail 0 bs = (True, 0)"
| "utf8_tail (Suc n) [] = (False, 0)"
| "utf8_tail (Suc n) (b # bs) =
     (if is_cont b then (let (v, k) = utf8_tail n bs in (v, Suc k)) else (False, 0))"

fun utf8_step :: "bytes \<Rightarrow> bool \<times> nat" where
  "utf8_step [] = (True, 0)"
| "utf8_step (b # bs) =
     (if code b < 128 then (True, 1)
      else if 194 \<le> code b \<and> code b < 224 then
        (let (v, k) = utf8_tail 1 bs in (v, Suc k))
      else if 224 \<le> code b \<and> code b < 240 then
        (case bs of [] \<Rightarrow> (False, 1)
         | b1 # bs1 \<Rightarrow>
             if second3_ok (code b) b1
             then (let (v, k) = utf8_tail 1 bs1 in (v, Suc (Suc k)))
             else (False, 1))
      else if 240 \<le> code b \<and> code b < 245 then
        (case bs of [] \<Rightarrow> (False, 1)
         | b1 # bs1 \<Rightarrow>
             if second4_ok (code b) b1
             then (let (v, k) = utf8_tail 2 bs1 in (v, Suc (Suc k)))
             else (False, 1))
      else (False, 1))"

declare utf8_step.simps(2) [simp del]

definition replacement :: bytes where
  "replacement = [CHR 0xEF, CHR 0xBF, CHR 0xBD]"

function utf8_valid :: "bytes \<Rightarrow> bool" where
  "utf8_valid [] = True"
| "utf8_valid (b # bs) =
     (let (v, n) = utf8_step (b # bs) in v \<and> utf8_valid (drop (n - 1) bs))"
  by pat_completeness auto
termination
  by (relation "measure length") auto

function from_utf8_lossy :: "bytes \<Rightarrow> bytes" where
  "from_utf8_lossy [] = []"
| "from_utf8_lossy (b # bs) =
     (let (v, n) = utf8_step (b # bs)
      in (if v then take n (b # bs) else replacement) @ from_utf8_lossy (drop (n - 1) bs))"
  by pat_completeness auto
termination
  by (relation "measure length") auto

text \<open>\<open>str::chars\<close>: the scalar values of a string, each one as its UTF-8 encoding.\<close>

function chars :: "bytes \<Rightarrow> bytes list" where
  "chars [] = []"
| "chars (b # bs) =
     (let n = snd (utf8_step (b # bs)) in take n (b # bs) # chars (drop (n - 1) bs))"
  by pat_completeness auto
termination
  by (relation "measure length") auto

section \<open>Step lengths\<close>

lemma utf8_tail_le: "snd (utf8_tail n bs) \<le> length bs"
  by (induction n bs rule: utf8_tail.induct) (auto split: prod.splits)

lemma utf8_step_pos: "0 < snd (utf8_step (b # bs))"
  by (auto simp: utf8_step.simps(2) split: list.splits prod.splits)

lemma utf8_step_le: "snd (utf8_step (b # bs)) \<le> Suc (length bs)"
proof -
  have "snd (utf8_tail n xs) \<le> length xs" for n xs
    by (rule utf8_tail_le)
  then show ?thesis
    by (auto simp: utf8_step.simps(2) split: list.splits prod.splits)
      (metis le_SucI snd_conv length_Cons)+
qed

lemma utf8_step_ascii [simp]: "code b < 128 \<Longrightarrow> utf8_step (b # bs) = (True, 1)"
  by (simp add: utf8_step.simps(2))

lemma utf8_valid_ascii [simp]: "code b < 128 \<Longrightarrow> utf8_valid (b # bs) = utf8_valid bs"
  by simp

lemma from_utf8_lossy_ascii [simp]:
  "code b < 128 \<Longrightarrow> from_utf8_lossy (b # bs) = b # from_utf8_lossy bs"
  by simp

section \<open>An ASCII byte is a barrier\<close>

text \<open>
  No decoding step looks past an ASCII byte: decoding may be cut at line terminators.
\<close>

lemma ascii_not_cont: "code c < 128 \<Longrightarrow> \<not> is_cont c \<and> \<not> second3_ok n c \<and> \<not> second4_ok n c"
  by (auto simp: is_cont_def second3_ok_def second4_ok_def)

lemma utf8_tail_barrier:
  assumes "code c < 128"
  shows "utf8_tail n (bs @ c # ys) = utf8_tail n bs"
  using assms
proof (induction n bs rule: utf8_tail.induct)
  case (2 n)
  then show ?case by (simp add: ascii_not_cont)
qed auto

lemma utf8_step_barrier:
  assumes "code c < 128"
  shows "utf8_step (b # bs @ c # ys) = utf8_step (b # bs)"
  using utf8_tail_barrier [OF assms] ascii_not_cont [OF assms]
  by (cases bs) (simp_all add: utf8_step.simps(2))

lemma drop_step_append:
  "drop (snd (utf8_step (b # bs)) - 1) (bs @ ys) =
   drop (snd (utf8_step (b # bs)) - 1) bs @ ys"
  using utf8_step_le [of b bs] by simp

theorem from_utf8_lossy_barrier:
  assumes "code c < 128"
  shows "from_utf8_lossy (xs @ c # ys) = from_utf8_lossy xs @ c # from_utf8_lossy ys"
proof (induction xs rule: from_utf8_lossy.induct)
  case 1
  then show ?case using assms by simp
next
  case (2 b bs)
  obtain v n where step: "utf8_step (b # bs) = (v, n)" by force
  then have n: "n \<le> Suc (length bs)" "0 < n"
    using utf8_step_le [of b bs] utf8_step_pos [of b bs] by simp_all
  have "from_utf8_lossy (drop (n - 1) bs @ c # ys) =
      from_utf8_lossy (drop (n - 1) bs) @ c # from_utf8_lossy ys"
    using "2" [OF step [symmetric] refl] .
  moreover have "drop (n - 1) (bs @ c # ys) = drop (n - 1) bs @ c # ys"
    using n by simp
  moreover have "take n (b # bs @ c # ys) = take n (b # bs)"
    using n by (cases n) simp_all
  ultimately show ?case
    using step utf8_step_barrier [OF assms, of b bs ys] by simp
qed

theorem utf8_valid_barrier:
  assumes "code c < 128"
  shows "utf8_valid (xs @ c # ys) \<longleftrightarrow> utf8_valid xs \<and> utf8_valid ys"
proof (induction xs rule: utf8_valid.induct)
  case 1
  then show ?case using assms by simp
next
  case (2 b bs)
  obtain v n where step: "utf8_step (b # bs) = (v, n)" by force
  then have n: "n \<le> Suc (length bs)" "0 < n"
    using utf8_step_le [of b bs] utf8_step_pos [of b bs] by simp_all
  have "utf8_valid (drop (n - 1) bs @ c # ys) \<longleftrightarrow> utf8_valid (drop (n - 1) bs) \<and> utf8_valid ys"
    using "2" [OF step [symmetric] refl] .
  moreover have "drop (n - 1) (bs @ c # ys) = drop (n - 1) bs @ c # ys"
    using n by simp
  ultimately show ?case
    using step utf8_step_barrier [OF assms, of b bs ys] by auto
qed

text \<open>Valid input is unchanged by lossy decoding.\<close>

theorem from_utf8_lossy_valid: "utf8_valid bs \<Longrightarrow> from_utf8_lossy bs = bs"
proof (induction bs rule: utf8_valid.induct)
  case (2 b bs)
  obtain v n where step: "utf8_step (b # bs) = (v, n)" by force
  then have n: "0 < n" using utf8_step_pos [of b bs] by simp
  from "2.prems" step have v: "v" "utf8_valid (drop (n - 1) bs)" by simp_all
  then have "from_utf8_lossy (drop (n - 1) bs) = drop (n - 1) bs"
    using "2.IH" [OF step [symmetric] refl] by simp
  then show ?case using step v n by (cases n) simp_all
qed simp

text \<open>Lossy decoding introduces no byte but those of the replacement character.\<close>

lemma lossy_set: "set (from_utf8_lossy xs) \<subseteq> set xs \<union> set replacement"
proof (induction xs rule: from_utf8_lossy.induct)
  case (2 b bs)
  obtain v n where step: "utf8_step (b # bs) = (v, n)" by force
  have eq: "from_utf8_lossy (b # bs) =
      (if v then take n (b # bs) else replacement) @ from_utf8_lossy (drop (n - 1) bs)"
    using step by simp
  have "set (from_utf8_lossy (drop (n - 1) bs)) \<subseteq> set (drop (n - 1) bs) \<union> set replacement"
    by (rule "2.IH" [OF step [symmetric] refl])
  moreover have "set (drop (n - 1) bs) \<subseteq> set (b # bs)"
    by (rule subset_trans [OF set_drop_subset]) auto
  moreover have "set (take n (b # bs)) \<subseteq> set (b # bs)"
    by (rule set_take_subset)
  ultimately show ?case unfolding eq set_append by (cases v) (simp_all only: if_True if_False, blast+)
qed simp

section \<open>Characters of a valid string\<close>

text \<open>A chunk of bytes that decodes as one character, whatever follows it.\<close>

definition utf8_chunk :: "bytes \<Rightarrow> bool" where
  "utf8_chunk c \<longleftrightarrow> c \<noteq> [] \<and> (\<forall>ys. utf8_step (c @ ys) = (True, length c))"

lemma utf8_tail_take:
  "utf8_tail n bs = (True, k) \<Longrightarrow> k = n \<and> utf8_tail n (take n bs @ ys) = (True, n)"
  by (induction n bs arbitrary: k rule: utf8_tail.induct) (auto split: prod.splits if_splits)

lemma utf8_step_chunk:
  assumes "utf8_step (b # bs) = (True, n)"
  shows "utf8_chunk (take n (b # bs))"
proof -
  have step: "utf8_step (take n (b # bs) @ ys) = (True, n)" for ys
  proof -
    consider "code b < 128" | "194 \<le> code b" "code b < 224" | "224 \<le> code b" "code b < 240"
      | "240 \<le> code b" "code b < 245"
    proof (cases "code b < 128 \<or> 194 \<le> code b \<and> code b < 224 \<or> 224 \<le> code b \<and> code b < 240 \<or>
        240 \<le> code b \<and> code b < 245")
      case False
      then have "utf8_step (b # bs) = (False, 1)" by (auto simp: utf8_step.simps(2))
      with assms have False by simp
      then show thesis ..
    qed (use that in blast)
    then show ?thesis
    proof cases
      case 1
      with assms have "n = 1" by simp
      with 1 show ?thesis by simp
    next
      case 2
      then have e: "utf8_step (b # xs) = (fst (utf8_tail 1 xs), Suc (snd (utf8_tail 1 xs)))" for xs
        by (simp add: utf8_step.simps(2) case_prod_beta)
      with assms obtain k where k: "utf8_tail 1 bs = (True, k)" "n = Suc k"
        by (cases "utf8_tail 1 bs") simp
      with utf8_tail_take [OF k(1), of ys] show ?thesis by (simp add: e)
    next
      case 3
      then have e: "utf8_step (b # b1 # xs) =
          (if second3_ok (code b) b1 then (fst (utf8_tail 1 xs), Suc (Suc (snd (utf8_tail 1 xs))))
           else (False, 1))" for b1 xs
        by (simp add: utf8_step.simps(2) case_prod_beta)
      have "bs \<noteq> []" using 3 assms by (auto simp: utf8_step.simps(2))
      then obtain b1 bs1 where bs: "bs = b1 # bs1" by (cases bs) auto
      with assms e obtain k where k: "utf8_tail 1 bs1 = (True, k)" "n = Suc (Suc k)"
          "second3_ok (code b) b1"
        by (cases "utf8_tail 1 bs1") (auto split: if_splits)
      with utf8_tail_take [OF k(1), of ys] show ?thesis by (simp add: e bs)
    next
      case 4
      then have e: "utf8_step (b # b1 # xs) =
          (if second4_ok (code b) b1 then (fst (utf8_tail 2 xs), Suc (Suc (snd (utf8_tail 2 xs))))
           else (False, 1))" for b1 xs
        by (simp add: utf8_step.simps(2) case_prod_beta)
      have "bs \<noteq> []" using 4 assms by (auto simp: utf8_step.simps(2))
      then obtain b1 bs1 where bs: "bs = b1 # bs1" by (cases bs) auto
      with assms e obtain k where k: "utf8_tail 2 bs1 = (True, k)" "n = Suc (Suc k)"
          "second4_ok (code b) b1"
        by (cases "utf8_tail 2 bs1") (auto split: if_splits)
      with utf8_tail_take [OF k(1), of ys] show ?thesis by (simp add: e bs)
    qed
  qed
  moreover have "0 < n" "n \<le> Suc (length bs)"
    using utf8_step_pos [of b bs] utf8_step_le [of b bs] assms by simp_all
  ultimately show ?thesis by (simp add: utf8_chunk_def)
qed

lemma concat_chars [simp]: "concat (chars s) = s"
proof (induction s rule: chars.induct)
  case (2 b bs)
  then show ?case
    using utf8_step_pos [of b bs]
    by (cases "snd (utf8_step (b # bs))") (simp_all add: Let_def)
qed simp

lemma chars_chunks: "utf8_valid s \<Longrightarrow> list_all utf8_chunk (chars s)"
proof (induction s rule: chars.induct)
  case (2 b bs)
  obtain v n where n: "utf8_step (b # bs) = (v, n)" by force
  with "2.prems" have "v" "utf8_valid (drop (n - 1) bs)" by (simp_all add: Let_def)
  with 2 n utf8_step_chunk [of b bs n] show ?case by (simp add: Let_def)
qed simp

lemma chunk_Cons:
  assumes "utf8_chunk c"
  obtains b bs where "c = b # bs" "utf8_step (b # bs @ ys) = (True, Suc (length bs))"
  using assms by (cases c) (auto simp: utf8_chunk_def)

lemma concat_chunks:
  "list_all utf8_chunk cs \<Longrightarrow> utf8_valid (concat cs) \<and> chars (concat cs) = cs"
proof (induction cs)
  case (Cons c cs)
  then obtain b bs where "c = b # bs" "utf8_step (b # bs @ concat cs) = (True, Suc (length bs))"
    using chunk_Cons [of c "concat cs"] by auto
  with Cons show ?case by (simp add: Let_def)
qed simp

lemma utf8_chunk_single: "utf8_chunk [c] \<longleftrightarrow> code c < 128"
proof
  assume "utf8_chunk [c]"
  then have "utf8_step [c] = (True, 1)" by (auto simp: utf8_chunk_def dest: spec [of _ "[]"])
  then show "code c < 128" by (auto simp: utf8_step.simps(2) split: if_splits)
qed (simp add: utf8_chunk_def)

lemma utf8_chunk_multi:
  "utf8_chunk (b # b' # bs) \<Longrightarrow> 128 \<le> code b"
  by (rule ccontr) (auto simp: utf8_chunk_def)

end
