(* ===== verification/Json_Number.thy ===== *)
theory Json_Number
  imports Complex_Main Utf8
begin

text \<open>
  Integers on the wire, kept as their JSON spelling and never converted through floating point:
  \<open>JsonInteger\<close> (fastmcp-protocol/src/common_types.rs) and JSON-RPC request identifiers with
  their correlation keys (jsonrpc.rs).  The reference is the JSON grammar (\<open>wf_number\<close>,
  \<open>render\<close>) and the rational value of a spelling (\<open>number_value\<close>); the lemmas relate each of the
  code's digit-string algorithms to that value.  \<open>isize\<close> has 64 bits.
\<close>

section \<open>Text and integer parsing of the standard library\<close>

definition is_ascii_digit :: "byte \<Rightarrow> bool" where
  "is_ascii_digit c \<longleftrightarrow> 48 \<le> code c \<and> code c \<le> 57"

definition strip_prefix :: "bytes \<Rightarrow> bytes \<Rightarrow> bytes option" where
  "strip_prefix pre s = (if take (length pre) s = pre then Some (drop (length pre) s) else None)"

definition split_once :: "(byte \<Rightarrow> bool) \<Rightarrow> bytes \<Rightarrow> (bytes \<times> bytes) option" where
  "split_once P s =
     (case position P s of None \<Rightarrow> None | Some i \<Rightarrow> Some (take i s, drop (Suc i) s))"

definition i32_max :: int where
  "i32_max = 2147483647"

definition i64_max :: int where
  "i64_max = 9223372036854775807"

definition i128_max :: int where
  "i128_max = 170141183460469231731687303715884105727"

definition fits :: "int \<Rightarrow> int \<Rightarrow> int option" where
  "fits hi x = (if - hi - 1 \<le> x \<and> x \<le> hi then Some x else None)"

text \<open>\<open>str::parse\<close> for a signed integer type with largest value \<open>hi\<close>, and for \<open>u64\<close>.\<close>

definition parse_signed :: "int \<Rightarrow> bytes \<Rightarrow> int option" where
  "parse_signed hi s =
     (let (negative, ds) =
        (case strip_prefix ''-'' s of Some ds \<Rightarrow> (True, ds)
         | None \<Rightarrow> (False, case strip_prefix ''+'' s of Some ds \<Rightarrow> ds | None \<Rightarrow> s))
      in if ds = [] \<or> \<not> list_all is_ascii_digit ds then None
         else fits hi (if negative then - int (read_nat ds) else int (read_nat ds)))"

definition parse_u64 :: "bytes \<Rightarrow> nat option" where
  "parse_u64 s =
     (let ds = (case strip_prefix ''+'' s of Some ds \<Rightarrow> ds | None \<Rightarrow> s)
      in if ds = [] \<or> \<not> list_all is_ascii_digit ds then None
         else if read_nat ds \<le> u64_max then Some (read_nat ds) else None)"

text \<open>\<open>to_string\<close> of a signed integer.\<close>

definition show_int :: "int \<Rightarrow> bytes" where
  "show_int n = (if n < 0 then CHR ''-'' # show_nat (nat (- n)) else show_nat (nat n))"

text \<open>A \<open>try_fold\<close> of digits into a signed accumulator with largest value \<open>hi\<close>.\<close>

fun fold_digits :: "int \<Rightarrow> int \<Rightarrow> bytes \<Rightarrow> int option" where
  "fold_digits hi acc [] = Some acc"
| "fold_digits hi acc (c # cs) =
     Option.bind (fits hi (acc * 10)) (\<lambda>m.
     Option.bind (fits hi (m + int (code c - 48))) (\<lambda>v. fold_digits hi v cs))"

section \<open>JSON integers (common\_types.rs)\<close>

datatype common_type_error = Invalid string | TooLong string

definition max_json_integer_bytes :: nat where
  "max_json_integer_bytes = 4 * 1024"

definition max_json_integer_exponent_abs :: int where
  "max_json_integer_exponent_abs = 10000"

definition is_exp_mark :: "byte \<Rightarrow> bool" where
  "is_exp_mark c \<longleftrightarrow> c = CHR ''e'' \<or> c = CHR ''E''"

definition is_point :: "byte \<Rightarrow> bool" where
  "is_point c \<longleftrightarrow> c = CHR ''.''"

definition is_zero_digit :: "byte \<Rightarrow> bool" where
  "is_zero_digit c \<longleftrightarrow> c = CHR ''0''"

definition parse_bounded_json_integer_exponent :: "bytes \<Rightarrow> common_type_error + int" where
  "parse_bounded_json_integer_exponent value =
     (let (negative, digits) =
        (case strip_prefix ''-'' value of Some digits \<Rightarrow> (True, digits)
         | None \<Rightarrow>
             (False, case strip_prefix ''+'' value of Some digits \<Rightarrow> digits | None \<Rightarrow> value))
      in if digits = [] \<or> \<not> list_all is_ascii_digit digits then Inl (Invalid ''JSON integer'')
         else case fold_digits i32_max 0 digits of
             None \<Rightarrow> Inl (TooLong ''JSON integer exponent'')
           | Some magnitude \<Rightarrow>
               if magnitude > max_json_integer_exponent_abs
               then Inl (TooLong ''JSON integer exponent'')
               else Inr (if negative then - magnitude else magnitude))"

definition split_exponent ::
    "(bytes \<Rightarrow> common_type_error + int) \<Rightarrow> bytes \<Rightarrow> common_type_error + (bytes \<times> int)" where
  "split_exponent parse value =
     (case position is_exp_mark value of
        Some index \<Rightarrow>
          (case parse (drop (Suc index) value) of
             Inl e \<Rightarrow> Inl e | Inr exponent \<Rightarrow> Inr (take index value, exponent))
      | None \<Rightarrow> Inr (value, 0))"

definition whole_ok :: "bytes \<Rightarrow> bool" where
  "whole_ok whole \<longleftrightarrow>
     whole = ''0'' \<or>
     (whole \<noteq> [] \<and> is_ascii_digit (hd whole) \<and> hd whole \<noteq> CHR ''0'' \<and>
      list_all is_ascii_digit whole)"

definition validate_json_integer :: "bytes \<Rightarrow> common_type_error + unit" where
  "validate_json_integer value =
     (if length value > max_json_integer_bytes then Inl (TooLong ''JSON integer'')
      else case split_exponent parse_bounded_json_integer_exponent value of
        Inl e \<Rightarrow> Inl e
      | Inr (mantissa, exponent) \<Rightarrow>
          let mantissa =
                (case strip_prefix ''-'' mantissa of Some m \<Rightarrow> m | None \<Rightarrow> mantissa);
              (whole, fraction) =
                (case split_once is_point mantissa of
                   Some (whole, fraction) \<Rightarrow> (whole, Some fraction)
                 | None \<Rightarrow> (mantissa, None))
          in if whole = [] \<or> \<not> whole_ok whole \<or>
                (case fraction of None \<Rightarrow> False
                 | Some fraction \<Rightarrow> fraction = [] \<or> \<not> list_all is_ascii_digit fraction)
             then Inl (Invalid ''JSON integer'')
             else
               let fraction = (case fraction of None \<Rightarrow> [] | Some fraction \<Rightarrow> fraction);
                   digits = whole @ fraction
               in if list_all is_zero_digit digits then Inr ()
                  else case fits i64_max (int (length fraction) - exponent) of
                      None \<Rightarrow> Inl (TooLong ''JSON integer exponent'')
                    | Some scale \<Rightarrow>
                        if scale \<le> 0 \<or>
                           nat scale \<le> length (takeWhile is_zero_digit (rev digits))
                        then Inr () else Inl (Invalid ''JSON integer''))"

definition json_integer_from_str :: "bytes \<Rightarrow> common_type_error + bytes" where
  "json_integer_from_str value =
     (case validate_json_integer value of Inl e \<Rightarrow> Inl e | Inr _ \<Rightarrow> Inr value)"

text \<open>
  The first loop of \<open>json_integer_as_i32\<close> accumulates the retained digits (leading zeroes
  skipped), the second one appends zeroes; both stop with \<open>None\<close> beyond \<open>maximum\<close>.
\<close>

fun i32_digits :: "int \<Rightarrow> int \<Rightarrow> bool \<Rightarrow> bytes \<Rightarrow> (int \<times> bool) option" where
  "i32_digits maximum magnitude saw_nonzero [] = Some (magnitude, saw_nonzero)"
| "i32_digits maximum magnitude saw_nonzero (digit # digits) =
     (if \<not> saw_nonzero \<and> digit = CHR ''0''
      then i32_digits maximum magnitude saw_nonzero digits
      else Option.bind (fits i64_max (magnitude * 10)) (\<lambda>m.
           Option.bind (fits i64_max (m + int (code digit - 48))) (\<lambda>magnitude.
             if magnitude > maximum then None
             else i32_digits maximum magnitude True digits)))"

fun i32_zeroes :: "int \<Rightarrow> int \<Rightarrow> nat \<Rightarrow> int option" where
  "i32_zeroes maximum magnitude 0 = Some magnitude"
| "i32_zeroes maximum magnitude (Suc n) =
     Option.bind (fits i64_max (magnitude * 10)) (\<lambda>magnitude.
       if magnitude > maximum then None else i32_zeroes maximum magnitude n)"

definition json_integer_as_i32 :: "bytes \<Rightarrow> int option" where
  "json_integer_as_i32 value =
     (case split_exponent parse_bounded_json_integer_exponent value of
        Inl _ \<Rightarrow> None
      | Inr (mantissa, exponent) \<Rightarrow>
          let (negative, mantissa) =
                (case strip_prefix ''-'' mantissa of
                   Some mantissa \<Rightarrow> (True, mantissa) | None \<Rightarrow> (False, mantissa));
              (whole, fraction) =
                (case split_once is_point mantissa of Some p \<Rightarrow> p | None \<Rightarrow> (mantissa, []))
          in if list_all is_zero_digit (whole @ fraction) then Some 0
             else
               Option.bind (fits i64_max (int (length fraction) - exponent)) (\<lambda>scale.
               Option.bind (checked_add (length whole) (length fraction)) (\<lambda>source_length.
               let retained_source_length =
                     (if scale > 0 then source_length - nat scale else source_length);
                   appended_zeroes = (if scale < 0 then nat (- scale) else 0);
                   maximum = (if negative then i32_max + 1 else i32_max)
               in Option.bind
                    (i32_digits maximum 0 False (take retained_source_length (whole @ fraction)))
                    (\<lambda>(magnitude, saw_nonzero).
                     if \<not> saw_nonzero then Some 0
                     else if appended_zeroes \<ge> 10 then None
                     else Option.bind (i32_zeroes maximum magnitude appended_zeroes) (\<lambda>magnitude.
                       if negative
                       then (if magnitude = i32_max + 1 then Some (- i32_max - 1)
                             else Some (- magnitude))
                       else Some magnitude)))))"

section \<open>Request identifiers (jsonrpc.rs)\<close>

datatype request_id = IdNumber int | IdInteger bytes | IdString bytes

datatype correlation_key = KeyString bytes | KeyInteger bytes

definition max_jsonrpc_string_id_encoded_bytes :: nat where
  "max_jsonrpc_string_id_encoded_bytes = 256"

definition max_raw_json_number_bytes :: nat where
  "max_raw_json_number_bytes = 4 * 1024"

definition max_raw_json_exponent :: int where
  "max_raw_json_exponent = 10000"

text \<open>Bytes of one character in the canonical JSON encoding of a string.\<close>

definition encoded_char_len :: "bytes \<Rightarrow> nat" where
  "encoded_char_len character =
     (case character of
        [c] \<Rightarrow>
          if c \<in> {CHR 0x22, CHR 0x5C, CHR 0x08, CHR 0x0C, CHR 0x0A, CHR 0x0D, CHR 0x09} then 2
          else if code c \<le> 31 then 6
          else 1
      | _ \<Rightarrow> length character)"

definition encoded_json_string_len :: "bytes \<Rightarrow> nat" where
  "encoded_json_string_len value =
     fold (\<lambda>character len. sat_add len (encoded_char_len character)) (chars value) 2"

fun trailing_zeroes :: "bytes \<Rightarrow> nat" where
  "trailing_zeroes [] = 0"
| "trailing_zeroes (digit # rest) =
     (if digit = CHR ''0'' then Suc (trailing_zeroes rest)
      else if digit \<noteq> CHR ''.'' then 0
      else trailing_zeroes rest)"

text \<open>The integer part at the cursor: its digits and the rest, or the refusal of the token.\<close>

definition scan_whole :: "bytes \<Rightarrow> (bytes \<times> bytes) option" where
  "scan_whole rest =
     (case rest of
        [] \<Rightarrow> None
      | c # cs \<Rightarrow>
          if c = CHR ''0'' then
            (if cs \<noteq> [] \<and> is_ascii_digit (hd cs) then None else Some ([c], cs))
          else if is_ascii_digit c then
            Some (c # takeWhile is_ascii_digit cs, dropWhile is_ascii_digit cs)
          else None)"

definition scan_fraction :: "bytes \<Rightarrow> (bytes \<times> bytes) option" where
  "scan_fraction rest =
     (case rest of
        c # cs \<Rightarrow>
          if c = CHR ''.'' then
            (if takeWhile is_ascii_digit cs = [] then None
             else Some (takeWhile is_ascii_digit cs, dropWhile is_ascii_digit cs))
          else Some ([], rest)
      | [] \<Rightarrow> Some ([], rest))"

definition scan_exponent :: "bytes \<Rightarrow> int option" where
  "scan_exponent rest =
     (case rest of
        [] \<Rightarrow> Some 0
      | c # cs \<Rightarrow>
          if is_exp_mark c then
            let (negative, digits) =
                  (case cs of
                     [] \<Rightarrow> (False, cs)
                   | s # ds \<Rightarrow>
                       if s = CHR ''-'' then (True, ds)
                       else if s = CHR ''+'' then (False, ds) else (False, cs))
            in if digits = [] \<or> \<not> list_all is_ascii_digit digits then None
               else case parse_signed i64_max digits of
                   None \<Rightarrow> None
                 | Some value \<Rightarrow>
                     if value \<le> max_raw_json_exponent
                     then Some (if negative then - value else value) else None
          else None)"

definition is_mathematical_integer :: "bytes \<Rightarrow> bool" where
  "is_mathematical_integer lexeme =
     (if length lexeme > max_raw_json_number_bytes then False
      else
        let rest = (case strip_prefix ''-'' lexeme of Some r \<Rightarrow> r | None \<Rightarrow> lexeme)
        in case scan_whole rest of
             None \<Rightarrow> False
           | Some (whole, rest) \<Rightarrow>
               (case scan_fraction rest of
                  None \<Rightarrow> False
                | Some (fraction, rest') \<Rightarrow>
                    let coefficient = whole @ take (length rest - length rest') rest;
                        zeroes = trailing_zeroes (rev coefficient)
                    in case scan_exponent rest' of
                         None \<Rightarrow> False
                       | Some exponent \<Rightarrow>
                           let scale = int (length fraction) - exponent
                           in scale \<le> 0 \<or> nat scale \<le> zeroes))"

definition canonical_integer_lexeme :: "bytes \<Rightarrow> bytes" where
  "canonical_integer_lexeme lexeme =
     (let (negative, unsigned) =
            (case strip_prefix ''-'' lexeme of Some u \<Rightarrow> (True, u) | None \<Rightarrow> (False, lexeme));
          (coefficient, exponent) =
            (case position is_exp_mark unsigned of
               Some index \<Rightarrow>
                 (take index unsigned,
                  case parse_signed i64_max (drop (Suc index) unsigned) of
                    Some e \<Rightarrow> e | None \<Rightarrow> 0)
             | None \<Rightarrow> (unsigned, 0));
          (whole, fraction) =
            (case split_once is_point coefficient of Some p \<Rightarrow> p | None \<Rightarrow> (coefficient, []));
          digits = dropWhile is_zero_digit (whole @ fraction)
      in if digits = [] then ''0''
         else
           let scale = int (length fraction) - exponent;
               digits = (if scale > 0 then take (length digits - nat scale) digits
                         else digits @ replicate (nat (- scale)) CHR ''0'')
           in if negative then CHR ''-'' # digits else digits)"

definition id_validate :: "request_id \<Rightarrow> string + unit" where
  "id_validate rid =
     (case rid of
        IdString value \<Rightarrow>
          if encoded_json_string_len value > max_jsonrpc_string_id_encoded_bytes
          then Inl ''JSON-RPC string id exceeds byte limit'' else Inr ()
      | IdInteger lexeme \<Rightarrow>
          if \<not> is_mathematical_integer lexeme
          then Inl ''JSON-RPC numeric id must be a mathematical integer'' else Inr ()
      | IdNumber _ \<Rightarrow> Inr ())"

definition correlation_key_of :: "request_id \<Rightarrow> string + correlation_key" where
  "correlation_key_of rid =
     (case id_validate rid of
        Inl e \<Rightarrow> Inl e
      | Inr _ \<Rightarrow>
          (case rid of
             IdNumber value \<Rightarrow> Inr (KeyInteger (show_int value))
           | IdInteger lexeme \<Rightarrow> Inr (KeyInteger (canonical_integer_lexeme lexeme))
           | IdString value \<Rightarrow> Inr (KeyString value)))"

definition correlates_with :: "request_id \<Rightarrow> request_id \<Rightarrow> bool" where
  "correlates_with a b =
     (case (correlation_key_of a, correlation_key_of b) of
        (Inr left, Inr right) \<Rightarrow> left = right
      | _ \<Rightarrow> False)"

text \<open>
  What \<open>RequestId::deserialize\<close> sees of a JSON value: a number as its spelling, a string, or
  another kind of value.
\<close>

datatype id_value = NumberValue bytes | StringValue bytes | OtherValue

definition id_deserialize :: "id_value \<Rightarrow> string + request_id" where
  "id_deserialize value =
     (case value of
        NumberValue lexeme \<Rightarrow>
          (case (if list_ex (\<lambda>c. is_point c \<or> is_exp_mark c) lexeme \<or> lexeme = ''-0'' then None
                 else parse_signed i64_max lexeme) of
             Some value \<Rightarrow> Inr (IdNumber value)
           | None \<Rightarrow>
               if is_mathematical_integer lexeme then Inr (IdInteger lexeme)
               else Inl ''JSON-RPC numeric id must be a mathematical integer'')
      | StringValue value \<Rightarrow>
          if encoded_json_string_len value > max_jsonrpc_string_id_encoded_bytes
          then Inl ''JSON-RPC string id exceeds byte limit'' else Inr (IdString value)
      | OtherValue \<Rightarrow> Inl ''JSON-RPC id must be a string or mathematical integer'')"

section \<open>The JSON grammar and the value of a number\<close>

record number_lexeme =
  lx_neg :: bool
  lx_whole :: bytes
  lx_frac :: "bytes option"
  lx_exp :: "(byte \<times> bytes) option"

definition fraction_digits :: "number_lexeme \<Rightarrow> bytes" where
  "fraction_digits d = (case lx_frac d of None \<Rightarrow> [] | Some f \<Rightarrow> f)"

definition mantissa_text :: "number_lexeme \<Rightarrow> bytes" where
  "mantissa_text d =
     lx_whole d @ (case lx_frac d of None \<Rightarrow> [] | Some f \<Rightarrow> CHR ''.'' # f)"

definition exponent_text :: "number_lexeme \<Rightarrow> bytes" where
  "exponent_text d = (case lx_exp d of None \<Rightarrow> [] | Some (m, t) \<Rightarrow> m # t)"

definition unsigned_text :: "number_lexeme \<Rightarrow> bytes" where
  "unsigned_text d = mantissa_text d @ exponent_text d"

definition render :: "number_lexeme \<Rightarrow> bytes" where
  "render d = (if lx_neg d then [CHR ''-''] else []) @ unsigned_text d"

definition sign_split :: "bytes \<Rightarrow> bool \<times> bytes" where
  "sign_split t =
     (case t of [] \<Rightarrow> (False, [])
      | c # cs \<Rightarrow>
          if c = CHR ''-'' then (True, cs) else if c = CHR ''+'' then (False, cs) else (False, t))"

definition exp_ok :: "bytes \<Rightarrow> bool" where
  "exp_ok t \<longleftrightarrow> snd (sign_split t) \<noteq> [] \<and> list_all is_ascii_digit (snd (sign_split t))"

definition exp_value :: "bytes \<Rightarrow> int" where
  "exp_value t =
     (if fst (sign_split t) then - int (read_nat (snd (sign_split t)))
      else int (read_nat (snd (sign_split t))))"

text \<open>The integer part of a JSON number: zero, or digits that do not start with zero.\<close>

definition json_whole :: "bytes \<Rightarrow> bool" where
  "json_whole w \<longleftrightarrow>
     (case w of
        [] \<Rightarrow> False
      | d # ds \<Rightarrow> w = ''0'' \<or> d \<in> set ''123456789'' \<and> set ds \<subseteq> set ''0123456789'')"

lemma json_whole_eq [simp]: "json_whole w = whole_ok w"
proof -
  have digit: "is_ascii_digit c \<longleftrightarrow> c \<in> set ''0123456789''" for c
  proof -
    have "48 \<le> k \<and> k \<le> 57 \<longleftrightarrow> k \<in> {48, 49, 50, 51, 52, 53, 54, 55, 56, 57}" for k :: nat
      by (simp, presburger)
    then have "is_ascii_digit c \<longleftrightarrow> code c \<in> {48, 49, 50, 51, 52, 53, 54, 55, 56, 57}"
      unfolding is_ascii_digit_def .
    moreover have "c \<in> set ''0123456789'' \<longleftrightarrow> code c \<in> code ` set ''0123456789''"
      by (intro inj_image_mem_iff [symmetric] injI) (metis char_of_char)
    ultimately show ?thesis by simp
  qed
  have "c \<in> set ''123456789'' \<longleftrightarrow> c \<in> set ''0123456789'' \<and> c \<noteq> CHR ''0''" for c :: byte by auto
  then have nonzero: "c \<in> set ''123456789'' \<longleftrightarrow> is_ascii_digit c \<and> c \<noteq> CHR ''0''" for c
    unfolding digit .
  have digits: "set ds \<subseteq> set ''0123456789'' \<longleftrightarrow> list_all is_ascii_digit ds" for ds
    unfolding list_all_iff digit by (rule subset_iff [unfolded Ball_def [symmetric]])
  show ?thesis unfolding json_whole_def nonzero digits whole_ok_def by (cases w) auto
qed

definition wf_number :: "number_lexeme \<Rightarrow> bool" where
  "wf_number d \<longleftrightarrow>
     json_whole (lx_whole d) \<and>
     (case lx_frac d of None \<Rightarrow> True | Some f \<Rightarrow> f \<noteq> [] \<and> list_all is_ascii_digit f) \<and>
     (case lx_exp d of None \<Rightarrow> True | Some (m, t) \<Rightarrow> is_exp_mark m \<and> exp_ok t)"

definition number_digits :: "number_lexeme \<Rightarrow> bytes" where
  "number_digits d = lx_whole d @ fraction_digits d"

definition number_exponent :: "number_lexeme \<Rightarrow> int" where
  "number_exponent d = (case lx_exp d of None \<Rightarrow> 0 | Some (m, t) \<Rightarrow> exp_value t)"

definition number_scale :: "number_lexeme \<Rightarrow> int" where
  "number_scale d = int (length (fraction_digits d)) - number_exponent d"

definition number_value :: "number_lexeme \<Rightarrow> rat" where
  "number_value d =
     (if lx_neg d then -1 else 1) * of_nat (read_nat (number_digits d)) *
     10 powi (- number_scale d)"

text \<open>A deterministic reading of any text, of which every algorithm here is a function.\<close>

definition split_number :: "bytes \<Rightarrow> number_lexeme" where
  "split_number s =
     (let (neg, u) = (case strip_prefix ''-'' s of Some u \<Rightarrow> (True, u) | None \<Rightarrow> (False, s));
          (m, e) = (case position is_exp_mark u of
                      Some i \<Rightarrow> (take i u, Some (u ! i, drop (Suc i) u)) | None \<Rightarrow> (u, None));
          (w, f) = (case split_once is_point m of
                      Some (w, f) \<Rightarrow> (w, Some f) | None \<Rightarrow> (m, None))
      in \<lparr>lx_neg = neg, lx_whole = w, lx_frac = f, lx_exp = e\<rparr>)"

definition split_form :: "number_lexeme \<Rightarrow> bool" where
  "split_form d \<longleftrightarrow>
     (\<forall>c \<in> set (mantissa_text d). \<not> is_exp_mark c) \<and>
     (\<forall>c \<in> set (lx_whole d). \<not> is_point c) \<and>
     (case lx_exp d of None \<Rightarrow> True | Some (m, t) \<Rightarrow> is_exp_mark m) \<and>
     (lx_neg d \<or> take 1 (unsigned_text d) \<noteq> ''-'')"

lemmas text_defs = mantissa_text_def exponent_text_def unsigned_text_def fraction_digits_def

lemma strip_prefix_single:
  "strip_prefix [c] s = (case s of [] \<Rightarrow> None | x # xs \<Rightarrow> if x = c then Some xs else None)"
  by (auto simp: strip_prefix_def split: list.splits)

lemma position_first:
  "\<forall>c \<in> set xs. \<not> P c \<Longrightarrow> P y \<Longrightarrow> position P (xs @ y # ys) = Some (length xs)"
  by (induction xs) auto

lemma split_once_at:
  "\<forall>c \<in> set xs. \<not> P c \<Longrightarrow> P y \<Longrightarrow> split_once P (xs @ y # ys) = Some (xs, ys)"
  by (simp add: split_once_def position_first)

lemma split_once_None: "\<forall>c \<in> set xs. \<not> P c \<Longrightarrow> split_once P xs = None"
  using position_None_iff [of P xs] by (simp add: split_once_def)

lemma split_once_Some_iff:
  "split_once P s = Some (a, b) \<longleftrightarrow> (\<exists>y. s = a @ y # b \<and> P y \<and> (\<forall>c \<in> set a. \<not> P c))"
proof
  assume "split_once P s = Some (a, b)"
  then obtain i where i: "position P s = Some i" and ab: "a = take i s" "b = drop (Suc i) s"
    by (auto simp: split_once_def split: option.splits)
  from i obtain ys y zs where "s = ys @ y # zs" "length ys = i" "P y" "\<forall>x \<in> set ys. \<not> P x"
    by (rule position_Some_split)
  with ab show "\<exists>y. s = a @ y # b \<and> P y \<and> (\<forall>c \<in> set a. \<not> P c)" by auto
qed (auto simp: split_once_at)

lemma split_once_None_iff: "split_once P s = None \<longleftrightarrow> (\<forall>c \<in> set s. \<not> P c)"
  by (auto simp: split_once_def position_None_iff [symmetric] split: option.splits)

lemma split_number_form: "split_form (split_number s)"
  and render_split_number: "render (split_number s) = s"
proof -
  define sg where "sg = (case strip_prefix ''-'' s of Some u \<Rightarrow> (True, u) | None \<Rightarrow> (False, s))"
  obtain neg u where sg: "sg = (neg, u)" by force
  have s: "s = (if neg then [CHR ''-''] else []) @ u" and u: "neg \<or> take 1 u \<noteq> ''-''"
    using sg by (auto simp: sg_def strip_prefix_single split: list.splits if_splits)
  define me where "me = (case position is_exp_mark u of
    Some i \<Rightarrow> (take i u, Some (u ! i, drop (Suc i) u)) | None \<Rightarrow> (u, None))"
  obtain m e where me: "me = (m, e)" by force
  have um: "u = m @ (case e of None \<Rightarrow> [] | Some (x, t) \<Rightarrow> x # t)"
    and m: "\<forall>c \<in> set m. \<not> is_exp_mark c"
    and e: "case e of None \<Rightarrow> True | Some (x, t) \<Rightarrow> is_exp_mark x"
  proof (atomize(full), cases "position is_exp_mark u")
    case None
    then show "u = m @ (case e of None \<Rightarrow> [] | Some (x, t) \<Rightarrow> x # t) \<and>
        (\<forall>c \<in> set m. \<not> is_exp_mark c) \<and> (case e of None \<Rightarrow> True | Some (x, t) \<Rightarrow> is_exp_mark x)"
      using me position_None_iff [of is_exp_mark u] by (auto simp: me_def)
  next
    case (Some i)
    then obtain ys y zs where "u = ys @ y # zs" "length ys = i" "is_exp_mark y"
        "\<forall>x \<in> set ys. \<not> is_exp_mark x"
      by (rule position_Some_split)
    with Some me show "u = m @ (case e of None \<Rightarrow> [] | Some (x, t) \<Rightarrow> x # t) \<and>
        (\<forall>c \<in> set m. \<not> is_exp_mark c) \<and> (case e of None \<Rightarrow> True | Some (x, t) \<Rightarrow> is_exp_mark x)"
      by (auto simp: me_def)
  qed
  define wf where "wf = (case split_once is_point m of
    Some (w, f) \<Rightarrow> (w, Some f) | None \<Rightarrow> (m, None))"
  obtain w f where wf: "wf = (w, f)" by force
  have mw: "m = w @ (case f of None \<Rightarrow> [] | Some g \<Rightarrow> CHR ''.'' # g)"
    and w: "\<forall>c \<in> set w. \<not> is_point c"
    using wf by (auto simp: wf_def split_once_Some_iff split_once_None_iff is_point_def
        split: option.splits)
  have d: "split_number s = \<lparr>lx_neg = neg, lx_whole = w, lx_frac = f, lx_exp = e\<rparr>"
    using sg me wf
    by (simp add: split_number_def sg_def [symmetric] me_def [symmetric] wf_def [symmetric])
  show "split_form (split_number s)"
    using m w e u mw um by (auto simp: d split_form_def text_defs split: option.splits)
  show "render (split_number s) = s"
    unfolding d using s um mw by (simp add: render_def text_defs)
qed

lemma split_number_render:
  assumes "split_form d"
  shows "split_number (render d) = d"
proof -
  have a: "(case strip_prefix ''-'' (render d) of Some u \<Rightarrow> (True, u) | None \<Rightarrow> (False, render d)) =
      (lx_neg d, unsigned_text d)"
    using assms by (auto simp: render_def split_form_def strip_prefix_single split: list.splits)
  have b: "(case position is_exp_mark (unsigned_text d) of
      Some i \<Rightarrow> (take i (unsigned_text d), Some (unsigned_text d ! i, drop (Suc i) (unsigned_text d)))
    | None \<Rightarrow> (unsigned_text d, None)) = (mantissa_text d, lx_exp d)"
  proof (cases "lx_exp d")
    case None
    then have "position is_exp_mark (unsigned_text d) = None"
      using assms by (auto simp: position_None_iff split_form_def text_defs)
    with None show ?thesis by (simp add: text_defs)
  next
    case (Some p)
    then obtain m t where p: "lx_exp d = Some (m, t)" by (cases p) auto
    then have "position is_exp_mark (mantissa_text d @ m # t) = Some (length (mantissa_text d))"
      using assms by (intro position_first) (auto simp: split_form_def)
    with p show ?thesis by (simp add: unsigned_text_def exponent_text_def)
  qed
  have c: "(case split_once is_point (mantissa_text d) of
      Some (w, f) \<Rightarrow> (w, Some f) | None \<Rightarrow> (mantissa_text d, None)) = (lx_whole d, lx_frac d)"
  proof (cases "lx_frac d")
    case None
    then show ?thesis
      using assms by (simp add: split_form_def mantissa_text_def split_once_None)
  next
    case (Some f)
    then show ?thesis
      using assms
      by (simp add: split_form_def mantissa_text_def split_once_at is_point_def)
  qed
  show ?thesis
    by (simp add: split_number_def a b c)
qed

lemma digit_not_mark: "is_ascii_digit c \<Longrightarrow> \<not> is_exp_mark c \<and> \<not> is_point c \<and> c \<noteq> CHR ''-'' \<and> c \<noteq> CHR ''+''"
  by (auto simp: is_ascii_digit_def is_exp_mark_def is_point_def)

lemma point_not_mark: "\<not> is_exp_mark CHR ''.''"
  by (simp add: is_exp_mark_def)

lemma whole_ok_digits: "whole_ok w \<Longrightarrow> list_all is_ascii_digit w \<and> w \<noteq> []"
  by (auto simp: whole_ok_def is_ascii_digit_def)

lemma wf_number_form:
  assumes "wf_number d"
  shows "split_form d"
proof -
  have w: "list_all is_ascii_digit (lx_whole d)" "lx_whole d \<noteq> []"
    using assms whole_ok_digits by (auto simp: wf_number_def)
  then have "take 1 (unsigned_text d) \<noteq> ''-''"
    using digit_not_mark by (cases "lx_whole d") (auto simp: text_defs)
  then show ?thesis
    using assms w digit_not_mark point_not_mark
    by (auto simp: split_form_def wf_number_def text_defs list_all_iff split: option.splits)
qed

lemma wf_number_split:
  "(\<exists>d. wf_number d \<and> render d = s) \<longleftrightarrow> wf_number (split_number s)"
  using split_number_render wf_number_form render_split_number by metis

section \<open>Digit strings\<close>

lemma read_nat_Nil [simp]: "read_nat [] = 0"
  by (simp add: read_nat_def)

definition digit_val :: "byte \<Rightarrow> nat" where
  "digit_val c = code c - 48"

lemma read_nat_snoc [simp]: "read_nat (xs @ [c]) = 10 * read_nat xs + digit_val c"
  by (simp add: read_nat_def digit_val_def)

lemma read_nat_append: "read_nat (xs @ ys) = read_nat xs * 10 ^ length ys + read_nat ys"
proof (induction ys rule: rev_induct)
  case (snoc y ys)
  then show ?case
    using read_nat_snoc [of "xs @ ys" y] by (simp add: algebra_simps)
qed simp

lemma read_nat_Cons: "read_nat (c # cs) = digit_val c * 10 ^ length cs + read_nat cs"
  using read_nat_append [of "[c]" cs] by (simp add: read_nat_def digit_val_def)

lemma read_nat_zeroes [simp]: "read_nat (replicate n CHR ''0'') = 0"
  by (induction n) (simp_all add: read_nat_Cons digit_val_def)

lemma zero_digit_val: "is_ascii_digit c \<Longrightarrow> digit_val c = 0 \<longleftrightarrow> is_zero_digit c"
proof -
  assume c: "is_ascii_digit c"
  have "is_zero_digit c \<longleftrightarrow> (of_char c :: nat) = of_char CHR ''0''"
    unfolding of_char_eq_iff is_zero_digit_def ..
  with c show ?thesis by (auto simp: is_ascii_digit_def digit_val_def)
qed

lemma read_nat_eq_0_iff:
  "list_all is_ascii_digit ds \<Longrightarrow> read_nat ds = 0 \<longleftrightarrow> list_all is_zero_digit ds"
  by (induction ds) (auto simp: read_nat_Cons zero_digit_val)

lemma digit_less: "is_ascii_digit c \<Longrightarrow> digit_val c < 10"
  by (auto simp: is_ascii_digit_def digit_val_def)

lemma read_nat_less: "list_all is_ascii_digit ds \<Longrightarrow> read_nat ds < 10 ^ length ds"
proof (induction ds rule: rev_induct)
  case (snoc c ds)
  then show ?case using digit_less [of c] by simp
qed simp

lemma read_nat_ge:
  assumes "is_ascii_digit c" "\<not> is_zero_digit c"
  shows "10 ^ length cs \<le> read_nat (c # cs)"
proof -
  have "1 \<le> digit_val c" using zero_digit_val [OF assms(1)] assms(2) by simp
  then have "10 ^ length cs \<le> digit_val c * 10 ^ length cs"
    by (cases "digit_val c") auto
  then show ?thesis unfolding read_nat_Cons by (rule trans_le_add1)
qed

lemma read_nat_dropWhile [simp]: "read_nat (dropWhile is_zero_digit ds) = read_nat ds"
  by (induction ds) (simp_all add: read_nat_Cons is_zero_digit_def digit_val_def)

lemma fits_Some_iff: "fits hi x = Some y \<longleftrightarrow> y = x \<and> - hi - 1 \<le> x \<and> x \<le> hi"
  by (auto simp: fits_def)

lemma fold_digits_eq:
  assumes "list_all is_ascii_digit ds" "0 \<le> acc" "acc \<le> hi"
  shows "fold_digits hi acc ds = fits hi (acc * 10 ^ length ds + int (read_nat ds))"
  using assms
proof (induction ds arbitrary: acc)
  case Nil
  then show ?case by (simp add: fits_def)
next
  case (Cons c cs)
  define v where "v = acc * 10 + int (digit_val c)"
  have v: "acc * 10 ^ length (c # cs) + int (read_nat (c # cs)) =
      v * 10 ^ length cs + int (read_nat cs)"
    by (simp add: v_def read_nat_Cons algebra_simps)
  show ?case
  proof (cases "v \<le> hi")
    case True
    then have "fold_digits hi acc (c # cs) = fold_digits hi v cs"
      using Cons.prems by (simp add: fits_def v_def digit_val_def)
    also have "\<dots> = fits hi (v * 10 ^ length cs + int (read_nat cs))"
      using Cons.prems True by (intro Cons.IH) (auto simp: v_def)
    finally show ?thesis by (simp only: v)
  next
    case False
    have "v * 1 \<le> v * 10 ^ length cs"
      using Cons.prems by (intro mult_left_mono) (auto simp: v_def)
    with False have "\<not> v * 10 ^ length cs + int (read_nat cs) \<le> hi" by simp
    moreover have "fold_digits hi acc (c # cs) = None"
      using False Cons.prems by (auto simp: fits_def v_def digit_val_def)
    ultimately show ?thesis by (simp only: v fits_def simp_thms if_False)
  qed
qed

lemma sign_split_strip:
  "(case strip_prefix ''-'' t of Some ds \<Rightarrow> (True, ds)
    | None \<Rightarrow> (False, case strip_prefix ''+'' t of Some ds \<Rightarrow> ds | None \<Rightarrow> t)) = sign_split t"
  by (auto simp: sign_split_def strip_prefix_single split: list.splits)

lemma parse_signed_exp:
  "parse_signed hi t = (if exp_ok t then fits hi (exp_value t) else None)"
  by (auto simp: parse_signed_def sign_split_strip exp_ok_def exp_value_def case_prod_beta Let_def)

lemma parse_bounded_exponent:
  "parse_bounded_json_integer_exponent t =
     (if \<not> exp_ok t then Inl (Invalid ''JSON integer'')
      else if \<bar>exp_value t\<bar> > max_json_integer_exponent_abs
        then Inl (TooLong ''JSON integer exponent'')
      else Inr (exp_value t))"
  by (auto simp: parse_bounded_json_integer_exponent_def sign_split_strip exp_ok_def exp_value_def
      case_prod_beta Let_def fold_digits_eq fits_def i32_max_def max_json_integer_exponent_abs_def
      split: option.splits)

section \<open>Integral values\<close>

definition trailing :: "bytes \<Rightarrow> nat" where
  "trailing ds = length (takeWhile is_zero_digit (rev ds))"

lemma power_ten_dvd_iff:
  assumes "list_all is_ascii_digit ds"
  shows "(10::nat) ^ k dvd read_nat ds \<longleftrightarrow> read_nat ds = 0 \<or> k \<le> trailing ds"
  using assms
proof (induction ds arbitrary: k rule: rev_induct)
  case Nil
  then show ?case by (simp add: trailing_def)
next
  case (snoc c ds)
  then have c: "digit_val c < 10" "digit_val c = 0 \<longleftrightarrow> is_zero_digit c"
    using digit_less zero_digit_val by auto
  show ?case
  proof (cases k)
    case (Suc j)
    show ?thesis
    proof (cases "is_zero_digit c")
      case True
      with c snoc Suc show ?thesis by (simp add: trailing_def)
    next
      case False
      have "\<not> (10::nat) dvd 10 * read_nat ds + digit_val c"
        using c False by (metis dvd_add_right_iff dvd_imp_le dvd_triv_left not_le neq0_conv)
      then have "\<not> (10::nat) ^ Suc j dvd 10 * read_nat ds + digit_val c"
        by (metis dvd_mult_left power_Suc)
      moreover have "10 * read_nat ds + digit_val c \<noteq> 0"
        using c False by simp
      ultimately show ?thesis
        using False Suc by (simp add: trailing_def)
    qed
  qed simp
qed

lemma read_nat_take:
  assumes "list_all is_ascii_digit ds"
  shows "read_nat (take (length ds - k) ds) = read_nat ds div 10 ^ k"
proof (cases "k \<le> length ds")
  case True
  define m where "m = length ds - k"
  have "read_nat ds = read_nat (take m ds) * 10 ^ k + read_nat (drop m ds)"
    using read_nat_append [of "take m ds" "drop m ds"] True by (simp add: m_def)
  moreover have "read_nat (drop m ds) < 10 ^ k"
    using read_nat_less [of "drop m ds"] assms True by (simp add: m_def list_all_iff in_set_dropD)
  ultimately show ?thesis by (simp add: m_def)
next
  case False
  have "read_nat ds < 10 ^ length ds" using assms by (rule read_nat_less)
  also have "\<dots> \<le> 10 ^ k" using False by (intro power_increasing) auto
  finally show ?thesis using False by simp
qed

definition shifted :: "nat \<Rightarrow> int \<Rightarrow> nat" where
  "shifted n k = (if k \<le> 0 then n * 10 ^ nat (- k) else n div 10 ^ nat k)"

lemma scaled_cases:
  "(of_nat n * 10 powi (- k) :: rat) =
     (if k \<le> 0 then of_nat (n * 10 ^ nat (- k)) else of_int (int n) / of_int (10 ^ nat k))"
  by (simp add: power_int_def field_simps)

lemma scaled_integral:
  assumes "list_all is_ascii_digit ds"
  shows "(of_nat (read_nat ds) * 10 powi (- k) :: rat) \<in> \<int> \<longleftrightarrow>
    k \<le> 0 \<or> read_nat ds = 0 \<or> nat k \<le> trailing ds"
proof (cases "k \<le> 0")
  case True
  then show ?thesis by (simp add: scaled_cases del: of_nat_mult of_nat_power)
next
  case False
  have "(of_int (int (read_nat ds)) / of_int (10 ^ nat k) :: rat) \<in> \<int> \<longleftrightarrow>
      (10::int) ^ nat k dvd int (read_nat ds)"
    by (simp only: of_int_div_of_int_in_Ints_iff) simp
  also have "\<dots> \<longleftrightarrow> (10::nat) ^ nat k dvd read_nat ds"
    by (metis int_dvd_int_iff of_nat_numeral of_nat_power)
  also have "\<dots> \<longleftrightarrow> read_nat ds = 0 \<or> nat k \<le> trailing ds"
    by (rule power_ten_dvd_iff [OF assms])
  finally show ?thesis using False by (simp add: scaled_cases)
qed

lemma scaled_value:
  assumes "(of_nat n * 10 powi (- k) :: rat) \<in> \<int>"
  shows "(of_nat n * 10 powi (- k) :: rat) = of_nat (shifted n k)"
proof (cases "k \<le> 0")
  case True
  then show ?thesis by (simp add: scaled_cases shifted_def)
next
  case False
  then have "(of_int (int n) / of_int (10 ^ nat k) :: rat) \<in> \<int>"
    using assms by (simp only: scaled_cases if_False)
  then have "(10::int) ^ nat k dvd int n"
    by (simp only: of_int_div_of_int_in_Ints_iff) simp
  then have "(10::nat) ^ nat k dvd n"
    by (metis int_dvd_int_iff of_nat_numeral of_nat_power)
  then obtain m where "n = 10 ^ nat k * m" ..
  with False show ?thesis by (subst scaled_cases) (simp add: shifted_def)
qed

lemma number_value_integral:
  "number_value d \<in> \<int> \<longleftrightarrow>
     (of_nat (read_nat (number_digits d)) * 10 powi (- number_scale d) :: rat) \<in> \<int>"
  by (auto simp: number_value_def)

lemma wf_number_digits:
  "wf_number d \<Longrightarrow> list_all is_ascii_digit (number_digits d) \<and> number_digits d \<noteq> []"
  using whole_ok_digits
  by (auto simp: wf_number_def number_digits_def fraction_digits_def split: option.splits)

lemma number_value_eq:
  assumes "number_value d \<in> \<int>"
  shows "number_value d = of_int ((if lx_neg d then -1 else 1) *
    int (shifted (read_nat (number_digits d)) (number_scale d)))"
  using scaled_value [OF assms [unfolded number_value_integral]]
  by (simp add: number_value_def mult.assoc)

section \<open>The readings of the algorithms\<close>

definition signed_mantissa :: "number_lexeme \<Rightarrow> bytes" where
  "signed_mantissa d = (if lx_neg d then [CHR ''-''] else []) @ mantissa_text d"

lemma render_signed: "render d = signed_mantissa d @ exponent_text d"
  by (simp add: render_def signed_mantissa_def unsigned_text_def)

lemma split_exponent_text:
  assumes "\<forall>c \<in> set m. \<not> is_exp_mark c" "split_form d"
  shows "split_exponent parse (m @ exponent_text d) =
    (case lx_exp d of
       None \<Rightarrow> Inr (m, 0)
     | Some (x, t) \<Rightarrow> (case parse t of Inl e \<Rightarrow> Inl e | Inr v \<Rightarrow> Inr (m, v)))"
proof (cases "lx_exp d")
  case None
  then show ?thesis
    using assms position_None_iff [of is_exp_mark m]
    by (simp add: split_exponent_def exponent_text_def)
next
  case (Some p)
  then show ?thesis
    using assms position_first [of m is_exp_mark]
    by (cases p) (simp add: split_exponent_def exponent_text_def split_form_def split: sum.splits)
qed

lemma strip_sign:
  assumes "split_form d"
  shows "strip_prefix ''-'' (render d) = (if lx_neg d then Some (unsigned_text d) else None)"
    and "strip_prefix ''-'' (signed_mantissa d) = (if lx_neg d then Some (mantissa_text d) else None)"
proof -
  have "lx_neg d \<or> take 1 (mantissa_text d) \<noteq> ''-''"
    using assms by (cases "mantissa_text d") (auto simp: split_form_def unsigned_text_def)
  then show "strip_prefix ''-'' (signed_mantissa d) =
      (if lx_neg d then Some (mantissa_text d) else None)"
    by (auto simp: signed_mantissa_def strip_prefix_single split: list.splits)
  show "strip_prefix ''-'' (render d) = (if lx_neg d then Some (unsigned_text d) else None)"
    using assms by (auto simp: render_def strip_prefix_single split_form_def split: list.splits)
qed

lemma strip_or_self:
  assumes "split_form d"
  shows "(case strip_prefix ''-'' (render d) of None \<Rightarrow> render d | Some u \<Rightarrow> u) = unsigned_text d"
    and "(case strip_prefix ''-'' (signed_mantissa d) of
        None \<Rightarrow> signed_mantissa d | Some m \<Rightarrow> m) = mantissa_text d"
    and "(case strip_prefix ''-'' (render d) of
        None \<Rightarrow> (False, render d) | Some u \<Rightarrow> (True, u)) = (lx_neg d, unsigned_text d)"
    and "(case strip_prefix ''-'' (signed_mantissa d) of
        None \<Rightarrow> (False, signed_mantissa d) | Some m \<Rightarrow> (True, m)) = (lx_neg d, mantissa_text d)"
  using strip_sign [OF assms] by (simp_all add: render_def signed_mantissa_def)

lemma split_once_mantissa:
  assumes "split_form d"
  shows "split_once is_point (mantissa_text d) =
    (case lx_frac d of None \<Rightarrow> None | Some f \<Rightarrow> Some (lx_whole d, f))"
  using assms
  by (auto simp: split_form_def mantissa_text_def split_once_None split_once_at is_point_def
      split: option.splits)

lemma mantissa_no_frac: "lx_frac d = None \<Longrightarrow> mantissa_text d = lx_whole d"
  by (simp add: mantissa_text_def)

lemma fraction_or_none:
  assumes "split_form d"
  shows "(case split_once is_point (mantissa_text d) of
        None \<Rightarrow> (mantissa_text d, None) | Some (w, f) \<Rightarrow> (w, Some f)) = (lx_whole d, lx_frac d)"
    and "(case split_once is_point (mantissa_text d) of
        None \<Rightarrow> (mantissa_text d, []) | Some p \<Rightarrow> p) = (lx_whole d, fraction_digits d)"
  by (simp_all add: split_once_mantissa [OF assms] mantissa_no_frac fraction_digits_def
      split: option.splits)

lemma signed_no_mark: "split_form d \<Longrightarrow> \<forall>c \<in> set (signed_mantissa d). \<not> is_exp_mark c"
  by (auto simp: split_form_def signed_mantissa_def is_exp_mark_def)

lemma fraction_length: "length (fraction_digits d) \<le> length (render d)"
  by (simp add: render_def text_defs split: option.splits)

definition exponent_within :: "int \<Rightarrow> number_lexeme \<Rightarrow> bool" where
  "exponent_within bound d \<longleftrightarrow> \<bar>number_exponent d\<bar> \<le> bound"

lemma split_exponent_render:
  assumes "split_form d"
  shows "split_exponent parse_bounded_json_integer_exponent (render d) =
    (case lx_exp d of
       None \<Rightarrow> Inr (signed_mantissa d, 0)
     | Some (x, t) \<Rightarrow>
         if \<not> exp_ok t then Inl (Invalid ''JSON integer'')
         else if \<not> exponent_within max_json_integer_exponent_abs d
           then Inl (TooLong ''JSON integer exponent'')
         else Inr (signed_mantissa d, number_exponent d))"
  using split_exponent_text [OF signed_no_mark [OF assms] assms,
      of parse_bounded_json_integer_exponent]
  by (auto simp: render_signed parse_bounded_exponent exponent_within_def number_exponent_def
      split: option.splits)

text \<open>The part of the validation that follows the exponent, on the parts of the mantissa.\<close>

definition validate_mantissa :: "bytes \<Rightarrow> bytes option \<Rightarrow> int \<Rightarrow> common_type_error + unit" where
  "validate_mantissa whole fraction exponent =
     (if whole = [] \<or> \<not> whole_ok whole \<or>
         (case fraction of None \<Rightarrow> False
          | Some fraction \<Rightarrow> fraction = [] \<or> \<not> list_all is_ascii_digit fraction)
      then Inl (Invalid ''JSON integer'')
      else
        let fraction = (case fraction of None \<Rightarrow> [] | Some fraction \<Rightarrow> fraction);
            digits = whole @ fraction
        in if list_all is_zero_digit digits then Inr ()
           else case fits i64_max (int (length fraction) - exponent) of
               None \<Rightarrow> Inl (TooLong ''JSON integer exponent'')
             | Some scale \<Rightarrow>
                 if scale \<le> 0 \<or> nat scale \<le> trailing digits
                 then Inr () else Inl (Invalid ''JSON integer''))"

lemma validate_render:
  assumes "split_form d"
  shows "validate_json_integer (render d) =
    (if length (render d) > max_json_integer_bytes then Inl (TooLong ''JSON integer'')
     else case split_exponent parse_bounded_json_integer_exponent (render d) of
       Inl e \<Rightarrow> Inl e
     | Inr (m, exponent) \<Rightarrow> validate_mantissa (lx_whole d) (lx_frac d) exponent)"
proof (cases "split_exponent parse_bounded_json_integer_exponent (render d)")
  case (Inl e)
  then show ?thesis by (simp add: validate_json_integer_def)
next
  case (Inr p)
  then obtain x where p: "split_exponent parse_bounded_json_integer_exponent (render d) =
      Inr (signed_mantissa d, x)"
    by (auto simp: split_exponent_render [OF assms] split: option.splits if_splits)
  show ?thesis
    unfolding validate_json_integer_def validate_mantissa_def trailing_def p
    by (simp add: strip_or_self [OF assms] fraction_or_none [OF assms])
qed

lemma validate_mantissa_ok:
  assumes "length (fraction_digits d) \<le> max_json_integer_bytes"
    and "exponent_within max_json_integer_exponent_abs d"
    and "case lx_exp d of None \<Rightarrow> True | Some (m, t) \<Rightarrow> is_exp_mark m \<and> exp_ok t"
  shows "validate_mantissa (lx_whole d) (lx_frac d) (number_exponent d) = Inr () \<longleftrightarrow>
    wf_number d \<and> number_value d \<in> \<int>"
proof -
  have f: "fits i64_max (int (length (fraction_digits d)) - number_exponent d) =
      Some (number_scale d)"
    using assms
    by (simp add: fits_def i64_max_def max_json_integer_bytes_def number_scale_def
        exponent_within_def max_json_integer_exponent_abs_def) linarith
  have "number_value d \<in> \<int> \<longleftrightarrow> list_all is_zero_digit (number_digits d) \<or>
      number_scale d \<le> 0 \<or> nat (number_scale d) \<le> trailing (number_digits d)" if "wf_number d"
    using wf_number_digits [OF that] scaled_integral [of "number_digits d" "number_scale d"]
    by (auto simp: number_value_integral read_nat_eq_0_iff)
  moreover have "validate_mantissa (lx_whole d) (lx_frac d) (number_exponent d) =
      (if \<not> wf_number d then Inl (Invalid ''JSON integer'')
       else if list_all is_zero_digit (number_digits d) then Inr ()
       else if number_scale d \<le> 0 \<or> nat (number_scale d) \<le> trailing (number_digits d)
         then Inr () else Inl (Invalid ''JSON integer''))"
    using assms(3) f whole_ok_digits [of "lx_whole d"]
    by (cases "lx_frac d") (auto simp: validate_mantissa_def wf_number_def number_digits_def
        fraction_digits_def Let_def)
  ultimately show ?thesis by simp
qed

lemma wf_number_exp:
  "wf_number d \<Longrightarrow> case lx_exp d of None \<Rightarrow> True | Some (m, t) \<Rightarrow> is_exp_mark m \<and> exp_ok t"
  by (simp add: wf_number_def)

lemma split_exponent_Inr_iff:
  assumes "split_form d"
  shows "split_exponent parse_bounded_json_integer_exponent (render d) = Inr (m, x) \<longleftrightarrow>
    m = signed_mantissa d \<and> x = number_exponent d \<and>
    exponent_within max_json_integer_exponent_abs d \<and>
    (case lx_exp d of None \<Rightarrow> True | Some (m, t) \<Rightarrow> is_exp_mark m \<and> exp_ok t)"
  using assms
  by (auto simp: split_exponent_render number_exponent_def exponent_within_def split_form_def
      max_json_integer_exponent_abs_def split: option.splits)

lemma validate_render_iff:
  assumes "split_form d"
  shows "validate_json_integer (render d) = Inr () \<longleftrightarrow>
    length (render d) \<le> max_json_integer_bytes \<and> wf_number d \<and>
    exponent_within max_json_integer_exponent_abs d \<and> number_value d \<in> \<int>"
proof (cases "length (render d) \<le> max_json_integer_bytes \<and>
    (\<exists>m x. split_exponent parse_bounded_json_integer_exponent (render d) = Inr (m, x))")
  case True
  then have x: "split_exponent parse_bounded_json_integer_exponent (render d) =
        Inr (signed_mantissa d, number_exponent d)"
      "exponent_within max_json_integer_exponent_abs d"
      "case lx_exp d of None \<Rightarrow> True | Some (m, t) \<Rightarrow> is_exp_mark m \<and> exp_ok t"
    using split_exponent_Inr_iff [OF assms] by blast+
  have "length (fraction_digits d) \<le> max_json_integer_bytes"
    using True fraction_length [of d] by linarith
  from validate_mantissa_ok [OF this x(2,3)] True x(1,2) show ?thesis
    by (simp add: validate_render [OF assms])
next
  case False
  then show ?thesis
    using split_exponent_Inr_iff [OF assms] wf_number_exp [of d]
    by (auto simp: validate_render [OF assms] split: sum.splits)
qed

text \<open>C20: \<open>JsonInteger\<close> admits a token exactly when it is a JSON number (RFC 8259 grammar) within
  the size and exponent limits whose mathematical value is an integer, whatever its spelling.\<close>

theorem json_integer_admission_exact:
  "validate_json_integer s = Inr () \<longleftrightarrow>
     length s \<le> max_json_integer_bytes \<and>
     (\<exists>d. render d = s \<and> wf_number d \<and> exponent_within max_json_integer_exponent_abs d \<and>
          number_value d \<in> \<int>)"
  using validate_render_iff split_number_form render_split_number split_number_render
    wf_number_form by metis

section \<open>Conversion to a 32-bit error code\<close>

lemma i32_digits_seen:
  assumes "list_all is_ascii_digit ds" "0 \<le> acc" "acc \<le> mx" "mx \<le> 2147483648"
  shows "i32_digits mx acc True ds =
    (if acc * 10 ^ length ds + int (read_nat ds) \<le> mx
     then Some (acc * 10 ^ length ds + int (read_nat ds), True) else None)"
  using assms
proof (induction ds arbitrary: acc)
  case (Cons c cs)
  define v where "v = acc * 10 + int (digit_val c)"
  have v: "acc * 10 ^ length (c # cs) + int (read_nat (c # cs)) =
      v * 10 ^ length cs + int (read_nat cs)"
    by (simp add: v_def read_nat_Cons algebra_simps)
  have c: "digit_val c < 10" using Cons.prems digit_less by simp
  have step: "i32_digits mx acc True (c # cs) = (if v > mx then None else i32_digits mx v True cs)"
    using Cons.prems c by (simp add: fits_def i64_max_def v_def digit_val_def)
  show ?case
  proof (cases "v \<le> mx")
    case True
    then show ?thesis
      using step Cons.prems by (simp only: v) (simp add: Cons.IH v_def)
  next
    case False
    have "v * 1 \<le> v * 10 ^ length cs"
      using Cons.prems by (intro mult_left_mono) (auto simp: v_def)
    with False have "\<not> v * 10 ^ length cs + int (read_nat cs) \<le> mx" by simp
    then show ?thesis using False step by (simp only: v) simp
  qed
qed simp

lemma i32_digits_eq:
  assumes "list_all is_ascii_digit ds" "0 \<le> mx" "mx \<le> 2147483648"
  shows "i32_digits mx 0 False ds =
    (if int (read_nat ds) \<le> mx then Some (int (read_nat ds), read_nat ds \<noteq> 0) else None)"
  using assms
proof (induction ds)
  case (Cons c cs)
  show ?case
  proof (cases "is_zero_digit c")
    case True
    then have "digit_val c = 0" "c = CHR ''0''"
      using Cons.prems zero_digit_val by (auto simp: is_zero_digit_def)
    with Cons show ?thesis by (simp add: read_nat_Cons)
  next
    case False
    then have "i32_digits mx 0 False (c # cs) = i32_digits mx 0 True (c # cs)"
      by (simp add: is_zero_digit_def)
    moreover have "read_nat (c # cs) \<noteq> 0"
      using Cons.prems False read_nat_eq_0_iff [of "c # cs"] by simp
    ultimately show ?thesis
      using i32_digits_seen [of "c # cs" 0 mx] Cons.prems by simp
  qed
qed simp

lemma i32_zeroes_eq:
  assumes "0 \<le> acc" "acc \<le> mx" "mx \<le> 2147483648"
  shows "i32_zeroes mx acc n = (if acc * 10 ^ n \<le> mx then Some (acc * 10 ^ n) else None)"
  using assms
proof (induction n arbitrary: acc)
  case (Suc n)
  have step: "i32_zeroes mx acc (Suc n) =
      (if acc * 10 > mx then None else i32_zeroes mx (acc * 10) n)"
    using Suc.prems by (simp add: fits_def i64_max_def)
  show ?case
  proof (cases "acc * 10 \<le> mx")
    case True
    with step Suc show ?thesis by (simp add: mult.assoc)
  next
    case False
    have "acc * 10 * 1 \<le> acc * 10 * 10 ^ n"
      using Suc.prems by (intro mult_left_mono) auto
    then have "\<not> acc * 10 ^ Suc n \<le> mx" using False by simp
    with False step show ?thesis by simp
  qed
qed simp

definition i32_tail :: "bool \<Rightarrow> bytes \<Rightarrow> int \<Rightarrow> int option" where
  "i32_tail negative digits scale =
     (let retained = (if scale > 0 then length digits - nat scale else length digits);
          zeroes = (if scale < 0 then nat (- scale) else 0);
          maximum = (if negative then i32_max + 1 else i32_max)
      in Option.bind (i32_digits maximum 0 False (take retained digits))
           (\<lambda>(magnitude, saw_nonzero).
            if \<not> saw_nonzero then Some 0
            else if zeroes \<ge> 10 then None
            else Option.bind (i32_zeroes maximum magnitude zeroes) (\<lambda>magnitude.
              if negative
              then (if magnitude = i32_max + 1 then Some (- i32_max - 1) else Some (- magnitude))
              else Some magnitude)))"

lemma i32_tail_eq:
  assumes ds: "list_all is_ascii_digit ds"
  shows "i32_tail negative ds scale =
    (let n = (if negative then -1 else 1) * int (shifted (read_nat ds) scale)
     in if - i32_max - 1 \<le> n \<and> n \<le> i32_max then Some n else None)"
proof -
  define mx where "mx = (if negative then i32_max + 1 else i32_max)"
  define rd where "rd = take (if scale > 0 then length ds - nat scale else length ds) ds"
  define z where "z = (if scale < 0 then nat (- scale) else 0)"
  define r where "r = read_nat rd"
  have mx: "0 \<le> mx" "mx \<le> 2147483648" by (simp_all add: mx_def i32_max_def)
  have rd: "list_all is_ascii_digit rd"
    using ds by (auto simp: rd_def list_all_iff dest: in_set_takeD)
  have n: "shifted (read_nat ds) scale = r * 10 ^ z"
    by (simp add: r_def shifted_def rd_def z_def read_nat_take [OF ds])
  have big: "r * 10 ^ z > nat mx" if "r \<noteq> 0" "z \<ge> 10"
  proof -
    have "nat mx < 1 * 10 ^ 10" using mx by simp
    also have "\<dots> \<le> r * 10 ^ z"
      using that by (intro mult_le_mono power_increasing) auto
    finally show ?thesis .
  qed
  have small: "r \<le> r * 10 ^ z" by simp
  have range: "(- i32_max - 1 \<le> (if negative then -1 else 1) * int (r * 10 ^ z) \<and>
      (if negative then -1 else 1) * int (r * 10 ^ z) \<le> i32_max) \<longleftrightarrow> int (r * 10 ^ z) \<le> mx"
    using of_nat_0_le_iff [of "r * 10 ^ z", where ?'a = int]
    by (auto simp: mx_def i32_max_def simp del: of_nat_mult of_nat_0_le_iff)
  have "i32_tail negative ds scale =
      (if int (r * 10 ^ z) \<le> mx then Some ((if negative then -1 else 1) * int (r * 10 ^ z))
       else None)"
  proof (cases "int r \<le> mx \<and> r \<noteq> 0")
    case False
    then have "r = 0 \<or> \<not> int (r * 10 ^ z) \<le> mx" using small by linarith
    with False mx show ?thesis
      unfolding i32_tail_def mx_def [symmetric] rd_def [symmetric] Let_def z_def [symmetric]
      by (auto simp: i32_digits_eq [OF rd mx] r_def)
  next
    case True
    have d: "i32_digits mx 0 False rd = Some (int r, True)"
      using True by (simp add: i32_digits_eq [OF rd mx] r_def)
    have zs: "i32_zeroes mx (int r) z =
        (if int (r * 10 ^ z) \<le> mx then Some (int (r * 10 ^ z)) else None)"
      using True mx by (simp add: i32_zeroes_eq)
    have "z \<ge> 10 \<Longrightarrow> \<not> int (r * 10 ^ z) \<le> mx" using big True by linarith
    then show ?thesis
      unfolding i32_tail_def mx_def [symmetric] rd_def [symmetric] Let_def z_def [symmetric]
      by (auto simp: d zs)
  qed
  with range show ?thesis by (simp only: n Let_def)
qed

text \<open>C30: The 32-bit reading of an admitted JSON integer is its mathematical value, present exactly
  when that value fits, for every spelling (fraction digits, exponents, leading sign).\<close>

theorem json_integer_as_i32_exact:
  assumes "wf_number d" "validate_json_integer (render d) = Inr ()"
  shows "json_integer_as_i32 (render d) = Some n \<longleftrightarrow>
    number_value d = of_int n \<and> - i32_max - 1 \<le> n \<and> n \<le> i32_max"
proof -
  have form: "split_form d" using assms(1) by (rule wf_number_form)
  note v = validate_render_iff [OF form, THEN iffD1, OF assms(2)]
  have x: "split_exponent parse_bounded_json_integer_exponent (render d) =
      Inr (signed_mantissa d, number_exponent d)"
    using v wf_number_exp [OF assms(1)] by (simp add: split_exponent_Inr_iff [OF form])
  have ds: "list_all is_ascii_digit (number_digits d)"
    using wf_number_digits [OF assms(1)] by simp
  have len: "length (number_digits d) \<le> 4096"
    using v by (simp add: render_def number_digits_def text_defs max_json_integer_bytes_def
        split: option.splits)
  have f: "fits i64_max (int (length (fraction_digits d)) - number_exponent d) =
      Some (number_scale d)"
    using v fraction_length [of d]
    by (simp add: fits_def i64_max_def max_json_integer_bytes_def number_scale_def
        exponent_within_def max_json_integer_exponent_abs_def) linarith
  have a: "checked_add (length (lx_whole d)) (length (fraction_digits d)) =
      Some (length (number_digits d))"
    using len by (simp add: checked_add_def number_digits_def u64_max_def)
  have "json_integer_as_i32 (render d) =
      (if list_all is_zero_digit (number_digits d) then Some 0
       else i32_tail (lx_neg d) (number_digits d) (number_scale d))"
    unfolding json_integer_as_i32_def i32_tail_def Let_def x
    by (simp add: strip_or_self [OF form] fraction_or_none [OF form] f a number_digits_def)
  moreover have "shifted (read_nat (number_digits d)) (number_scale d) = 0"
    if "list_all is_zero_digit (number_digits d)"
    using that by (simp add: read_nat_eq_0_iff [OF ds, symmetric] shifted_def)
  ultimately have "json_integer_as_i32 (render d) =
      i32_tail (lx_neg d) (number_digits d) (number_scale d)"
    by (auto simp: i32_tail_eq [OF ds] i32_max_def)
  then show ?thesis
    using number_value_eq [of d] v by (auto simp: i32_tail_eq [OF ds] Let_def simp del: of_int_mult)
qed

section \<open>The scanner of request identifiers\<close>

lemma scan_whole_Some_iff:
  "scan_whole r = Some (w, r') \<longleftrightarrow>
     r = w @ r' \<and> whole_ok w \<and> (r' = [] \<or> \<not> is_ascii_digit (hd r'))"
proof
  assume scan: "scan_whole r = Some (w, r')"
  then obtain c cs where r: "r = c # cs" by (cases r) (auto simp: scan_whole_def)
  show "r = w @ r' \<and> whole_ok w \<and> (r' = [] \<or> \<not> is_ascii_digit (hd r'))"
  proof (cases "c = CHR ''0''")
    case True
    with scan r show ?thesis by (auto simp: scan_whole_def whole_ok_def split: if_splits)
  next
    case False
    with scan r have "is_ascii_digit c" "w = c # takeWhile is_ascii_digit cs"
        "r' = dropWhile is_ascii_digit cs"
      by (auto simp: scan_whole_def split: if_splits)
    with False r show ?thesis
      using hd_dropWhile [of is_ascii_digit cs]
      by (auto simp: whole_ok_def list_all_iff dest: set_takeWhileD)
  qed
next
  assume a: "r = w @ r' \<and> whole_ok w \<and> (r' = [] \<or> \<not> is_ascii_digit (hd r'))"
  show "scan_whole r = Some (w, r')"
  proof (cases "w = ''0''")
    case True
    with a show ?thesis by (auto simp: scan_whole_def)
  next
    case False
    with a obtain c cs where w: "w = c # cs" "c \<noteq> CHR ''0''" "is_ascii_digit c"
        "\<forall>x \<in> set cs. is_ascii_digit x"
      by (cases w) (auto simp: whole_ok_def list_all_iff)
    then have "takeWhile is_ascii_digit (cs @ r') = cs" "dropWhile is_ascii_digit (cs @ r') = r'"
      using a by (cases r'; simp)+
    with a w show ?thesis by (simp add: scan_whole_def)
  qed
qed

lemma scan_fraction_Some_iff:
  "scan_fraction r = Some (f, r') \<longleftrightarrow>
     (f = [] \<and> r' = r \<and> (r = [] \<or> hd r \<noteq> CHR ''.'')) \<or>
     (r = CHR ''.'' # f @ r' \<and> f \<noteq> [] \<and> list_all is_ascii_digit f \<and>
      (r' = [] \<or> \<not> is_ascii_digit (hd r')))"
proof (cases r)
  case Nil
  then show ?thesis by (auto simp: scan_fraction_def)
next
  case (Cons c cs)
  have "takeWhile is_ascii_digit cs = f \<and> dropWhile is_ascii_digit cs = r' \<longleftrightarrow>
      cs = f @ r' \<and> list_all is_ascii_digit f \<and> (r' = [] \<or> \<not> is_ascii_digit (hd r'))"
  proof
    assume "takeWhile is_ascii_digit cs = f \<and> dropWhile is_ascii_digit cs = r'"
    then show "cs = f @ r' \<and> list_all is_ascii_digit f \<and> (r' = [] \<or> \<not> is_ascii_digit (hd r'))"
      using hd_dropWhile [of is_ascii_digit cs]
      by (auto simp: list_all_iff dest: set_takeWhileD)
  next
    assume "cs = f @ r' \<and> list_all is_ascii_digit f \<and> (r' = [] \<or> \<not> is_ascii_digit (hd r'))"
    then show "takeWhile is_ascii_digit cs = f \<and> dropWhile is_ascii_digit cs = r'"
      by (cases r') (auto simp: list_all_iff)
  qed
  with Cons show ?thesis by (auto simp: scan_fraction_def)
qed

lemma exp_ok_Cons_digits:
  "list_all is_ascii_digit ds \<Longrightarrow> ds \<noteq> [] \<Longrightarrow> sign_split ds = (False, ds)"
  using digit_not_mark by (cases ds) (auto simp: sign_split_def)

lemma scan_exponent_Some_iff:
  "scan_exponent r = Some e \<longleftrightarrow>
     (r = [] \<and> e = 0) \<or>
     (\<exists>m t. r = m # t \<and> is_exp_mark m \<and> exp_ok t \<and> e = exp_value t \<and> \<bar>e\<bar> \<le> max_raw_json_exponent)"
proof (cases r)
  case (Cons m t)
  have p: "parse_signed i64_max (snd (sign_split t)) = fits i64_max (int (read_nat (snd (sign_split t))))"
    if "exp_ok t"
    using that exp_ok_Cons_digits [of "snd (sign_split t)"]
    by (simp add: parse_signed_exp exp_ok_def exp_value_def)
  have "(case t of [] \<Rightarrow> (False, t)
      | s # ds \<Rightarrow> if s = CHR ''-'' then (True, ds)
          else if s = CHR ''+'' then (False, ds) else (False, t)) = sign_split t"
    by (simp add: sign_split_def split: list.splits)
  then have "scan_exponent (m # t) =
      (if is_exp_mark m then
         (if exp_ok t then
            (case parse_signed i64_max (snd (sign_split t)) of None \<Rightarrow> None
             | Some value \<Rightarrow> if value \<le> max_raw_json_exponent
                 then Some (if fst (sign_split t) then - value else value) else None)
          else None)
       else None)"
    by (simp add: scan_exponent_def Let_def case_prod_beta exp_ok_def)
  with Cons p show ?thesis
    by (auto simp: fits_def i64_max_def max_raw_json_exponent_def exp_value_def)
qed (auto simp: scan_exponent_def)

lemma trailing_zeroes_eq:
  "trailing_zeroes xs = length (takeWhile is_zero_digit (filter (\<lambda>c. \<not> is_point c) xs))"
  by (induction xs) (auto simp: is_zero_digit_def is_point_def)

lemma filter_mantissa:
  assumes "wf_number d"
  shows "filter (\<lambda>c. \<not> is_point c) (mantissa_text d) = number_digits d"
proof -
  have "filter (\<lambda>c. \<not> is_point c) ds = ds" if "list_all is_ascii_digit ds" for ds
    using that digit_not_mark by (auto simp: filter_id_conv list_all_iff)
  then show ?thesis
    using wf_number_digits [OF assms]
    by (cases "lx_frac d")
      (auto simp: mantissa_text_def number_digits_def fraction_digits_def is_point_def)
qed

text \<open>The scanner after the sign, as one function of the unsigned text.\<close>

definition scan_unsigned :: "bytes \<Rightarrow> (bytes \<times> bytes \<times> int) option" where
  "scan_unsigned u =
     Option.bind (scan_whole u) (\<lambda>(whole, rest).
     Option.bind (scan_fraction rest) (\<lambda>(fraction, rest').
     map_option (\<lambda>e. (whole @ take (length rest - length rest') rest, fraction, e))
       (scan_exponent rest')))"

lemma is_mathematical_integer_scan:
  "is_mathematical_integer s \<longleftrightarrow>
     length s \<le> max_raw_json_number_bytes \<and>
     (\<exists>coefficient fraction e.
        scan_unsigned (case strip_prefix ''-'' s of Some r \<Rightarrow> r | None \<Rightarrow> s) =
          Some (coefficient, fraction, e) \<and>
        (int (length fraction) - e \<le> 0 \<or>
         nat (int (length fraction) - e) \<le> trailing_zeroes (rev coefficient)))"
  by (auto simp: is_mathematical_integer_def scan_unsigned_def Let_def split: option.splits)

lemma scan_unsigned_render:
  assumes "wf_number d" "exponent_within max_raw_json_exponent d"
  shows "scan_unsigned (unsigned_text d) =
    Some (mantissa_text d, fraction_digits d, number_exponent d)"
proof -
  define et where "et = exponent_text d"
  define ft where "ft = (case lx_frac d of None \<Rightarrow> [] | Some f \<Rightarrow> CHR ''.'' # f)"
  have m: "mantissa_text d = lx_whole d @ ft" by (simp add: mantissa_text_def ft_def)
  have et: "et = [] \<or> (is_exp_mark (hd et))"
    using wf_number_exp [OF assms(1)] by (auto simp: et_def exponent_text_def split: option.splits)
  then have etd: "et = [] \<or> \<not> is_ascii_digit (hd et)" "et = [] \<or> hd et \<noteq> CHR ''.''"
    using digit_not_mark point_not_mark by auto
  have e: "scan_exponent et = Some (number_exponent d)"
    using wf_number_exp [OF assms(1)] assms(2)
    by (auto simp: scan_exponent_Some_iff et_def exponent_text_def number_exponent_def
        exponent_within_def split: option.splits)
  have w: "scan_whole (unsigned_text d) = Some (lx_whole d, ft @ et)"
    using assms(1) etd
    by (auto simp: scan_whole_Some_iff unsigned_text_def m et_def wf_number_def ft_def
        is_ascii_digit_def split: option.splits)
  have f: "scan_fraction (ft @ et) = Some (fraction_digits d, et)"
    using assms(1) etd
    by (auto simp: scan_fraction_Some_iff ft_def fraction_digits_def wf_number_def
        split: option.splits)
  show ?thesis by (simp add: scan_unsigned_def w f e m)
qed

lemma scan_unsigned_sound:
  assumes "scan_unsigned u = Some (coefficient, fraction, e)"
  obtains d where "wf_number d" "unsigned_text d = u" "\<not> lx_neg d"
    "exponent_within max_raw_json_exponent d"
proof -
  from assms obtain w r r' where w: "scan_whole u = Some (w, r)"
    and f: "scan_fraction r = Some (fraction, r')" and e: "scan_exponent r' = Some e"
    by (auto simp: scan_unsigned_def bind_eq_Some_conv)
  define fr where "fr = (if r = r' then None else Some fraction)"
  define ex where "ex = (if r' = [] then None else Some (hd r', tl r'))"
  define d where "d = \<lparr>lx_neg = False, lx_whole = w, lx_frac = fr, lx_exp = ex\<rparr>"
  have "wf_number d"
    using w f e
    by (auto simp: d_def wf_number_def fr_def ex_def scan_whole_Some_iff scan_fraction_Some_iff
        scan_exponent_Some_iff)
  moreover have "unsigned_text d = u"
    using w f e
    by (auto simp: d_def text_defs fr_def ex_def scan_whole_Some_iff scan_fraction_Some_iff
        scan_exponent_Some_iff)
  moreover have "exponent_within max_raw_json_exponent d"
    using e by (auto simp: exponent_within_def d_def number_exponent_def ex_def
        scan_exponent_Some_iff max_raw_json_exponent_def)
  ultimately show thesis by (intro that) (auto simp: d_def)
qed

lemma is_mathematical_integer_render:
  assumes "wf_number d"
  shows "is_mathematical_integer (render d) \<longleftrightarrow>
    length (render d) \<le> max_raw_json_number_bytes \<and>
    exponent_within max_raw_json_exponent d \<and>
    (number_scale d \<le> 0 \<or> nat (number_scale d) \<le> trailing (number_digits d))"
proof -
  have u: "(case strip_prefix ''-'' (render d) of Some r \<Rightarrow> r | None \<Rightarrow> render d) = unsigned_text d"
    by (rule strip_or_self(1) [OF wf_number_form [OF assms]])
  have t: "trailing_zeroes (rev (mantissa_text d)) = trailing (number_digits d)"
    by (simp add: trailing_zeroes_eq rev_filter [symmetric] filter_mantissa [OF assms] trailing_def)
  show ?thesis
  proof (cases "exponent_within max_raw_json_exponent d")
    case True
    then show ?thesis
      unfolding is_mathematical_integer_scan u
      by (simp add: scan_unsigned_render [OF assms] t number_scale_def)
  next
    case False
    have "scan_unsigned (unsigned_text d) \<noteq> Some x" for x
    proof
      assume "scan_unsigned (unsigned_text d) = Some x"
      then obtain d' where d': "wf_number d'" "unsigned_text d' = unsigned_text d" "\<not> lx_neg d'"
          "exponent_within max_raw_json_exponent d'"
        by (cases x) (auto elim: scan_unsigned_sound)
      have "render (d\<lparr>lx_neg := False\<rparr>) = render d'"
        using d' by (simp add: render_def text_defs)
      moreover have "wf_number (d\<lparr>lx_neg := False\<rparr>)" using assms by (simp add: wf_number_def)
      ultimately have "d\<lparr>lx_neg := False\<rparr> = d'"
        using d'(1) split_number_render wf_number_form by metis
      then have "number_exponent d' = number_exponent d"
        by (auto simp: number_exponent_def)
      with d'(4) False show False by (simp add: exponent_within_def)
    qed
    with False show ?thesis unfolding is_mathematical_integer_scan u by simp
  qed
qed

lemma is_mathematical_integer_wf:
  assumes "is_mathematical_integer s"
  obtains d where "wf_number d" "render d = s"
proof -
  obtain coefficient fraction e where
    "scan_unsigned (case strip_prefix ''-'' s of Some r \<Rightarrow> r | None \<Rightarrow> s) =
      Some (coefficient, fraction, e)"
    using assms by (auto simp: is_mathematical_integer_scan)
  then obtain d where d: "wf_number d" "\<not> lx_neg d"
      "unsigned_text d = (case strip_prefix ''-'' s of Some r \<Rightarrow> r | None \<Rightarrow> s)"
    by (auto elim: scan_unsigned_sound)
  show thesis
  proof
    show "wf_number (d\<lparr>lx_neg := strip_prefix ''-'' s \<noteq> None\<rparr>)"
      using d by (simp add: wf_number_def)
    show "render (d\<lparr>lx_neg := strip_prefix ''-'' s \<noteq> None\<rparr>) = s"
      using d(3) by (auto simp: render_def text_defs strip_prefix_single
          split: option.splits list.splits if_splits)
  qed
qed

lemma number_value_eq_0_iff:
  "number_value d = 0 \<longleftrightarrow> read_nat (number_digits d) = 0"
  by (simp add: number_value_def)

lemma trailing_all_zero: "list_all is_zero_digit ds \<Longrightarrow> trailing ds = length ds"
  by (simp add: trailing_def list_all_iff takeWhile_eq_all_conv [THEN iffD2])

lemma zero_number:
  assumes "wf_number d" "number_value d = 0"
  shows "trailing (number_digits d) = Suc (length (fraction_digits d))"
proof -
  have z: "list_all is_zero_digit (number_digits d)"
    using assms wf_number_digits [OF assms(1)]
    by (simp add: number_value_eq_0_iff read_nat_eq_0_iff)
  have "lx_whole d = ''0''"
    using assms(1) z whole_ok_digits [of "lx_whole d"]
    by (cases "lx_whole d") (auto simp: wf_number_def whole_ok_def number_digits_def is_zero_digit_def)
  with trailing_all_zero [OF z] show ?thesis by (simp add: number_digits_def)
qed

lemma scale_condition:
  assumes "wf_number d"
  shows "number_scale d \<le> 0 \<or> nat (number_scale d) \<le> trailing (number_digits d) \<longleftrightarrow>
    number_value d \<in> \<int> \<and> (number_value d \<noteq> 0 \<or> -1 \<le> number_exponent d)"
proof (cases "number_value d = 0")
  case True
  have "number_scale d \<le> 0 \<or> nat (number_scale d) \<le> trailing (number_digits d) \<longleftrightarrow>
      -1 \<le> number_exponent d"
    unfolding zero_number [OF assms True] by (auto simp: number_scale_def)
  with True show ?thesis by simp
next
  case False
  then show ?thesis
    using scaled_integral [of "number_digits d" "number_scale d"] wf_number_digits [OF assms]
    by (auto simp: number_value_integral number_value_eq_0_iff)
qed

text \<open>A numeric request identifier is admitted exactly when its token is a JSON number within
  the limits with an integral value; the only integral tokens refused are zeroes written with an
  exponent below \<open>-1\<close>, which \<open>JsonInteger\<close> admits.\<close>

lemma request_id_integer_admission:
  "is_mathematical_integer s \<longleftrightarrow>
     length s \<le> max_raw_json_number_bytes \<and>
     (\<exists>d. render d = s \<and> wf_number d \<and> exponent_within max_raw_json_exponent d \<and>
          number_value d \<in> \<int> \<and> (number_value d \<noteq> 0 \<or> -1 \<le> number_exponent d))"
proof
  assume a: "is_mathematical_integer s"
  then obtain d where "wf_number d" "render d = s" by (rule is_mathematical_integer_wf)
  with a show "length s \<le> max_raw_json_number_bytes \<and>
     (\<exists>d. render d = s \<and> wf_number d \<and> exponent_within max_raw_json_exponent d \<and>
          number_value d \<in> \<int> \<and> (number_value d \<noteq> 0 \<or> -1 \<le> number_exponent d))"
    using is_mathematical_integer_render scale_condition by metis
qed (use is_mathematical_integer_render scale_condition in metis)

section \<open>Canonical spellings and correlation\<close>

lemma show_nat_read:
  assumes "list_all is_ascii_digit ds" "ds \<noteq> []" "\<not> is_zero_digit (hd ds)"
  shows "show_nat (read_nat ds) = ds"
  using assms
proof (induction ds rule: rev_induct)
  case (snoc c ds)
  have c: "digit_val c < 10" "digit_char (digit_val c) = c"
    using snoc.prems digit_less by (auto simp: digit_char_def digit_val_def is_ascii_digit_def)
  show ?case
  proof (cases "ds = []")
    case True
    with c show ?thesis by (simp add: show_nat.simps read_nat_Cons)
  next
    case False
    then have IH: "show_nat (read_nat ds) = ds" using snoc by simp
    have "read_nat ds \<noteq> 0"
      using snoc.prems False read_nat_eq_0_iff [of ds] by (cases ds) auto
    then have "show_nat (read_nat (ds @ [c])) =
        show_nat ((10 * read_nat ds + digit_val c) div 10) @ [digit_char (digit_val c)]"
      using c by (subst show_nat.simps) simp
    with IH c show ?thesis by simp
  qed
qed simp

lemma show_nat_0: "show_nat 0 = ''0''"
  by (subst show_nat.simps) (simp add: digit_char_def, code_simp)

lemma show_int_inject [simp]: "show_int m = show_int n \<longleftrightarrow> m = n"
proof -
  have "CHR ''-'' # x \<noteq> show_nat k" for x k
    using show_nat_no_dash [of k] by (metis list.set_intros(1))
  then show ?thesis by (auto simp: show_int_def) (metis show_nat_inject)+
qed

lemma position_unsigned:
  assumes "split_form d"
  shows "position is_exp_mark (unsigned_text d) =
    (case lx_exp d of None \<Rightarrow> None | Some _ \<Rightarrow> Some (length (mantissa_text d)))"
proof (cases "lx_exp d")
  case None
  then have "\<forall>c \<in> set (unsigned_text d). \<not> is_exp_mark c"
    using assms by (auto simp: split_form_def text_defs)
  with None show ?thesis by (simp add: position_None_iff [THEN iffD2])
next
  case (Some p)
  then show ?thesis
    using assms by (cases p) (simp add: split_form_def unsigned_text_def exponent_text_def
        position_first)
qed

lemma canonical_exponent:
  assumes "wf_number d" "exponent_within max_raw_json_exponent d"
  shows "(case position is_exp_mark (unsigned_text d) of
      None \<Rightarrow> (unsigned_text d, 0)
    | Some index \<Rightarrow>
        (take index (unsigned_text d),
         case parse_signed i64_max (drop (Suc index) (unsigned_text d)) of
           None \<Rightarrow> 0 | Some e \<Rightarrow> e)) = (mantissa_text d, number_exponent d)"
proof (cases "lx_exp d")
  case None
  then have "unsigned_text d = mantissa_text d" "position is_exp_mark (unsigned_text d) = None"
    by (simp_all add: position_unsigned [OF wf_number_form [OF assms(1)]])
      (simp add: unsigned_text_def exponent_text_def)
  with None show ?thesis by (simp add: number_exponent_def)
next
  case (Some p)
  obtain m t where p: "p = (m, t)" by force
  have "exp_ok t" using assms(1) Some p by (simp add: wf_number_def)
  moreover have "fits i64_max (exp_value t) = Some (exp_value t)"
    using assms(2) Some p
    by (simp add: exponent_within_def number_exponent_def fits_def i64_max_def
        max_raw_json_exponent_def) linarith
  moreover have "position is_exp_mark (unsigned_text d) = Some (length (mantissa_text d))"
      "unsigned_text d = mantissa_text d @ m # t"
    using Some p position_unsigned [OF wf_number_form [OF assms(1)]]
    by (simp_all add: unsigned_text_def exponent_text_def)
  ultimately show ?thesis
    using Some p by (simp add: number_exponent_def parse_signed_exp)
qed

lemma trailing_dropWhile:
  assumes "dropWhile is_zero_digit ds \<noteq> []"
  shows "trailing (dropWhile is_zero_digit ds) = trailing ds"
    and "trailing ds < length (dropWhile is_zero_digit ds)"
proof -
  define z where "z = takeWhile is_zero_digit ds"
  obtain c cs where c: "dropWhile is_zero_digit ds = c # cs"
    using assms by (cases "dropWhile is_zero_digit ds") auto
  then have nz: "\<not> is_zero_digit c" by (metis hd_dropWhile list.sel(1) list.distinct(1))
  have ds: "ds = z @ c # cs" using c takeWhile_dropWhile_id [of is_zero_digit ds] by (simp add: z_def)
  have t: "takeWhile is_zero_digit (rev cs @ c # xs) = takeWhile is_zero_digit (rev cs)" for xs
    using nz by (simp add: takeWhile_tail)
  have "trailing ds = length (takeWhile is_zero_digit (rev cs))"
    "trailing (c # cs) = length (takeWhile is_zero_digit (rev cs))"
    using t by (simp_all add: ds trailing_def)
  moreover have "length (takeWhile is_zero_digit (rev cs)) \<le> length cs"
    using length_takeWhile_le [of is_zero_digit "rev cs"] by simp
  ultimately show "trailing (dropWhile is_zero_digit ds) = trailing ds"
      "trailing ds < length (dropWhile is_zero_digit ds)"
    by (simp_all add: c)
qed

lemma canonical_digits:
  assumes ds: "list_all is_ascii_digit ds" and nz: "read_nat ds \<noteq> 0"
    and k: "k \<le> 0 \<or> nat k \<le> trailing ds"
  defines "digits \<equiv> dropWhile is_zero_digit ds"
  shows "(if k > 0 then take (length digits - nat k) digits
          else digits @ replicate (nat (- k)) CHR ''0'') = show_nat (shifted (read_nat ds) k)"
    and "0 < shifted (read_nat ds) k"
proof -
  have dd: "list_all is_ascii_digit digits"
    using ds by (auto simp: digits_def list_all_iff dest: set_dropWhileD)
  have ne: "digits \<noteq> []"
    using nz ds read_nat_eq_0_iff [OF ds] by (auto simp: digits_def dropWhile_eq_Nil_conv list_all_iff)
  then have hd: "\<not> is_zero_digit (hd digits)" by (simp add: digits_def hd_dropWhile)
  define out where "out = (if k > 0 then take (length digits - nat k) digits
      else digits @ replicate (nat (- k)) CHR ''0'')"
  have "list_all is_ascii_digit out"
    using dd by (auto simp: out_def list_all_iff is_ascii_digit_def dest: in_set_takeD)
  moreover have "out \<noteq> [] \<and> hd out = hd digits"
    using ne k trailing_dropWhile(2) [OF ne [unfolded digits_def]]
    by (cases digits) (auto simp: out_def digits_def [symmetric] take_Cons' )
  moreover have "read_nat out = shifted (read_nat ds) k"
    using read_nat_take [OF dd] by (simp add: out_def shifted_def read_nat_append) (simp add: digits_def)
  ultimately show "out = show_nat (shifted (read_nat ds) k)"
    using hd show_nat_read [of out] by simp
  show "0 < shifted (read_nat ds) k"
    using \<open>read_nat out = _\<close> \<open>list_all is_ascii_digit out\<close> \<open>out \<noteq> [] \<and> _\<close> hd
      read_nat_eq_0_iff [of out] by (cases out) auto
qed

lemma canonical_integer_lexeme_render:
  assumes "wf_number d" "is_mathematical_integer (render d)" "number_value d = of_int n"
  shows "canonical_integer_lexeme (render d) = show_int n"
proof -
  have form: "split_form d" using assms(1) by (rule wf_number_form)
  note m = is_mathematical_integer_render [OF assms(1), THEN iffD1, OF assms(2)]
  have ds: "list_all is_ascii_digit (number_digits d)" using wf_number_digits [OF assms(1)] by simp
  have "number_value d \<in> \<int>" using assms(3) by simp
  from number_value_eq [OF this] assms(3)
  have n: "n = (if lx_neg d then -1 else 1) *
      int (shifted (read_nat (number_digits d)) (number_scale d))"
    by (simp only: of_int_eq_iff)
  have c: "canonical_integer_lexeme (render d) =
      (if dropWhile is_zero_digit (number_digits d) = [] then ''0''
       else (let ds = (if number_scale d > 0
             then take (length (dropWhile is_zero_digit (number_digits d)) - nat (number_scale d))
               (dropWhile is_zero_digit (number_digits d))
             else dropWhile is_zero_digit (number_digits d) @
               replicate (nat (- number_scale d)) CHR ''0'')
         in if lx_neg d then CHR ''-'' # ds else ds))"
    using m by (simp only: canonical_integer_lexeme_def Let_def strip_or_self(3) [OF form] prod.case
        canonical_exponent [OF assms(1)] fraction_or_none(2) [OF form]
        number_digits_def [symmetric] number_scale_def [symmetric])
  show ?thesis
  proof (cases "read_nat (number_digits d) = 0")
    case True
    then have "dropWhile is_zero_digit (number_digits d) = []"
      using read_nat_eq_0_iff [OF ds] by (simp add: dropWhile_eq_Nil_conv list_all_iff)
    with True c n show ?thesis by (simp add: show_int_def shifted_def show_nat_0)
  next
    case False
    then have ne: "dropWhile is_zero_digit (number_digits d) \<noteq> []"
      using read_nat_eq_0_iff [OF ds] by (simp add: dropWhile_eq_Nil_conv list_all_iff)
    have k: "number_scale d \<le> 0 \<or> nat (number_scale d) \<le> trailing (number_digits d)"
      using m by simp
    show ?thesis
      unfolding c using n canonical_digits(2) [OF ds False k]
      by (simp only: ne if_False Let_def canonical_digits(1) [OF ds False k]) (simp add: show_int_def)
  qed
qed

text \<open>
  What an identifier denotes: a string is itself, a number is its mathematical value.
\<close>

definition id_meaning :: "request_id \<Rightarrow> bytes + rat" where
  "id_meaning rid =
     (case rid of
        IdString v \<Rightarrow> Inl v
      | IdNumber n \<Rightarrow> Inr (of_int n)
      | IdInteger lexeme \<Rightarrow> Inr (number_value (split_number lexeme)))"

lemma correlation_key_of_meaning:
  assumes "id_validate rid = Inr ()"
  shows "case id_meaning rid of
      Inl v \<Rightarrow> correlation_key_of rid = Inr (KeyString v)
    | Inr q \<Rightarrow> \<exists>n. q = of_int n \<and> correlation_key_of rid = Inr (KeyInteger (show_int n))"
proof (cases rid)
  case (IdInteger lexeme)
  then have a: "is_mathematical_integer lexeme"
    using assms by (simp add: id_validate_def split: if_splits)
  then obtain d where d: "wf_number d" "render d = lexeme" by (rule is_mathematical_integer_wf)
  then have s: "split_number lexeme = d"
    using split_number_render wf_number_form by blast
  have "number_value d \<in> \<int>"
    using a d is_mathematical_integer_render [OF d(1)] scale_condition [OF d(1)] by simp
  then obtain n where n: "number_value d = of_int n" by (auto elim: Ints_cases)
  with canonical_integer_lexeme_render [OF d(1) _ n] a d IdInteger assms s show ?thesis
    by (auto simp: id_meaning_def correlation_key_of_def)
qed (use assms in \<open>auto simp: id_meaning_def correlation_key_of_def\<close>)

lemma correlation_key_of_error:
  "id_validate rid = Inl e \<Longrightarrow> correlation_key_of rid = Inl e"
  by (simp add: correlation_key_of_def)

text \<open>C16: Two request identifiers correlate exactly when both are valid and denote the same string
  or the same mathematical integer: the spelling of a number never separates a response from its
  request, and a string never matches a number.\<close>

theorem correlation_is_value_equality:
  "correlates_with a b \<longleftrightarrow>
     id_validate a = Inr () \<and> id_validate b = Inr () \<and> id_meaning a = id_meaning b"
proof (cases "id_validate a = Inr () \<and> id_validate b = Inr ()")
  case True
  then show ?thesis
    using correlation_key_of_meaning [of a] correlation_key_of_meaning [of b]
    by (auto simp: correlates_with_def split: sum.splits)
next
  case False
  then have "(\<exists>e. id_validate a = Inl e) \<or> (\<exists>e. id_validate b = Inl e)"
    by (metis old.unit.exhaust sum.exhaust)
  with False show ?thesis
    using correlation_key_of_error by (auto simp: correlates_with_def split: sum.splits)
qed

text \<open>A numeric identifier read from the wire is valid and denotes the mathematical value of
  the number token, also when it is narrowed to a 64-bit integer.\<close>

lemma deserialized_id_keeps_value:
  assumes "wf_number d" "id_deserialize (NumberValue (render d)) = Inr rid"
  shows "id_validate rid = Inr () \<and> id_meaning rid = Inr (number_value d)"
proof (cases "is_mathematical_integer (render d) \<and> rid = IdInteger (render d)")
  case True
  then show ?thesis
    using split_number_render [OF wf_number_form [OF assms(1)]]
    by (simp add: id_validate_def id_meaning_def)
next
  case False
  define narrow where "narrow = (if list_ex (\<lambda>c. is_point c \<or> is_exp_mark c) (render d) \<or>
      render d = ''-0'' then None else parse_signed i64_max (render d))"
  have "id_deserialize (NumberValue (render d)) =
      (case narrow of Some value \<Rightarrow> Inr (IdNumber value)
       | None \<Rightarrow> if is_mathematical_integer (render d) then Inr (IdInteger (render d))
           else Inl ''JSON-RPC numeric id must be a mathematical integer'')"
    unfolding id_deserialize_def narrow_def by (simp only: id_value.case)
  with assms(2) False obtain n where "narrow = Some n" and rid: "rid = IdNumber n"
    by (cases narrow) (simp_all split: if_split_asm)
  then have plain: "\<not> list_ex (\<lambda>c. is_point c \<or> is_exp_mark c) (render d)"
      and n: "parse_signed i64_max (render d) = Some n"
    by (simp_all add: narrow_def split: if_split_asm)
  have frac: "lx_frac d = None"
  proof (cases "lx_frac d")
    case (Some f)
    then have "CHR ''.'' \<in> set (render d)"
      by (simp add: render_def unsigned_text_def mantissa_text_def)
    with plain show ?thesis by (force simp: list_ex_iff is_point_def)
  qed
  have none: "lx_exp d = None"
  proof (cases "lx_exp d")
    case (Some p)
    then have "fst p \<in> set (render d)" "is_exp_mark (fst p)"
      using wf_number_exp [OF assms(1)]
      by (simp_all add: render_def unsigned_text_def exponent_text_def case_prod_beta)
    with plain show ?thesis by (force simp: list_ex_iff)
  qed
  then have r: "render d = (if lx_neg d then [CHR ''-''] else []) @ lx_whole d"
    using frac by (simp add: render_def text_defs)
  have "sign_split (lx_whole d) = (False, lx_whole d)"
    using whole_ok_digits [of "lx_whole d"] assms(1) exp_ok_Cons_digits [of "lx_whole d"]
    by (simp add: wf_number_def)
  then have "sign_split (render d) = (lx_neg d, lx_whole d)"
    by (cases "lx_neg d") (simp_all add: r sign_split_def)
  then have "number_value d = of_int n"
    using n none frac
    by (auto simp: parse_signed_exp fits_Some_iff exp_value_def number_value_def number_digits_def
        number_scale_def number_exponent_def fraction_digits_def split: if_splits)
  with rid show ?thesis by (simp add: id_validate_def id_meaning_def)
qed

section \<open>Instances\<close>

lemmas number_eval =
  render_def text_defs wf_number_def whole_ok_def exp_ok_def sign_split_def is_ascii_digit_def
  is_exp_mark_def is_point_def is_zero_digit_def validate_json_integer_def split_exponent_def
  parse_bounded_json_integer_exponent_def strip_prefix_def split_once_def fits_def i32_max_def
  i64_max_def max_json_integer_bytes_def max_json_integer_exponent_abs_def number_value_def
  number_digits_def number_scale_def number_exponent_def exp_value_def read_nat_def Let_def

definition code_lexeme :: number_lexeme where
  "code_lexeme =
     \<lparr>lx_neg = True, lx_whole = ''326'', lx_frac = None, lx_exp = Some (CHR ''e'', ''2'')\<rparr>"

theorem json_integer_as_i32_exact_witness:
  "json_integer_as_i32 ''-326e2'' = Some (- 32600)"
proof -
  have w: "wf_number code_lexeme" "render code_lexeme = ''-326e2''"
    by (simp_all add: code_lexeme_def number_eval)
  have v: "validate_json_integer (render code_lexeme) = Inr ()"
    by (simp add: w) (simp add: number_eval)
  have "number_value code_lexeme = of_int (- 32600) \<and> - i32_max - 1 \<le> (- 32600 :: int) \<and>
      (- 32600 :: int) \<le> i32_max"
    by (simp add: code_lexeme_def number_eval)
  with json_integer_as_i32_exact [OF w(1) v, of "- 32600"] w(2) show ?thesis by simp
qed

end
