(* ===== verification/Number_Conversions.thy ===== *)
theory Number_Conversions
  imports Json_Number
begin

text \<open>
  Conversions of wire numbers to bounded local domains: exact progress numbers and their order
  (\<open>ExactNonNegativeJsonNumber\<close>, fastmcp-protocol/src/common_types.rs), cache lifetimes in
  milliseconds (\<open>CacheTtl\<close> and \<open>PeerCacheTtl\<close>, result.rs) and task durations (\<open>TaskDuration\<close>,
  tasks\_extension.rs).  The lemmas compare each result with the rational value of the spelling.
\<close>

section \<open>Exact progress numbers (common\_types.rs)\<close>

datatype ordering = Less | Equal | Greater

definition max_exact_progress_number_bytes :: nat where
  "max_exact_progress_number_bytes = 256"

definition max_exact_progress_exponent_abs :: int where
  "max_exact_progress_exponent_abs = 9999"

record exact_number =
  en_raw :: bytes
  en_negative :: bool
  en_significant_digits :: bytes
  en_decimal_point :: int

definition parse_bounded_progress_exponent :: "bytes \<Rightarrow> common_type_error + int" where
  "parse_bounded_progress_exponent value =
     (let (negative, digits) =
        (case strip_prefix ''-'' value of Some digits \<Rightarrow> (True, digits)
         | None \<Rightarrow>
             (False, case strip_prefix ''+'' value of Some digits \<Rightarrow> digits | None \<Rightarrow> value))
      in if digits = [] \<or> \<not> list_all is_ascii_digit digits
         then Inl (Invalid ''JSON progress number'')
         else case fold_digits i32_max 0 digits of
             None \<Rightarrow> Inl (TooLong ''progress number exponent'')
           | Some magnitude \<Rightarrow>
               if magnitude > max_exact_progress_exponent_abs
               then Inl (TooLong ''progress number exponent'')
               else Inr (if negative then - magnitude else magnitude))"

definition from_raw :: "bytes \<Rightarrow> common_type_error + exact_number" where
  "from_raw lexeme =
     (if length lexeme > max_exact_progress_number_bytes
      then Inl (TooLong ''exact progress number'')
      else
        let (negative, unsigned_lexeme) =
              (case strip_prefix ''-'' lexeme of Some u \<Rightarrow> (True, u) | None \<Rightarrow> (False, lexeme))
        in case split_exponent parse_bounded_progress_exponent unsigned_lexeme of
             Inl e \<Rightarrow> Inl e
           | Inr (mantissa, exponent) \<Rightarrow>
               let (whole, fraction) =
                     (case split_once is_point mantissa of Some p \<Rightarrow> p | None \<Rightarrow> (mantissa, []))
               in if whole = [] \<or> \<not> list_all is_ascii_digit whole \<or>
                     \<not> list_all is_ascii_digit fraction
                  then Inl (Invalid ''JSON progress number'')
                  else
                    let digits = whole @ fraction;
                        first_significant =
                          (case position (\<lambda>b. b \<noteq> CHR ''0'') digits of
                             Some i \<Rightarrow> i | None \<Rightarrow> length digits);
                        significant_digits =
                          (if first_significant = length digits then ''0''
                           else drop first_significant digits)
                    in case Option.bind (fits i32_max (int (length whole))) (\<lambda>w.
                            Option.bind (fits i32_max (int first_significant)) (\<lambda>f.
                            Option.bind (fits i32_max (w - f)) (\<lambda>point.
                            fits i32_max (point + exponent)))) of
                         None \<Rightarrow> Inl (TooLong ''exact progress number'')
                       | Some decimal_point \<Rightarrow>
                           Inr \<lparr>en_raw = lexeme, en_negative = negative,
                                en_significant_digits = significant_digits,
                                en_decimal_point = decimal_point\<rparr>)"

definition exact_number_parse ::
    "(bytes \<Rightarrow> bytes option) \<Rightarrow> bytes \<Rightarrow> common_type_error + exact_number" where
  "exact_number_parse raw_value lexeme =
     (case raw_value lexeme of
        None \<Rightarrow> Inl (Invalid ''JSON progress number'')
      | Some raw \<Rightarrow> from_raw raw)"

definition is_zero :: "exact_number \<Rightarrow> bool" where
  "is_zero n \<longleftrightarrow> en_significant_digits n = ''0''"

definition cmp :: "int \<Rightarrow> int \<Rightarrow> ordering" where
  "cmp a b = (if a < b then Less else if a = b then Equal else Greater)"

definition get_or_zero :: "bytes \<Rightarrow> nat \<Rightarrow> byte" where
  "get_or_zero ds index = (if index < length ds then ds ! index else CHR ''0'')"

fun cmp_digits :: "bytes \<Rightarrow> bytes \<Rightarrow> nat list \<Rightarrow> ordering" where
  "cmp_digits a b [] = Equal"
| "cmp_digits a b (index # indices) =
     (case cmp (int (code (get_or_zero a index))) (int (code (get_or_zero b index))) of
        Equal \<Rightarrow> cmp_digits a b indices
      | order \<Rightarrow> order)"

definition cmp_magnitude :: "exact_number \<Rightarrow> exact_number \<Rightarrow> ordering" where
  "cmp_magnitude a b =
     (case cmp (en_decimal_point a) (en_decimal_point b) of
        Equal \<Rightarrow>
          cmp_digits (en_significant_digits a) (en_significant_digits b)
            [0..<max (length (en_significant_digits a)) (length (en_significant_digits b))]
      | order \<Rightarrow> order)"

definition exact_number_cmp :: "exact_number \<Rightarrow> exact_number \<Rightarrow> ordering" where
  "exact_number_cmp a b =
     (if is_zero a \<and> is_zero b then Equal
      else if is_zero a then Less
      else if is_zero b then Greater
      else if en_negative a \<and> \<not> en_negative b then Less
      else if \<not> en_negative a \<and> en_negative b then Greater
      else if en_negative a then cmp_magnitude b a
      else cmp_magnitude a b)"

section \<open>Cache lifetimes (result.rs)\<close>

datatype cache_ttl_conversion_error = Negative | TtlRuntimeOutOfRange

text \<open>A cache lifetime is the spelling of an admitted JSON integer.\<close>

type_synonym cache_ttl = bytes

definition is_nonzero_digit :: "byte \<Rightarrow> bool" where
  "is_nonzero_digit c \<longleftrightarrow> 49 \<le> code c \<and> code c \<le> 57"

definition split_mantissa :: "bytes \<Rightarrow> bytes \<times> bytes" where
  "split_mantissa unsigned =
     (case split_once is_exp_mark unsigned of Some p \<Rightarrow> p | None \<Rightarrow> (unsigned, ''0''))"

definition split_fraction :: "bytes \<Rightarrow> bytes \<times> bytes" where
  "split_fraction mantissa =
     (case split_once is_point mantissa of Some p \<Rightarrow> p | None \<Rightarrow> (mantissa, []))"

text \<open>
  The digits of the integer part after moving the decimal point \<open>decimal_shift\<close> places, the code
  shared by both millisecond conversions: at most 20 digits are materialized, and a non-zero
  digit behind the point is refused.
\<close>

definition shift_digits :: "bytes \<Rightarrow> int \<Rightarrow> bytes option" where
  "shift_digits digits decimal_shift =
     (if decimal_shift \<ge> 0 then
        (if nat decimal_shift > u64_max then None
         else case checked_add (length digits) (nat decimal_shift) of
             None \<Rightarrow> None
           | Some len \<Rightarrow>
               if len > 20 then None
               else Some (digits @ replicate (nat decimal_shift) CHR ''0''))
      else
        (if nat (- decimal_shift) > u64_max then None
         else case checked_sub (length digits) (nat (- decimal_shift)) of
             None \<Rightarrow> None
           | Some len \<Rightarrow>
               if \<not> list_all is_zero_digit (drop len digits) then None
               else Some (take len digits)))"

definition digits_to_u64 :: "bytes \<Rightarrow> nat option" where
  "digits_to_u64 integer_digits =
     (let normalized = dropWhile is_zero_digit integer_digits
      in if normalized = [] then Some 0
         else if length normalized > 20 then None
         else parse_u64 normalized)"

definition cache_ttl_is_negative :: "bytes \<Rightarrow> bool" where
  "cache_ttl_is_negative lexeme =
     (case strip_prefix ''-'' lexeme of
        None \<Rightarrow> False
      | Some absolute \<Rightarrow>
          list_ex is_nonzero_digit (takeWhile (\<lambda>c. \<not> is_exp_mark c) absolute))"

definition cache_ttl_runtime_millis :: "bytes \<Rightarrow> cache_ttl_conversion_error + nat" where
  "cache_ttl_runtime_millis lexeme =
     (let unsigned = (case strip_prefix ''-'' lexeme of Some u \<Rightarrow> u | None \<Rightarrow> lexeme);
          (mantissa, exponent) = split_mantissa unsigned
      in case parse_signed i128_max exponent of
           None \<Rightarrow> Inl TtlRuntimeOutOfRange
         | Some exponent \<Rightarrow>
             let (whole, fraction) = split_fraction mantissa;
                 digits = whole @ fraction
             in if \<not> list_ex is_nonzero_digit digits then Inr 0
                else ok_or TtlRuntimeOutOfRange
                  (Option.bind (fits i128_max (exponent - int (length fraction)))
                     (\<lambda>decimal_shift.
                  Option.bind (shift_digits digits decimal_shift) digits_to_u64)))"

definition ttl_milliseconds :: "nat \<Rightarrow> cache_ttl" where
  "ttl_milliseconds value = show_nat value"

definition ttl_try_as_millis :: "cache_ttl \<Rightarrow> cache_ttl_conversion_error + nat" where
  "ttl_try_as_millis ttl = cache_ttl_runtime_millis ttl"

definition ttl_try_from :: "bytes \<Rightarrow> cache_ttl_conversion_error + cache_ttl" where
  "ttl_try_from value = (if cache_ttl_is_negative value then Inl Negative else Inr value)"

datatype peer_cache_ttl_deviation = NegativeTtl | MissingTtl

datatype peer_cache_ttl = Conforming cache_ttl | ImmediatelyStale peer_cache_ttl_deviation

definition conforming :: "peer_cache_ttl \<Rightarrow> cache_ttl option" where
  "conforming p = (case p of Conforming ttl \<Rightarrow> Some ttl | ImmediatelyStale _ \<Rightarrow> None)"

definition deviation :: "peer_cache_ttl \<Rightarrow> peer_cache_ttl_deviation option" where
  "deviation p = (case p of Conforming _ \<Rightarrow> None | ImmediatelyStale reason \<Rightarrow> Some reason)"

definition freshness_millis :: "peer_cache_ttl \<Rightarrow> cache_ttl_conversion_error + nat" where
  "freshness_millis p =
     (case p of Conforming ttl \<Rightarrow> ttl_try_as_millis ttl | ImmediatelyStale _ \<Rightarrow> Inr 0)"

section \<open>Task durations (tasks\_extension.rs)\<close>

datatype task_wire_error = InvalidField string | InputResponseKind

datatype task_duration_conversion_error = DurationRuntimeOutOfRange

type_synonym task_duration = bytes

definition task_duration_runtime_millis :: "bytes \<Rightarrow> task_duration_conversion_error + nat" where
  "task_duration_runtime_millis lexeme =
     (if starts_with lexeme ''-'' then Inl DurationRuntimeOutOfRange
      else
        let (mantissa, exponent) = split_mantissa lexeme
        in case parse_signed i128_max exponent of
             None \<Rightarrow> Inl DurationRuntimeOutOfRange
           | Some exponent \<Rightarrow>
               let (whole, fraction) = split_fraction mantissa;
                   digits = whole @ fraction
               in ok_or DurationRuntimeOutOfRange
                    (Option.bind (fits i128_max (exponent - int (length fraction)))
                       (\<lambda>decimal_shift.
                    Option.bind (shift_digits digits decimal_shift) digits_to_u64)))"

definition duration_from_json_integer :: "bytes \<Rightarrow> task_wire_error + task_duration" where
  "duration_from_json_integer value =
     (case task_duration_runtime_millis value of
        Inl _ \<Rightarrow> Inl (InvalidField ''duration'')
      | Inr millis \<Rightarrow>
          if millis = 0 then Inl (InvalidField ''duration'') else Inr (show_nat millis))"

definition duration_try_as_millis :: "task_duration \<Rightarrow> task_duration_conversion_error + nat" where
  "duration_try_as_millis d = ok_or DurationRuntimeOutOfRange (parse_u64 d)"

section \<open>Milliseconds\<close>

text \<open>Spellings that need more than 20 digits without an exponent.\<close>

definition overlong :: "number_lexeme \<Rightarrow> bool" where
  "overlong d \<longleftrightarrow>
     number_scale d \<le> 0 \<and> 20 < length (number_digits d) + nat (- number_scale d)"

lemma digits_append_zeroes:
  "list_all is_ascii_digit ds \<Longrightarrow> list_all is_ascii_digit (ds @ replicate n CHR ''0'')"
  by (auto simp: list_all_iff is_ascii_digit_def)

lemma trailing_drop:
  "k \<le> trailing ds \<longleftrightarrow> k \<le> length ds \<and> list_all is_zero_digit (drop (length ds - k) ds)"
proof -
  have t: "k \<le> length (takeWhile P xs) \<longleftrightarrow> k \<le> length xs \<and> list_all P (take k xs)" for P and xs :: bytes
  proof (induction xs arbitrary: k)
    case (Cons x xs)
    then show ?case by (cases k) auto
  qed simp
  show ?thesis
    using t [of is_zero_digit "rev ds"]
    by (simp add: trailing_def take_rev list_all_iff)
qed

lemma shift_digits_eq:
  assumes "list_all is_ascii_digit ds" "length ds \<le> u64_max" "nat \<bar>k\<bar> \<le> u64_max"
  shows "shift_digits ds (- k) =
    (if k \<le> 0 then
       (if 20 < length ds + nat (- k) then None else Some (ds @ replicate (nat (- k)) CHR ''0''))
     else if nat k \<le> trailing ds then Some (take (length ds - nat k) ds) else None)"
proof (cases "k \<le> 0")
  case True
  then have "\<not> nat (- k) > u64_max" using assms(3) by (simp add: abs_if split: if_splits)
  with True show ?thesis
    by (auto simp: shift_digits_def checked_add_def u64_max_def split: option.splits)
next
  case False
  then have "\<not> nat k > u64_max" using assms(3) by simp
  with False show ?thesis
    by (auto simp: shift_digits_def checked_sub_def trailing_drop)
qed

lemma parse_u64_digits:
  assumes "list_all is_ascii_digit ds" "ds \<noteq> []"
  shows "parse_u64 ds = (if read_nat ds \<le> u64_max then Some (read_nat ds) else None)"
proof -
  have "strip_prefix ''+'' ds = None"
    using assms digit_not_mark by (cases ds) (auto simp: strip_prefix_single)
  with assms show ?thesis by (simp add: parse_u64_def)
qed

lemma digits_to_u64_eq:
  assumes "list_all is_ascii_digit ds"
  shows "digits_to_u64 ds = (if read_nat ds \<le> u64_max then Some (read_nat ds) else None)"
proof -
  define nz where "nz = dropWhile is_zero_digit ds"
  have nz: "list_all is_ascii_digit nz" "read_nat nz = read_nat ds"
    using assms by (auto simp: nz_def list_all_iff dest: set_dropWhileD)
  show ?thesis
  proof (cases "nz = [] \<or> length nz \<le> 20")
    case True
    have "nz = [] \<Longrightarrow> read_nat ds = 0" using nz(2) by simp
    with True nz parse_u64_digits [OF nz(1)] show ?thesis
      by (auto simp: digits_to_u64_def nz_def [symmetric])
  next
    case False
    then obtain c cs where c: "nz = c # cs" "20 \<le> length cs" by (cases nz) auto
    then have "\<not> is_zero_digit c" by (metis hd_dropWhile list.sel(1) list.distinct(1) nz_def)
    then have "(10::nat) ^ length cs \<le> read_nat ds" using read_nat_ge [of c cs] nz c by auto
    moreover have "(10::nat) ^ 20 \<le> 10 ^ length cs" using c by (intro power_increasing) auto
    ultimately have "\<not> read_nat ds \<le> u64_max" unfolding u64_max_def by simp
    with False show ?thesis by (simp add: digits_to_u64_def nz_def [symmetric])
  qed
qed

lemma millis_core:
  assumes "list_all is_ascii_digit ds" "length ds \<le> 4096" "\<bar>k\<bar> \<le> 14096"
  shows "Option.bind (fits i128_max (- k)) (\<lambda>k. Option.bind (shift_digits ds k) digits_to_u64) =
    (if k \<le> 0 \<and> 20 < length ds + nat (- k) \<or> 0 < k \<and> trailing ds < nat k \<or>
        u64_max < shifted (read_nat ds) k then None
     else Some (shifted (read_nat ds) k))"
proof -
  have f: "fits i128_max (- k) = Some (- k)"
    using assms(3) by (simp add: fits_def i128_max_def abs_le_iff)
  have b: "length ds \<le> u64_max" "nat \<bar>k\<bar> \<le> u64_max"
    using assms(2,3) by (simp_all add: u64_max_def)
  show ?thesis
  proof (cases "k \<le> 0")
    case True
    then have "read_nat (ds @ replicate (nat (- k)) CHR ''0'') = shifted (read_nat ds) k"
      by (simp add: read_nat_append shifted_def)
    with True show ?thesis
      by (auto simp: f shift_digits_eq [OF assms(1) b]
          digits_to_u64_eq [OF digits_append_zeroes [OF assms(1)]])
  next
    case False
    then have "read_nat (take (length ds - nat k) ds) = shifted (read_nat ds) k"
      by (simp add: read_nat_take [OF assms(1)] shifted_def)
    moreover have "list_all is_ascii_digit (take (length ds - nat k) ds)"
      using assms(1) by (auto simp: list_all_iff dest: in_set_takeD)
    ultimately show ?thesis
      using False by (auto simp: f shift_digits_eq [OF assms(1) b] digits_to_u64_eq)
  qed
qed

lemma admitted_bounds:
  assumes "wf_number d" "validate_json_integer (render d) = Inr ()"
  shows "list_all is_ascii_digit (number_digits d)" "length (number_digits d) \<le> 4096"
    "\<bar>number_scale d\<bar> \<le> 14096" "number_value d \<in> \<int>"
    "exponent_within max_json_integer_exponent_abs d"
proof -
  note v = validate_render_iff [OF wf_number_form [OF assms(1)], THEN iffD1, OF assms(2)]
  show "list_all is_ascii_digit (number_digits d)" using wf_number_digits [OF assms(1)] by simp
  show len: "length (number_digits d) \<le> 4096"
    using v by (simp add: render_def number_digits_def text_defs max_json_integer_bytes_def
        split: option.splits)
  show "exponent_within max_json_integer_exponent_abs d" "number_value d \<in> \<int>" using v by simp_all
  then show "\<bar>number_scale d\<bar> \<le> 14096"
    using len by (simp add: exponent_within_def max_json_integer_exponent_abs_def number_scale_def
        number_digits_def)
qed

lemma split_mantissa_render:
  assumes "wf_number d"
  shows "split_mantissa (unsigned_text d) =
    (mantissa_text d, case lx_exp d of None \<Rightarrow> ''0'' | Some (m, t) \<Rightarrow> t)"
proof (cases "lx_exp d")
  case None
  then have "\<forall>c \<in> set (unsigned_text d). \<not> is_exp_mark c"
    using wf_number_form [OF assms] by (auto simp: split_form_def text_defs)
  with None show ?thesis
    by (simp add: split_mantissa_def split_once_None) (simp add: unsigned_text_def exponent_text_def)
next
  case (Some p)
  then show ?thesis
    using wf_number_form [OF assms]
    by (cases p) (simp add: split_mantissa_def split_form_def unsigned_text_def exponent_text_def
        split_once_at)
qed

lemma parse_exponent_i128:
  assumes "wf_number d" "exponent_within max_json_integer_exponent_abs d"
  shows "parse_signed i128_max (case lx_exp d of None \<Rightarrow> ''0'' | Some (m, t) \<Rightarrow> t) =
    Some (number_exponent d)"
proof (cases "lx_exp d")
  case None
  then show ?thesis
    by (simp add: parse_signed_exp exp_ok_def exp_value_def sign_split_def is_ascii_digit_def
        number_exponent_def fits_def i128_max_def read_nat_def)
next
  case (Some p)
  then show ?thesis
    using assms
    by (cases p) (simp add: parse_signed_exp wf_number_def number_exponent_def exponent_within_def
        fits_def i128_max_def max_json_integer_exponent_abs_def abs_le_iff)
qed

lemma split_fraction_render:
  "wf_number d \<Longrightarrow> split_fraction (mantissa_text d) = (lx_whole d, fraction_digits d)"
  using fraction_or_none(2) [OF wf_number_form] by (simp add: split_fraction_def)

lemma nonzero_digit_iff:
  assumes "is_ascii_digit c"
  shows "is_nonzero_digit c \<longleftrightarrow> \<not> is_zero_digit c"
  using assms zero_digit_val [OF assms]
  by (auto simp: is_nonzero_digit_def is_ascii_digit_def digit_val_def)

lemma list_ex_nonzero:
  "list_all is_ascii_digit ds \<Longrightarrow> list_ex is_nonzero_digit ds \<longleftrightarrow> read_nat ds \<noteq> 0"
  by (simp add: read_nat_eq_0_iff) (auto simp: list_ex_iff list_all_iff nonzero_digit_iff)

lemma cache_ttl_is_negative_render:
  assumes "wf_number d"
  shows "cache_ttl_is_negative (render d) \<longleftrightarrow> number_value d < 0"
proof -
  have form: "split_form d" using assms by (rule wf_number_form)
  have "takeWhile (\<lambda>c. \<not> is_exp_mark c) (unsigned_text d) = mantissa_text d"
    using form by (auto simp: split_form_def unsigned_text_def exponent_text_def takeWhile_eq_all_conv
        split: option.splits)
  moreover have "list_ex is_nonzero_digit (mantissa_text d) \<longleftrightarrow> read_nat (number_digits d) \<noteq> 0"
  proof -
    have "list_ex is_nonzero_digit (mantissa_text d) \<longleftrightarrow> list_ex is_nonzero_digit (number_digits d)"
      by (auto simp: mantissa_text_def number_digits_def fraction_digits_def is_nonzero_digit_def
          split: option.splits)
    then show ?thesis using list_ex_nonzero wf_number_digits [OF assms] by simp
  qed
  moreover have "number_value d < 0 \<longleftrightarrow> lx_neg d \<and> read_nat (number_digits d) \<noteq> 0"
  proof -
    define q where "q = (10::rat) powi (- number_scale d)"
    have "0 < q" by (simp add: q_def)
    then show ?thesis
      unfolding number_value_def q_def [symmetric] by (auto simp: mult_less_0_iff zero_less_mult_iff)
  qed
  ultimately show ?thesis
    by (simp add: cache_ttl_is_negative_def strip_sign [OF form])
qed

lemma ttl_millis_render:
  assumes "wf_number d" "validate_json_integer (render d) = Inr ()"
  shows "ttl_try_as_millis (render d) =
    (if number_value d \<noteq> 0 \<and> (overlong d \<or>
        u64_max < shifted (read_nat (number_digits d)) (number_scale d))
     then Inl TtlRuntimeOutOfRange
     else Inr (shifted (read_nat (number_digits d)) (number_scale d)))"
proof -
  note b = admitted_bounds [OF assms]
  have form: "split_form d" using assms(1) by (rule wf_number_form)
  have k: "number_exponent d - int (length (fraction_digits d)) = - number_scale d"
    by (simp add: number_scale_def)
  have tz: "\<not> (0 < number_scale d \<and> trailing (number_digits d) < nat (number_scale d))"
    if "number_value d \<noteq> 0"
    using that b(4) scaled_integral [OF b(1), of "number_scale d"]
    by (auto simp: number_value_integral number_value_eq_0_iff)
  have z: "number_value d = 0 \<Longrightarrow> shifted (read_nat (number_digits d)) (number_scale d) = 0"
    by (simp add: number_value_eq_0_iff shifted_def)
  have "cache_ttl_runtime_millis (render d) =
      (if \<not> list_ex is_nonzero_digit (number_digits d) then Inr 0
       else ok_or TtlRuntimeOutOfRange (Option.bind (fits i128_max (- number_scale d))
          (\<lambda>k. Option.bind (shift_digits (number_digits d) k) digits_to_u64)))"
    by (simp only: cache_ttl_runtime_millis_def Let_def strip_or_self(1) [OF form] prod.case
        split_mantissa_render [OF assms(1)] parse_exponent_i128 [OF assms(1) b(5)] option.case
        split_fraction_render [OF assms(1)] number_digits_def [symmetric] k)
  with z tz show ?thesis
    by (auto simp: ttl_try_as_millis_def millis_core [OF b(1-3)] overlong_def list_ex_nonzero [OF b(1)]
        number_value_eq_0_iff)
qed

lemma nonneg_value:
  assumes "number_value d \<in> \<int>" "0 \<le> number_value d"
  shows "number_value d = of_nat (shifted (read_nat (number_digits d)) (number_scale d))"
proof -
  define r where "r = shifted (read_nat (number_digits d)) (number_scale d)"
  have v: "number_value d = of_int ((if lx_neg d then -1 else 1) * int r)"
    using number_value_eq [OF assms(1)] by (simp only: r_def)
  show ?thesis
  proof (cases "lx_neg d")
    case True
    with v assms(2) have "r = 0" by simp
    with v show ?thesis by (simp add: r_def [symmetric])
  qed (use v in \<open>simp add: r_def [symmetric]\<close>)
qed

lemma overlong_large:
  assumes "wf_number d" "overlong d" "lx_whole d \<noteq> ''0''"
  shows "u64_max < shifted (read_nat (number_digits d)) (number_scale d)"
proof -
  define ds where "ds = number_digits d"
  define z where "z = nat (- number_scale d)"
  obtain c cs where c: "ds = c # cs" "is_ascii_digit c" "\<not> is_zero_digit c"
    using assms(1,3) by (cases "lx_whole d")
      (auto simp: wf_number_def whole_ok_def ds_def number_digits_def is_zero_digit_def)
  have "(10::nat) ^ 20 \<le> 10 ^ (length cs + z)"
    using assms(2) c by (intro power_increasing) (auto simp: overlong_def ds_def z_def)
  also have "\<dots> = 10 ^ length cs * 10 ^ z" by (simp add: power_add)
  also have "\<dots> \<le> read_nat ds * 10 ^ z"
    using read_nat_ge [OF c(2,3), of cs] c(1) by simp
  finally have "(10::nat) ^ 20 \<le> read_nat ds * 10 ^ z" .
  moreover have "u64_max < (10::nat) ^ 20" by (simp add: u64_max_def)
  ultimately show ?thesis
    using assms(2) by (simp add: shifted_def overlong_def ds_def z_def)
qed

text \<open>C31: A cache lifetime is refused as negative exactly when its value is negative, and its
  reading in milliseconds is its exact value, present exactly when the value fits 64 bits and the
  spelling is not overlong; a spelling whose integer part is not \<open>0\<close> is overlong only when the
  value does not fit.\<close>

theorem cache_ttl_millis_exact:
  assumes "wf_number d" "validate_json_integer (render d) = Inr ()"
  shows "(ttl_try_from (render d) = Inl Negative \<longleftrightarrow> number_value d < 0) \<and>
    (0 \<le> number_value d \<longrightarrow>
      (ttl_try_as_millis (render d) = Inr n \<longleftrightarrow>
        number_value d = of_nat n \<and> n \<le> u64_max \<and> (number_value d = 0 \<or> \<not> overlong d))) \<and>
    (lx_whole d \<noteq> ''0'' \<and> overlong d \<longrightarrow> of_nat u64_max < \<bar>number_value d\<bar>)"
proof (intro conjI impI)
  note b = admitted_bounds [OF assms]
  show "ttl_try_from (render d) = Inl Negative \<longleftrightarrow> number_value d < 0"
    by (simp add: ttl_try_from_def cache_ttl_is_negative_render [OF assms(1)])
  show "ttl_try_as_millis (render d) = Inr n \<longleftrightarrow>
      number_value d = of_nat n \<and> n \<le> u64_max \<and> (number_value d = 0 \<or> \<not> overlong d)"
    if "0 \<le> number_value d"
    unfolding ttl_millis_render [OF assms] nonneg_value [OF b(4) that]
    by (auto simp: not_less) 
  show "of_nat u64_max < \<bar>number_value d\<bar>" if "lx_whole d \<noteq> ''0'' \<and> overlong d"
  proof -
    have "u64_max < shifted (read_nat (number_digits d)) (number_scale d)"
      using overlong_large [OF assms(1)] that by simp
    then have "(of_nat u64_max :: rat) < of_nat (shifted (read_nat (number_digits d)) (number_scale d))"
      by (simp only: of_nat_less_iff)
    then show ?thesis
      using number_value_eq [OF b(4)] by (auto simp: abs_mult simp del: of_nat_less_iff)
  qed
qed

lemma parse_u64_show_nat: "n \<le> u64_max \<Longrightarrow> parse_u64 (show_nat n) = Some n"
proof -
  have "list_all is_ascii_digit (show_nat n)"
    using show_nat_digits by (force simp: list_all_iff is_ascii_digit_def)
  moreover have "show_nat n \<noteq> []" by (subst show_nat.simps) simp
  ultimately show "n \<le> u64_max \<Longrightarrow> parse_u64 (show_nat n) = Some n"
    by (simp add: parse_u64_digits)
qed

text \<open>A task duration is admitted exactly when the JSON integer is a positive value that fits
  64 bits and is not spelled overlong; it is stored as the canonical decimal spelling of that value
  and reads back as it.\<close>

lemma task_duration_roundtrip:
  assumes "wf_number d" "validate_json_integer (render d) = Inr ()" "\<not> overlong d"
  shows "duration_from_json_integer (render d) =
    (if number_value d > 0 \<and> number_value d \<le> of_nat u64_max
     then Inr (show_nat (nat \<lfloor>number_value d\<rfloor>)) else Inl (InvalidField ''duration'')) \<and>
    (duration_from_json_integer (render d) = Inr t \<longrightarrow>
      duration_try_as_millis t = Inr (nat \<lfloor>number_value d\<rfloor>))"
proof -
  note b = admitted_bounds [OF assms(1,2)]
  define r where "r = shifted (read_nat (number_digits d)) (number_scale d)"
  have v: "number_value d = of_int ((if lx_neg d then -1 else 1) * int r)"
    using number_value_eq [OF b(4)] by (simp only: r_def)
  have k: "number_exponent d - int (length (fraction_digits d)) = - number_scale d"
    by (simp add: number_scale_def)
  have s: "starts_with (render d) ''-'' \<longleftrightarrow> lx_neg d"
    using strip_sign(1) [OF wf_number_form [OF assms(1)]]
    by (auto simp: starts_with_def strip_prefix_def split: if_splits)
  have u: "\<not> lx_neg d \<Longrightarrow> render d = unsigned_text d" by (simp add: render_def)
  have "task_duration_runtime_millis (render d) =
      (if lx_neg d then Inl DurationRuntimeOutOfRange
       else ok_or DurationRuntimeOutOfRange (Option.bind (fits i128_max (- number_scale d))
          (\<lambda>k. Option.bind (shift_digits (number_digits d) k) digits_to_u64)))"
    using u
    by (simp only: task_duration_runtime_millis_def s Let_def prod.case if_cancel simp_thms
        split_mantissa_render [OF assms(1)] parse_exponent_i128 [OF assms(1) b(5)] option.case
        split_fraction_render [OF assms(1)] number_digits_def [symmetric] k cong: if_cong)
  moreover have "\<not> (0 < number_scale d \<and> trailing (number_digits d) < nat (number_scale d))"
    if "r \<noteq> 0"
    using that b(4) scaled_integral [OF b(1), of "number_scale d"]
    by (auto simp: number_value_integral r_def shifted_def)
  ultimately have t: "task_duration_runtime_millis (render d) =
      (if lx_neg d \<or> u64_max < r then Inl DurationRuntimeOutOfRange else Inr r) \<or>
      (r = 0 \<and> task_duration_runtime_millis (render d) = Inl DurationRuntimeOutOfRange)"
    using assms(3) by (auto simp: millis_core [OF b(1-3)] overlong_def r_def [symmetric])
  have p: "number_value d > 0 \<and> number_value d \<le> of_nat u64_max \<longleftrightarrow> \<not> lx_neg d \<and> 0 < r \<and> r \<le> u64_max"
    by (auto simp: v)
  have f: "\<not> lx_neg d \<Longrightarrow> nat \<lfloor>number_value d\<rfloor> = r" by (simp add: v)
  show ?thesis
    using t p f parse_u64_show_nat [of r]
    by (auto simp: duration_from_json_integer_def duration_try_as_millis_def split: if_splits)
qed

section \<open>Exact order of progress numbers\<close>

lemma parse_progress_exponent:
  "parse_bounded_progress_exponent t =
     (if \<not> exp_ok t then Inl (Invalid ''JSON progress number'')
      else if \<bar>exp_value t\<bar> > max_exact_progress_exponent_abs
        then Inl (TooLong ''progress number exponent'')
      else Inr (exp_value t))"
  by (auto simp: parse_bounded_progress_exponent_def sign_split_strip exp_ok_def exp_value_def
      case_prod_beta Let_def fold_digits_eq fits_def i32_max_def max_exact_progress_exponent_abs_def
      split: option.splits)

definition order_of :: "'a::linorder \<Rightarrow> 'a \<Rightarrow> ordering" where
  "order_of a b = (if a < b then Less else if a = b then Equal else Greater)"

lemma order_of_less: "a < b \<Longrightarrow> order_of a b = Less" "b < a \<Longrightarrow> order_of a b = Greater"
  by (auto simp: order_of_def)

lemma cmp_order: "cmp a b = order_of a b"
  by (simp add: cmp_def order_of_def)

text \<open>The magnitude of a decomposed number: \<open>0.d\<^sub>1d\<^sub>2\<dots> \<cdot> 10\<^sup>p\<close>.\<close>

definition magnitude :: "bytes \<Rightarrow> int \<Rightarrow> rat" where
  "magnitude ds p = of_nat (read_nat ds) * 10 powi (p - int (length ds))"

definition exact_value :: "exact_number \<Rightarrow> rat" where
  "exact_value x =
     (if en_negative x then -1 else 1) * magnitude (en_significant_digits x) (en_decimal_point x)"

definition significant :: "bytes \<Rightarrow> bool" where
  "significant ds \<longleftrightarrow> ds \<noteq> [] \<and> list_all is_ascii_digit ds \<and> \<not> is_zero_digit (hd ds)"

lemma magnitude_bounds:
  assumes "significant ds"
  shows "10 powi (p - 1) \<le> magnitude ds p" "magnitude ds p < 10 powi p"
proof -
  obtain c cs where c: "ds = c # cs" "is_ascii_digit c" "\<not> is_zero_digit c"
      "list_all is_ascii_digit ds"
    using assms by (cases ds) (auto simp: significant_def)
  define q where "q = (10::rat) powi (p - int (length ds))"
  have q: "0 < q" by (simp add: q_def)
  have "(10::rat) powi (p - 1) = 10 ^ length cs * q"
    by (simp add: q_def c(1) power_int_add [symmetric] flip: power_int_of_nat)
  moreover have "(10::rat) ^ length cs \<le> of_nat (read_nat ds)"
    using read_nat_ge [OF c(2,3), of cs] c(1) by (metis of_nat_le_iff of_nat_numeral of_nat_power)
  ultimately show "10 powi (p - 1) \<le> magnitude ds p"
    using q by (simp add: magnitude_def q_def [symmetric])
  have "(10::rat) powi p = 10 ^ length ds * q"
    by (simp add: q_def power_int_add [symmetric] flip: power_int_of_nat)
  moreover have "of_nat (read_nat ds) < (10::rat) ^ length ds"
    using read_nat_less [OF c(4)] by (metis of_nat_less_iff of_nat_numeral of_nat_power)
  ultimately show "magnitude ds p < 10 powi p"
    using q by (simp add: magnitude_def q_def [symmetric])
qed

definition pad :: "nat \<Rightarrow> bytes \<Rightarrow> bytes" where
  "pad m ds = ds @ replicate (m - length ds) CHR ''0''"

lemma magnitude_pad:
  assumes "length ds \<le> m"
  shows "magnitude ds p = of_nat (read_nat (pad m ds)) * 10 powi (p - int m)"
proof -
  have "(10::rat) ^ (m - length ds) * 10 powi (p - int m) = 10 powi (p - int (length ds))"
    using assms by (simp add: power_int_add [symmetric] of_nat_diff flip: power_int_of_nat)
  then show ?thesis
    by (simp add: magnitude_def pad_def read_nat_append mult.assoc)
qed

lemma pad_nth: "i < m \<Longrightarrow> pad m ds ! i = get_or_zero ds i"
  by (simp add: pad_def get_or_zero_def nth_append)

lemma cmp_digits_order:
  assumes "list_all is_ascii_digit a" "list_all is_ascii_digit b"
    and "length a \<le> m" "length b \<le> m" "i \<le> m"
  shows "cmp_digits a b [i..<m] =
    order_of (read_nat (drop i (pad m a))) (read_nat (drop i (pad m b)))"
  using assms(5)
proof (induction "m - i" arbitrary: i)
  case 0
  then show ?case using assms by (simp add: pad_def order_of_def)
next
  case (Suc k)
  then have i: "i < m" by simp
  define x y where "x = pad m a ! i" "y = pad m b ! i"
  define xs ys where "xs = drop (Suc i) (pad m a)" "ys = drop (Suc i) (pad m b)"
  have len: "length (pad m a) = m" "length (pad m b) = m" using assms by (simp_all add: pad_def)
  then have d: "drop i (pad m a) = x # xs" "drop i (pad m b) = y # ys"
    using i by (simp_all add: x_y_def xs_ys_def Cons_nth_drop_Suc)
  have all: "list_all is_ascii_digit (pad m a)" "list_all is_ascii_digit (pad m b)"
    using assms digits_append_zeroes by (simp_all add: pad_def)
  have dig: "is_ascii_digit x" "is_ascii_digit y" "list_all is_ascii_digit xs" "list_all is_ascii_digit ys"
    using all i len by (auto simp: x_y_def xs_ys_def list_all_iff dest: in_set_dropD)
  have l: "length xs = length ys" using len by (simp add: xs_ys_def)
  have IH: "cmp_digits a b [Suc i..<m] = order_of (read_nat xs) (read_nat ys)"
    using Suc by (simp add: xs_ys_def)
  have c: "order_of (int (code x)) (int (code y)) = order_of (digit_val x) (digit_val y)"
  proof -
    have "code x = 48 + digit_val x" "code y = 48 + digit_val y"
      using dig by (simp_all add: digit_val_def is_ascii_digit_def)
    then show ?thesis by (simp add: order_of_def)
  qed
  have xy: "read_nat (x # xs) = digit_val x * 10 ^ length ys + read_nat xs"
      "read_nat (y # ys) = digit_val y * 10 ^ length ys + read_nat ys"
    using l by (simp_all add: read_nat_Cons)
  have s: "read_nat xs < 10 ^ length ys" "read_nat ys < 10 ^ length ys"
    using read_nat_less [OF dig(3)] read_nat_less [OF dig(4)] l by simp_all
  have lt: "u * (10::nat) ^ n + v < u' * 10 ^ n + v'" if "u < u'" "v < 10 ^ n" for u u' v v' n :: nat
  proof -
    have "u * 10 ^ n + v < (u + 1) * 10 ^ n" using that by simp
    also have "\<dots> \<le> u' * 10 ^ n" using that by (intro mult_le_mono1) simp
    finally show ?thesis by simp
  qed
  have "order_of (read_nat (x # xs)) (read_nat (y # ys)) =
      (case order_of (digit_val x) (digit_val y) of
         Equal \<Rightarrow> order_of (read_nat xs) (read_nat ys) | order \<Rightarrow> order)"
  proof (cases "digit_val x" "digit_val y" rule: linorder_cases)
    case less
    from lt [OF this s(1), of "read_nat ys"] less show ?thesis
      by (simp only: xy order_of_less ordering.case)
  next
    case equal
    then show ?thesis unfolding xy by (simp add: order_of_def)
  next
    case greater
    from lt [OF this s(2), of "read_nat xs"] greater show ?thesis
      by (simp only: xy order_of_less ordering.case)
  qed
  then show ?case
    using i IH c
    by (simp add: upt_conv_Cons d cmp_order pad_nth [OF i, symmetric] x_y_def [symmetric]
        split: ordering.splits)
qed

lemma order_of_mult: "0 < (q::rat) \<Longrightarrow> order_of (a * q) (b * q) = order_of a b"
  by (auto simp: order_of_def)

lemma order_of_of_nat: "order_of (of_nat a :: rat) (of_nat b) = order_of a b"
  by (simp add: order_of_def)

lemma order_of_neg: "order_of (- a) (- b :: rat) = order_of b a"
  by (auto simp: order_of_def)

lemma cmp_magnitude_order:
  assumes a: "significant (en_significant_digits a)" and b: "significant (en_significant_digits b)"
  shows "cmp_magnitude a b =
    order_of (magnitude (en_significant_digits a) (en_decimal_point a))
      (magnitude (en_significant_digits b) (en_decimal_point b))"
proof (cases "en_decimal_point a" "en_decimal_point b" rule: linorder_cases)
  case equal
  define m where "m = max (length (en_significant_digits a)) (length (en_significant_digits b))"
  define q where "q = (10::rat) powi (en_decimal_point b - int m)"
  have "0 < q" by (simp add: q_def)
  have "cmp_magnitude a b = order_of (read_nat (pad m (en_significant_digits a)))
      (read_nat (pad m (en_significant_digits b)))"
    using a b equal cmp_digits_order [of "en_significant_digits a" "en_significant_digits b" m 0]
    by (simp add: cmp_magnitude_def cmp_def m_def significant_def)
  also have "\<dots> = order_of (of_nat (read_nat (pad m (en_significant_digits a))) * q)
      (of_nat (read_nat (pad m (en_significant_digits b))) * q)"
    using \<open>0 < q\<close> by (simp add: order_of_mult order_of_of_nat)
  finally show ?thesis
    by (simp add: magnitude_pad [where m = m] m_def q_def equal)
next
  case less
  have "magnitude (en_significant_digits a) (en_decimal_point a) < 10 powi en_decimal_point a"
    using magnitude_bounds(2) [OF a] .
  also have "(10::rat) powi en_decimal_point a \<le> 10 powi (en_decimal_point b - 1)"
    using less by (intro power_int_increasing) auto
  also have "\<dots> \<le> magnitude (en_significant_digits b) (en_decimal_point b)"
    using magnitude_bounds(1) [OF b] .
  finally show ?thesis using less by (simp add: order_of_less cmp_magnitude_def cmp_def)
next
  case greater
  have "magnitude (en_significant_digits b) (en_decimal_point b) < 10 powi en_decimal_point b"
    using magnitude_bounds(2) [OF b] .
  also have "(10::rat) powi en_decimal_point b \<le> 10 powi (en_decimal_point a - 1)"
    using greater by (intro power_int_increasing) auto
  also have "\<dots> \<le> magnitude (en_significant_digits a) (en_decimal_point a)"
    using magnitude_bounds(1) [OF a] .
  finally show ?thesis using greater by (simp add: order_of_less cmp_magnitude_def cmp_def)
qed

lemma from_raw_exponent:
  assumes "split_form d"
  shows "split_exponent parse_bounded_progress_exponent (unsigned_text d) =
    (case lx_exp d of
       None \<Rightarrow> Inr (mantissa_text d, 0)
     | Some (x, t) \<Rightarrow>
         if \<not> exp_ok t then Inl (Invalid ''JSON progress number'')
         else if \<not> exponent_within max_exact_progress_exponent_abs d
           then Inl (TooLong ''progress number exponent'')
         else Inr (mantissa_text d, number_exponent d))"
proof -
  have "\<forall>c \<in> set (mantissa_text d). \<not> is_exp_mark c" using assms by (simp add: split_form_def)
  from split_exponent_text [OF this assms, of parse_bounded_progress_exponent] show ?thesis
    by (auto simp: unsigned_text_def parse_progress_exponent exponent_within_def number_exponent_def
        split: option.splits)
qed

text \<open>The decomposition of a well-formed number.\<close>

definition decompose :: "number_lexeme \<Rightarrow> exact_number" where
  "decompose d =
     (let ds = number_digits d; z = length (takeWhile is_zero_digit ds)
      in \<lparr>en_raw = render d, en_negative = lx_neg d,
          en_significant_digits = (if z = length ds then ''0'' else drop z ds),
          en_decimal_point = int (length (lx_whole d)) - int z + number_exponent d\<rparr>)"

lemma position_nonzero:
  "(case position (\<lambda>b. b \<noteq> CHR ''0'') ds of Some i \<Rightarrow> i | None \<Rightarrow> length ds) =
   length (takeWhile is_zero_digit ds)"
  by (induction ds) (auto simp: is_zero_digit_def split: option.splits)

lemma from_raw_accepts:
  assumes "wf_number d" "length (render d) \<le> max_exact_progress_number_bytes"
    and "exponent_within max_exact_progress_exponent_abs d"
  shows "from_raw (render d) = Inr (decompose d)"
proof -
  have form: "split_form d" using assms(1) by (rule wf_number_form)
  have e: "split_exponent parse_bounded_progress_exponent (unsigned_text d) =
      Inr (mantissa_text d, number_exponent d)"
    using assms wf_number_exp [OF assms(1)]
    by (auto simp: from_raw_exponent [OF form] number_exponent_def split: option.splits)
  have w: "lx_whole d \<noteq> []" "list_all is_ascii_digit (lx_whole d)"
      "list_all is_ascii_digit (fraction_digits d)"
    using assms(1) whole_ok_digits [of "lx_whole d"]
    by (auto simp: wf_number_def fraction_digits_def split: option.splits)
  define z where "z = length (takeWhile is_zero_digit (number_digits d))"
  have len: "length (lx_whole d) \<le> 256" "z \<le> 256"
    using assms(2) length_takeWhile_le [of is_zero_digit "number_digits d"]
    by (auto simp: z_def render_def number_digits_def text_defs max_exact_progress_number_bytes_def
        split: option.splits)
  have dp: "Option.bind (fits i32_max (int (length (lx_whole d)))) (\<lambda>w.
      Option.bind (fits i32_max (int z)) (\<lambda>f.
      Option.bind (fits i32_max (w - f)) (\<lambda>point.
      fits i32_max (point + number_exponent d)))) =
      Some (int (length (lx_whole d)) - int z + number_exponent d)"
    using len assms(3)
    by (simp add: fits_def i32_max_def exponent_within_def max_exact_progress_exponent_abs_def) linarith
  have chk: "\<not> (lx_whole d = [] \<or> \<not> list_all is_ascii_digit (lx_whole d) \<or>
      \<not> list_all is_ascii_digit (fraction_digits d))"
    using w by simp
  have len': "\<not> length (render d) > max_exact_progress_number_bytes" using assms(2) by simp
  show ?thesis
    by (simp only: from_raw_def if_False strip_or_self(3) [OF form] e fraction_or_none(2) [OF form]
        number_digits_def [symmetric] position_nonzero z_def [symmetric] dp decompose_def Let_def
        prod.case sum.case option.case chk len')
qed

lemma from_raw_render:
  assumes "wf_number d"
  shows "from_raw (render d) =
    (if length (render d) > max_exact_progress_number_bytes
     then Inl (TooLong ''exact progress number'')
     else if \<not> exponent_within max_exact_progress_exponent_abs d
       then Inl (TooLong ''progress number exponent'')
     else Inr (decompose d))"
proof (cases "length (render d) \<le> max_exact_progress_number_bytes")
  case False
  then show ?thesis by (simp add: from_raw_def)
next
  case True
  then have len: "\<not> length (render d) > max_exact_progress_number_bytes" by simp
  have form: "split_form d" using assms by (rule wf_number_form)
  show ?thesis
  proof (cases "exponent_within max_exact_progress_exponent_abs d")
    case False
    then obtain x t where "lx_exp d = Some (x, t)" "exp_ok t"
      using wf_number_exp [OF assms]
      by (cases "lx_exp d") (auto simp: exponent_within_def number_exponent_def
          max_exact_progress_exponent_abs_def)
    then have "split_exponent parse_bounded_progress_exponent (unsigned_text d) =
        Inl (TooLong ''progress number exponent'')"
      using False by (simp add: from_raw_exponent [OF form])
    with len False show ?thesis
      by (simp only: from_raw_def if_False strip_or_self(3) [OF form] prod.case sum.case Let_def)
        simp
  next
    case True
    with len show ?thesis using from_raw_accepts [OF assms] by simp
  qed
qed

lemma drop_takeWhile: "drop (length (takeWhile P xs)) xs = dropWhile P xs"
  by (simp add: dropWhile_eq_drop)

lemma decompose_zero:
  assumes "wf_number d"
  shows "is_zero (decompose d) \<longleftrightarrow> number_value d = 0"
proof -
  define ds where "ds = number_digits d"
  have ds: "list_all is_ascii_digit ds" "ds \<noteq> []"
    using wf_number_digits [OF assms] by (simp_all add: ds_def)
  have "length (takeWhile is_zero_digit ds) = length ds \<longleftrightarrow> list_all is_zero_digit ds"
    using takeWhile_eq_take [of is_zero_digit ds]
    by (metis list_all_iff takeWhile_eq_all_conv take_all_iff order_refl length_takeWhile_le)
  moreover have "dropWhile is_zero_digit ds \<noteq> ''0''"
    using hd_dropWhile [of is_zero_digit ds] by (force simp: is_zero_digit_def)
  ultimately show ?thesis
    by (simp add: is_zero_def decompose_def Let_def ds_def [symmetric] drop_takeWhile
        number_value_eq_0_iff read_nat_eq_0_iff [OF ds(1)])
qed

lemma decompose_value:
  assumes "wf_number d" "number_value d \<noteq> 0"
  shows "significant (en_significant_digits (decompose d))"
    and "exact_value (decompose d) = number_value d"
proof -
  define ds where "ds = number_digits d"
  define z where "z = length (takeWhile is_zero_digit ds)"
  have ds: "list_all is_ascii_digit ds" using wf_number_digits [OF assms(1)] by (simp add: ds_def)
  have "\<not> list_all is_zero_digit ds"
    using assms by (simp add: number_value_eq_0_iff read_nat_eq_0_iff [OF ds] ds_def [symmetric])
  then have ne: "dropWhile is_zero_digit ds \<noteq> []"
    by (simp add: dropWhile_eq_Nil_conv list_all_iff)
  have len: "length (dropWhile is_zero_digit ds) + z = length ds"
    by (metis z_def add.commute length_append takeWhile_dropWhile_id)
  have "z \<noteq> length ds" using len ne length_0_conv [of "dropWhile is_zero_digit ds"] by linarith
  then have sd: "en_significant_digits (decompose d) = dropWhile is_zero_digit ds"
    by (simp add: decompose_def Let_def ds_def [symmetric] z_def [symmetric])
      (simp add: z_def drop_takeWhile)
  show "significant (en_significant_digits (decompose d))"
    using ne ds hd_dropWhile [OF ne]
    by (auto simp: sd significant_def list_all_iff dest: set_dropWhileD)
  have "en_decimal_point (decompose d) - int (length (dropWhile is_zero_digit ds)) = - number_scale d"
    using len by (simp add: decompose_def Let_def ds_def [symmetric] z_def [symmetric] number_scale_def)
      (simp add: ds_def number_digits_def)
  then show "exact_value (decompose d) = number_value d"
    by (simp add: exact_value_def sd magnitude_def number_value_def ds_def [symmetric])
      (simp add: decompose_def Let_def)
qed

lemma number_value_sign:
  "number_value d < 0 \<longleftrightarrow> lx_neg d \<and> number_value d \<noteq> 0"
proof -
  define q where "q = (10::rat) powi (- number_scale d)"
  have "0 < q" by (simp add: q_def)
  then show ?thesis
    unfolding number_value_def q_def [symmetric] by (auto simp: mult_less_0_iff zero_less_mult_iff)
qed

text \<open>C32: The order of progress numbers is the order of their mathematical values, for every pair
  of spellings admitted by the decoder, except between a zero and a negative number.\<close>

theorem progress_order_exact:
  assumes "wf_number d" "wf_number d'" "from_raw (render d) = Inr x" "from_raw (render d') = Inr x'"
    and "\<not> (number_value d = 0 \<and> number_value d' < 0)"
    and "\<not> (number_value d' = 0 \<and> number_value d < 0)"
  shows "exact_number_cmp x x' = order_of (number_value d) (number_value d')"
proof -
  have x: "x = decompose d" "x' = decompose d'"
    using assms(1-4) by (simp_all add: from_raw_render split: if_splits)
  have neg: "en_negative (decompose d) = lx_neg d" "en_negative (decompose d') = lx_neg d'"
    by (simp_all add: decompose_def Let_def)
  have sgn: "number_value e \<noteq> 0 \<Longrightarrow> if lx_neg e then number_value e < 0 else number_value e > 0" for e
    using number_value_sign [of e] by auto
  show ?thesis
  proof (cases "number_value d = 0 \<or> number_value d' = 0")
    case True
    with sgn [of d] sgn [of d'] assms(5,6) show ?thesis
      unfolding x exact_number_cmp_def decompose_zero [OF assms(1)] decompose_zero [OF assms(2)]
      by (auto simp: order_of_def)
  next
    case False
    have mag: "magnitude (en_significant_digits (decompose e)) (en_decimal_point (decompose e)) =
        \<bar>number_value e\<bar>" if "wf_number e" "number_value e \<noteq> 0" for e
      using decompose_value(2) [OF that] sgn [OF that(2)]
      by (cases "lx_neg e") (simp_all add: exact_value_def decompose_def Let_def)
    have c: "cmp_magnitude (decompose d) (decompose d') =
        order_of \<bar>number_value d\<bar> \<bar>number_value d'\<bar>"
      "cmp_magnitude (decompose d') (decompose d) =
        order_of \<bar>number_value d'\<bar> \<bar>number_value d\<bar>"
      using False by (simp_all add: cmp_magnitude_order decompose_value(1) mag assms(1,2))
    show ?thesis
      using False sgn [of d] sgn [of d']
      unfolding x exact_number_cmp_def decompose_zero [OF assms(1)] decompose_zero [OF assms(2)] neg c
      by (cases "lx_neg d"; cases "lx_neg d'") (auto simp: order_of_def)
  qed
qed

text \<open>C33: A zero is ordered below every negative number: the progress order inverts the numeric
  order on these pairs.\<close>

theorem progress_zero_below_negative:
  assumes "wf_number d" "wf_number d'" "from_raw (render d) = Inr x" "from_raw (render d') = Inr x'"
    and "number_value d = 0" "number_value d' < 0"
  shows "exact_number_cmp x x' = Less \<and> order_of (number_value d) (number_value d') = Greater"
proof -
  have x: "x = decompose d" "x' = decompose d'"
    using assms(1-4) by (simp_all add: from_raw_render split: if_splits)
  show ?thesis
    using assms(5,6)
    unfolding x exact_number_cmp_def decompose_zero [OF assms(1)] decompose_zero [OF assms(2)]
    by (auto simp: order_of_def)
qed

section \<open>Instances\<close>

definition minute_lexeme :: number_lexeme where
  "minute_lexeme =
     \<lparr>lx_neg = False, lx_whole = ''6'', lx_frac = None, lx_exp = Some (CHR ''e'', ''4'')\<rparr>"

lemma minute_lexeme_ok:
  "wf_number minute_lexeme" "render minute_lexeme = ''6e4''"
  "validate_json_integer ''6e4'' = Inr ()" "number_value minute_lexeme = 60000"
  "\<not> overlong minute_lexeme"
  by (simp_all add: minute_lexeme_def number_eval overlong_def)

theorem cache_ttl_millis_exact_witness: "ttl_try_as_millis ''6e4'' = Inr 60000"
  using cache_ttl_millis_exact [of minute_lexeme 60000] minute_lexeme_ok
  by (simp add: u64_max_def)

lemmas progress_eval = exponent_within_def
  max_exact_progress_number_bytes_def max_exact_progress_exponent_abs_def

definition twelve_thousand :: number_lexeme where
  "twelve_thousand =
     \<lparr>lx_neg = False, lx_whole = ''1'', lx_frac = Some ''20'', lx_exp = Some (CHR ''e'', ''4'')\<rparr>"

definition integer_lexeme :: "bool \<Rightarrow> bytes \<Rightarrow> number_lexeme" where
  "integer_lexeme neg w = \<lparr>lx_neg = neg, lx_whole = w, lx_frac = None, lx_exp = None\<rparr>"

theorem progress_order_exact_witness:
  "(case (from_raw ''1.20e4'', from_raw ''12001'') of
      (Inr x, Inr x') \<Rightarrow> exact_number_cmp x x' | _ \<Rightarrow> Equal) = Less"
proof -
  have r: "render twelve_thousand = ''1.20e4''" "render (integer_lexeme False ''12001'') = ''12001''"
    and w: "wf_number twelve_thousand" "wf_number (integer_lexeme False ''12001'')"
    and v: "number_value twelve_thousand = 12000" "number_value (integer_lexeme False ''12001'') = 12001"
    by (simp_all add: twelve_thousand_def integer_lexeme_def number_eval)
  have f: "from_raw (render twelve_thousand) = Inr (decompose twelve_thousand)"
      "from_raw (render (integer_lexeme False ''12001'')) = Inr (decompose (integer_lexeme False ''12001''))"
    unfolding from_raw_render [OF w(1)] from_raw_render [OF w(2)]
    by (simp_all add: r progress_eval)
      (simp_all add: twelve_thousand_def integer_lexeme_def number_eval)
  have "exact_number_cmp (decompose twelve_thousand) (decompose (integer_lexeme False ''12001'')) =
      order_of (number_value twelve_thousand) (number_value (integer_lexeme False ''12001''))"
    by (rule progress_order_exact [OF w f]) (simp_all add: v)
  then show ?thesis using f by (simp add: r v order_of_def)
qed

theorem progress_zero_below_negative_witness:
  "(case (from_raw ''0'', from_raw ''-1'') of
      (Inr x, Inr x') \<Rightarrow> exact_number_cmp x x' | _ \<Rightarrow> Equal) = Less"
proof -
  have r: "render (integer_lexeme False ''0'') = ''0''" "render (integer_lexeme True ''1'') = ''-1''"
    and w: "wf_number (integer_lexeme False ''0'')" "wf_number (integer_lexeme True ''1'')"
    and v: "number_value (integer_lexeme False ''0'') = 0" "number_value (integer_lexeme True ''1'') < 0"
    by (simp_all add: integer_lexeme_def number_eval)
  have f: "from_raw (render (integer_lexeme False ''0'')) = Inr (decompose (integer_lexeme False ''0''))"
      "from_raw (render (integer_lexeme True ''1'')) = Inr (decompose (integer_lexeme True ''1''))"
    unfolding from_raw_render [OF w(1)] from_raw_render [OF w(2)]
    by (simp_all add: r progress_eval)
      (simp_all add: integer_lexeme_def number_eval)
  show ?thesis
    using progress_zero_below_negative [OF w f v] f by (simp add: r)
qed

text \<open>A representable lifetime can be refused: the twenty-digit limit counts leading zeroes, so
  that one millisecond spelled with twenty fraction digits and the exponent that moves them back is
  reported as out of range.\<close>

lemma representable_ttl_refused:
  "\<exists>d. wf_number d \<and> validate_json_integer (render d) = Inr () \<and> number_value d = 1 \<and>
     ttl_try_as_millis (render d) = Inl TtlRuntimeOutOfRange"
proof (intro exI conjI)
  let ?d = "\<lparr>lx_neg = False, lx_whole = ''0'', lx_frac = Some ''00000000000000000001'',
    lx_exp = Some (CHR ''e'', ''20'')\<rparr>"
  show w: "wf_number ?d" by (simp add: number_eval)
  show "number_value ?d = 1" by (simp add: number_eval)
  show v: "validate_json_integer (render ?d) = Inr ()" by (simp add: number_eval)
  have "overlong ?d" by (simp add: overlong_def number_eval)
  moreover have "number_value ?d \<noteq> 0" by (simp add: number_eval)
  ultimately show "ttl_try_as_millis (render ?d) = Inl TtlRuntimeOutOfRange"
    by (simp only: ttl_millis_render [OF w v] simp_thms if_True)
qed

end
