(* ===== verification/Exact_Json.thy ===== *)
theory Exact_Json
  imports Number_Conversions
begin

text \<open>
  The exact JSON values of the result codec (fastmcp-protocol/src/result.rs): the value type that
  keeps number spellings and member order, its encoder, the recursive-descent parser
  \<open>ExactJsonParser\<close> with its bounds, and the size check of locally authored values.  The parser's
  \<open>input\<close> and \<open>offset\<close> are the unread suffix of the input; the errors carry the same logical path
  as the code's.  Nesting is bounded by the depth parameter and every container loop by its member
  limit, so that the parser is total without fuel.
\<close>

section \<open>Values and errors\<close>

definition max_result_encoded_bytes :: nat where
  "max_result_encoded_bytes = 1048576"

definition max_result_depth :: nat where
  "max_result_depth = 64"

definition max_result_container_members :: nat where
  "max_result_container_members = 1024"

definition max_result_string_bytes :: nat where
  "max_result_string_bytes = 65536"

definition max_result_number_bytes :: nat where
  "max_result_number_bytes = 1024"

datatype exact_json =
    JNull
  | JBool bool
  | JString bytes
  | JNumber bytes
  | JArray "exact_json list"
  | JObject "(bytes \<times> exact_json) list"

datatype result_decode_error_kind =
    InvalidJson
  | BoundExceeded
  | DuplicateMember
  | ExpectedObject
  | InvalidKnownMember
  | InvalidDiscriminator
  | MissingDiscriminator
  | MissingInputRequest
  | RejectedExtension
  | KnownMemberCollision
  | UnexpectedResultType

type_synonym decode_error = "result_decode_error_kind \<times> bytes"

definition object_get :: "(bytes \<times> exact_json) list \<Rightarrow> bytes \<Rightarrow> exact_json option" where
  "object_get members name = map_option snd (find (\<lambda>m. fst m = name) members)"

definition object_take ::
    "(bytes \<times> exact_json) list \<Rightarrow> bytes \<Rightarrow> exact_json option \<times> (bytes \<times> exact_json) list" where
  "object_take members name =
     (case position (\<lambda>m. fst m = name) members of
        None \<Rightarrow> (None, members)
      | Some index \<Rightarrow>
          (Some (snd (members ! index)), take index members @ drop (Suc index) members))"

section \<open>Encoding\<close>

definition hex_digit :: "nat \<Rightarrow> byte" where
  "hex_digit d = (if d < 10 then char_of (48 + d) else char_of (87 + d))"

text \<open>\<open>{:04x}\<close> of a code point below 65536.\<close>

definition hex4 :: "nat \<Rightarrow> bytes" where
  "hex4 n = [hex_digit (n div 4096 mod 16), hex_digit (n div 256 mod 16),
             hex_digit (n div 16 mod 16), hex_digit (n mod 16)]"

definition encode_char :: "bytes \<Rightarrow> bytes" where
  "encode_char character =
     (case character of
        [c] \<Rightarrow>
          if c = CHR 0x22 then [CHR 0x5C, CHR 0x22]
          else if c = CHR 0x5C then [CHR 0x5C, CHR 0x5C]
          else if c = CHR 0x08 then [CHR 0x5C, CHR ''b'']
          else if c = CHR 0x0C then [CHR 0x5C, CHR ''f'']
          else if c = CHR 0x0A then [CHR 0x5C, CHR ''n'']
          else if c = CHR 0x0D then [CHR 0x5C, CHR ''r'']
          else if c = CHR 0x09 then [CHR 0x5C, CHR ''t'']
          else if code c \<le> 31 then CHR 0x5C # CHR ''u'' # hex4 (code c)
          else [c]
      | _ \<Rightarrow> character)"

definition encode_json_string :: "bytes \<Rightarrow> bytes" where
  "encode_json_string value =
     CHR 0x22 # concat (map encode_char (chars value)) @ [CHR 0x22]"

fun comma_separated :: "bytes list \<Rightarrow> bytes" where
  "comma_separated [] = []"
| "comma_separated [x] = x"
| "comma_separated (x # y # xs) = x @ CHR '','' # comma_separated (y # xs)"

fun encode_exact_value :: "exact_json \<Rightarrow> bytes" where
  "encode_exact_value JNull = ''null''"
| "encode_exact_value (JBool b) = (if b then ''true'' else ''false'')"
| "encode_exact_value (JString s) = encode_json_string s"
| "encode_exact_value (JNumber s) = s"
| "encode_exact_value (JArray vs) =
     CHR ''['' # comma_separated (map encode_exact_value vs) @ '']''"
| "encode_exact_value (JObject ms) =
     CHR ''{'' #
     comma_separated
       (map (\<lambda>(name, v). encode_json_string name @ CHR '':'' # encode_exact_value v) ms) @ ''}''"

definition encode_exact_object :: "(bytes \<times> exact_json) list \<Rightarrow> bytes" where
  "encode_exact_object ms = encode_exact_value (JObject ms)"

section \<open>Parsing\<close>

definition is_whitespace :: "byte \<Rightarrow> bool" where
  "is_whitespace c \<longleftrightarrow> c \<in> {CHR '' '', CHR 0x0A, CHR 0x0D, CHR 0x09}"

definition skip_whitespace :: "bytes \<Rightarrow> bytes" where
  "skip_whitespace rest = dropWhile is_whitespace rest"

text \<open>\<open>String::push\<close> appends the UTF-8 encoding of a scalar value.\<close>

definition encode_utf8 :: "nat \<Rightarrow> bytes" where
  "encode_utf8 cp =
     (if cp < 128 then [char_of cp]
      else if cp < 2048 then [char_of (192 + cp div 64), char_of (128 + cp mod 64)]
      else if cp < 65536 then
        [char_of (224 + cp div 4096), char_of (128 + cp div 64 mod 64), char_of (128 + cp mod 64)]
      else
        [char_of (240 + cp div 262144), char_of (128 + cp div 4096 mod 64),
         char_of (128 + cp div 64 mod 64), char_of (128 + cp mod 64)])"

text \<open>\<open>char::from_u32\<close>: no surrogates, at most U+10FFFF.\<close>

definition char_from_u32 :: "nat \<Rightarrow> bytes option" where
  "char_from_u32 cp =
     (if cp < 55296 \<or> 57344 \<le> cp \<and> cp < 1114112 then Some (encode_utf8 cp) else None)"

definition hex_value :: "byte \<Rightarrow> nat option" where
  "hex_value c =
     (if 48 \<le> code c \<and> code c \<le> 57 then Some (code c - 48)
      else if 97 \<le> code c \<and> code c \<le> 102 then Some (code c - 97 + 10)
      else if 65 \<le> code c \<and> code c \<le> 70 then Some (code c - 65 + 10)
      else None)"

fun hex_fold :: "nat \<Rightarrow> bytes \<Rightarrow> nat option" where
  "hex_fold value [] = Some value"
| "hex_fold value (c # cs) =
     (case hex_value c of None \<Rightarrow> None | Some digit \<Rightarrow> hex_fold (value * 16 + digit) cs)"

definition hex_unit :: "bytes \<Rightarrow> bytes \<Rightarrow> decode_error + (nat \<times> bytes)" where
  "hex_unit path rest =
     (if length rest < 4 then Inl (InvalidJson, path)
      else case hex_fold 0 (take 4 rest) of
          None \<Rightarrow> Inl (InvalidJson, path)
        | Some unit \<Rightarrow> Inr (unit, drop 4 rest))"

definition unicode_escape :: "bytes \<Rightarrow> bytes \<Rightarrow> decode_error + (bytes \<times> bytes)" where
  "unicode_escape path rest =
     (case hex_unit path rest of
        Inl e \<Rightarrow> Inl e
      | Inr (unit, rest) \<Rightarrow>
          if \<not> (55296 \<le> unit \<and> unit \<le> 56319) then
            (case char_from_u32 unit of
               None \<Rightarrow> Inl (InvalidJson, path) | Some ch \<Rightarrow> Inr (ch, rest))
          else case strip_prefix [CHR 0x5C, CHR ''u''] rest of
              None \<Rightarrow> Inl (InvalidJson, path)
            | Some rest \<Rightarrow>
                (case hex_unit path rest of
                   Inl e \<Rightarrow> Inl e
                 | Inr (low, rest) \<Rightarrow>
                     if \<not> (56320 \<le> low \<and> low \<le> 57343) then Inl (InvalidJson, path)
                     else case char_from_u32 (65536 + (unit - 55296) * 1024 + (low - 56320)) of
                         None \<Rightarrow> Inl (InvalidJson, path) | Some ch \<Rightarrow> Inr (ch, rest)))"

text \<open>One step of the string loop: the character it pushes and the rest of the input.\<close>

definition string_char :: "bytes \<Rightarrow> byte \<Rightarrow> bytes \<Rightarrow> decode_error + (bytes \<times> bytes)" where
  "string_char path byte rest =
     (if code byte \<le> 31 then Inl (InvalidJson, path)
      else if byte = CHR 0x5C then
        (case rest of
           [] \<Rightarrow> Inl (InvalidJson, path)
         | escaped # rest \<Rightarrow>
             if escaped = CHR 0x22 then Inr ([CHR 0x22], rest)
             else if escaped = CHR 0x5C then Inr ([CHR 0x5C], rest)
             else if escaped = CHR ''/'' then Inr ([CHR ''/''], rest)
             else if escaped = CHR ''b'' then Inr ([CHR 0x08], rest)
             else if escaped = CHR ''f'' then Inr ([CHR 0x0C], rest)
             else if escaped = CHR ''n'' then Inr ([CHR 0x0A], rest)
             else if escaped = CHR ''r'' then Inr ([CHR 0x0D], rest)
             else if escaped = CHR ''t'' then Inr ([CHR 0x09], rest)
             else if escaped = CHR ''u'' then unicode_escape path rest
             else Inl (InvalidJson, path))
      else
        let n = snd (utf8_step (byte # rest))
        in Inr (take n (byte # rest), drop (n - 1) rest))"

lemma hex_unit_length: "hex_unit path rest = Inr (u, rest') \<Longrightarrow> length rest = length rest' + 4"
  by (auto simp: hex_unit_def split: if_splits option.splits)

lemma strip_prefix_Some_iff: "strip_prefix p s = Some r \<longleftrightarrow> s = p @ r"
proof
  assume "strip_prefix p s = Some r"
  then have "take (length p) s = p" "drop (length p) s = r"
    by (simp_all add: strip_prefix_def split: if_split_asm)
  then show "s = p @ r" using append_take_drop_id [of "length p" s] by simp
qed (simp add: strip_prefix_def)

lemma unicode_escape_length:
  "unicode_escape path rest = Inr (ch, rest') \<Longrightarrow> length rest' < length rest"
  by (auto simp: unicode_escape_def strip_prefix_Some_iff split: sum.splits if_splits option.splits
      dest!: hex_unit_length)

lemma string_char_length:
  "string_char path byte rest = Inr (ch, rest') \<Longrightarrow> length rest' \<le> length rest"
  by (auto simp: string_char_def Let_def split: if_splits list.splits dest: unicode_escape_length)

function string_loop :: "bytes \<Rightarrow> bytes \<Rightarrow> bytes \<Rightarrow> decode_error + (bytes \<times> bytes)" where
  "string_loop path value rest =
     (case rest of
        [] \<Rightarrow> Inl (InvalidJson, path)
      | byte # bytes \<Rightarrow>
          if byte = CHR 0x22 then
            (if length value > max_result_string_bytes then Inl (BoundExceeded, path)
             else Inr (value, bytes))
          else case string_char path byte bytes of
              Inl e \<Rightarrow> Inl e
            | Inr (ch, bytes) \<Rightarrow>
                if length (value @ ch) > max_result_string_bytes then Inl (BoundExceeded, path)
                else string_loop path (value @ ch) bytes)"
  by pat_completeness auto
termination
  by (relation "measure (\<lambda>(_, _, rest). length rest)") (auto dest: string_char_length)

declare string_loop.simps [simp del]

definition parse_string :: "bytes \<Rightarrow> bytes \<Rightarrow> decode_error + (bytes \<times> bytes)" where
  "parse_string path rest = string_loop path [] (tl rest)"

text \<open>The number token: the unread suffix after each of its three parts.\<close>

definition number_whole :: "bytes \<Rightarrow> bytes option" where
  "number_whole rest =
     (case rest of
        [] \<Rightarrow> None
      | c # cs \<Rightarrow>
          if c = CHR ''0'' then Some cs
          else if is_ascii_digit c then Some (dropWhile is_ascii_digit cs)
          else None)"

definition digits1 :: "bytes \<Rightarrow> bytes option" where
  "digits1 rest =
     (if takeWhile is_ascii_digit rest = [] then None else Some (dropWhile is_ascii_digit rest))"

definition number_fraction :: "bytes \<Rightarrow> bytes option" where
  "number_fraction rest =
     (case strip_prefix ''.'' rest of None \<Rightarrow> Some rest | Some cs \<Rightarrow> digits1 cs)"

definition number_exponent_part :: "bytes \<Rightarrow> bytes option" where
  "number_exponent_part rest =
     (case rest of
        [] \<Rightarrow> Some rest
      | c # cs \<Rightarrow>
          if is_exp_mark c then
            digits1 (case cs of [] \<Rightarrow> cs
                     | s # t \<Rightarrow> if s = CHR ''+'' \<or> s = CHR ''-'' then t else cs)
          else Some rest)"

definition number_end :: "bytes \<Rightarrow> bytes option" where
  "number_end rest =
     Option.bind (number_whole (case strip_prefix ''-'' rest of Some r \<Rightarrow> r | None \<Rightarrow> rest)) (\<lambda>r.
     Option.bind (number_fraction r) number_exponent_part)"

definition parse_number :: "bytes \<Rightarrow> bytes \<Rightarrow> decode_error + (bytes \<times> bytes)" where
  "parse_number path rest =
     (case number_end rest of
        None \<Rightarrow> Inl (InvalidJson, path)
      | Some rest' \<Rightarrow>
          let value = take (length rest - length rest') rest
          in if length value > max_result_number_bytes then Inl (BoundExceeded, path)
             else Inr (value, rest'))"

type_synonym 'v element_parser = "bytes \<Rightarrow> bytes \<Rightarrow> decode_error + ('v \<times> bytes)"

text \<open>
  The loops of \<open>array\<close> and \<open>object\<close>, over the parser of the elements (\<open>value\<close> one level deeper).
  The code compares \<open>len()\<close> with the limit by equality; the lists grow by one from empty.
\<close>

function array_loop ::
    "exact_json element_parser \<Rightarrow> bytes \<Rightarrow> exact_json list \<Rightarrow> bytes \<Rightarrow>
     decode_error + (exact_json \<times> bytes)" where
  "array_loop elem path vals rest =
     (if length vals \<ge> max_result_container_members then Inl (BoundExceeded, path)
      else case elem (path @ CHR ''/'' # show_nat (length vals)) rest of
          Inl e \<Rightarrow> Inl e
        | Inr (v, rest) \<Rightarrow>
            (case skip_whitespace rest of
               [] \<Rightarrow> Inl (InvalidJson, path)
             | c # cs \<Rightarrow>
                 if c = CHR '','' then array_loop elem path (vals @ [v]) (skip_whitespace cs)
                 else if c = CHR '']'' then Inr (JArray (vals @ [v]), cs)
                 else Inl (InvalidJson, path)))"
  by pat_completeness auto
termination
  by (relation "measure (\<lambda>(_, _, vals, _). max_result_container_members - length vals)") auto

declare array_loop.simps [simp del]

definition parse_array :: "exact_json element_parser \<Rightarrow> exact_json element_parser" where
  "parse_array elem path rest =
     (let rest = skip_whitespace (tl rest)
      in if rest \<noteq> [] \<and> hd rest = CHR '']'' then Inr (JArray [], tl rest)
         else array_loop elem path [] rest)"

function object_loop ::
    "exact_json element_parser \<Rightarrow> bytes \<Rightarrow> (bytes \<times> exact_json) list \<Rightarrow> bytes \<Rightarrow>
     decode_error + (exact_json \<times> bytes)" where
  "object_loop elem path members rest =
     (if length members \<ge> max_result_container_members then Inl (BoundExceeded, path)
      else if rest = [] \<or> hd rest \<noteq> CHR 0x22 then Inl (InvalidJson, path)
      else case parse_string path rest of
          Inl e \<Rightarrow> Inl e
        | Inr (name, rest) \<Rightarrow>
            if name \<in> fst ` set members then
              Inl (DuplicateMember, path @ CHR ''/'' # name)
            else
              let rest = skip_whitespace rest
              in if rest = [] \<or> hd rest \<noteq> CHR '':'' then Inl (InvalidJson, path)
                 else case elem (path @ CHR ''/'' # name) (skip_whitespace (tl rest)) of
                     Inl e \<Rightarrow> Inl e
                   | Inr (v, rest) \<Rightarrow>
                       (case skip_whitespace rest of
                          [] \<Rightarrow> Inl (InvalidJson, path)
                        | c # cs \<Rightarrow>
                            if c = CHR '','' then
                              object_loop elem path (members @ [(name, v)]) (skip_whitespace cs)
                            else if c = CHR ''}'' then Inr (JObject (members @ [(name, v)]), cs)
                            else Inl (InvalidJson, path)))"
  by pat_completeness auto
termination
  by (relation "measure (\<lambda>(_, _, members, _). max_result_container_members - length members)") auto

declare object_loop.simps [simp del]

definition parse_object :: "exact_json element_parser \<Rightarrow> exact_json element_parser" where
  "parse_object elem path rest =
     (let rest = skip_whitespace (tl rest)
      in if rest \<noteq> [] \<and> hd rest = CHR ''}'' then Inr (JObject [], tl rest)
         else object_loop elem path [] rest)"

definition on_ok :: "('a \<Rightarrow> 'b) \<Rightarrow> 'e + ('a \<times> 'r) \<Rightarrow> 'e + ('b \<times> 'r)" where
  "on_ok f r = (case r of Inl e \<Rightarrow> Inl e | Inr (a, rest) \<Rightarrow> Inr (f a, rest))"

function parse_value :: "nat \<Rightarrow> exact_json element_parser" where
  "parse_value depth path rest =
     (if depth > max_result_depth then Inl (BoundExceeded, path)
      else case strip_prefix ''null'' rest of Some r \<Rightarrow> Inr (JNull, r)
      | None \<Rightarrow> (case strip_prefix ''true'' rest of Some r \<Rightarrow> Inr (JBool True, r)
      | None \<Rightarrow> (case strip_prefix ''false'' rest of Some r \<Rightarrow> Inr (JBool False, r)
      | None \<Rightarrow>
          (case rest of
             [] \<Rightarrow> Inl (InvalidJson, path)
           | c # cs \<Rightarrow>
               if c = CHR 0x22 then on_ok JString (parse_string path rest)
               else if c = CHR ''['' then parse_array (parse_value (Suc depth)) path rest
               else if c = CHR ''{'' then parse_object (parse_value (Suc depth)) path rest
               else if c = CHR ''-'' \<or> is_ascii_digit c then on_ok JNumber (parse_number path rest)
               else Inl (InvalidJson, path)))))"
  by pat_completeness auto
termination
  by (relation "measure (\<lambda>(depth, _, _). Suc max_result_depth - depth)") auto

declare parse_value.simps [simp del]

definition parse_exact_json :: "bytes \<Rightarrow> decode_error + exact_json" where
  "parse_exact_json input =
     (if length input > max_result_encoded_bytes then Inl (BoundExceeded, ''$'')
      else case parse_value 0 ''$'' (skip_whitespace input) of
          Inl e \<Rightarrow> Inl e
        | Inr (v, rest) \<Rightarrow>
            if skip_whitespace rest \<noteq> [] then Inl (InvalidJson, ''$'') else Inr v)"

section \<open>Sizes of locally authored values\<close>

fun checked_len :: "nat \<Rightarrow> bytes list \<Rightarrow> decode_error + nat" where
  "checked_len encoded_bytes [] = Inr encoded_bytes"
| "checked_len encoded_bytes (character # rest) =
     (case checked_add encoded_bytes (encoded_char_len character) of
        None \<Rightarrow> Inl (BoundExceeded, ''$'')
      | Some n \<Rightarrow> checked_len n rest)"

definition encoded_string_len :: "bytes \<Rightarrow> decode_error + nat" where
  "encoded_string_len value = checked_len 2 (chars value)"

text \<open>\<open>encoded_bytes\<close> plus a separator and the item, within the codec's bound.\<close>

definition add_item :: "nat \<Rightarrow> bool \<Rightarrow> nat \<Rightarrow> decode_error + nat" where
  "add_item encoded_bytes first item =
     (case Option.bind (checked_add encoded_bytes (if first then 0 else 1))
             (\<lambda>n. checked_add n item) of
        None \<Rightarrow> Inl (BoundExceeded, ''$'')
      | Some n \<Rightarrow>
          if n > max_result_encoded_bytes then Inl (BoundExceeded, ''$'') else Inr n)"

fun array_len_loop ::
    "('v \<Rightarrow> decode_error + nat) \<Rightarrow> nat \<Rightarrow> bool \<Rightarrow> 'v list \<Rightarrow> decode_error + nat" where
  "array_len_loop len encoded_bytes first [] = Inr encoded_bytes"
| "array_len_loop len encoded_bytes first (v # vs) =
     (case len v of
        Inl e \<Rightarrow> Inl e
      | Inr n \<Rightarrow>
          (case add_item encoded_bytes first n of
             Inl e \<Rightarrow> Inl e
           | Inr encoded_bytes \<Rightarrow> array_len_loop len encoded_bytes False vs))"

fun members_len_loop ::
    "('v \<Rightarrow> decode_error + nat) \<Rightarrow> nat \<Rightarrow> bytes list \<Rightarrow> (bytes \<times> 'v) list \<Rightarrow> decode_error + nat" where
  "members_len_loop len encoded_bytes preceding [] = Inr encoded_bytes"
| "members_len_loop len encoded_bytes preceding ((name, v) # ms) =
     (if length name > max_result_string_bytes then Inl (BoundExceeded, ''$.<extra-name>'')
      else if name \<in> set preceding then Inl (DuplicateMember, name)
      else case len v of
        Inl e \<Rightarrow> Inl e
      | Inr value_bytes \<Rightarrow>
          (case encoded_string_len name of
             Inl e \<Rightarrow> Inl e
           | Inr name_bytes \<Rightarrow>
               (case Option.bind (checked_add name_bytes 1) (\<lambda>n. checked_add n value_bytes) of
                  None \<Rightarrow> Inl (BoundExceeded, ''$'')
                | Some member_bytes \<Rightarrow>
                    (case add_item encoded_bytes (preceding = []) member_bytes of
                       Inl e \<Rightarrow> Inl e
                     | Inr encoded_bytes \<Rightarrow>
                         members_len_loop len encoded_bytes (preceding @ [name]) ms))))"

lemma array_len_loop_cong [fundef_cong]:
  assumes "vs = ws" "n = m" "f = g" "\<And>x. x \<in> set ws \<Longrightarrow> len x = len' x"
  shows "array_len_loop len n f vs = array_len_loop len' m g ws"
  using assms(4) unfolding assms(1-3)
  by (induction ws arbitrary: m g) (auto split: sum.splits)

lemma members_len_loop_cong [fundef_cong]:
  assumes "vs = ws" "n = m" "p = q" "\<And>a x. (a, x) \<in> set ws \<Longrightarrow> len x = len' x"
  shows "members_len_loop len n p vs = members_len_loop len' m q ws"
  using assms(4) unfolding assms(1-3)
proof (induction ws arbitrary: m q)
  case (Cons w ws)
  obtain a x where w: "w = (a, x)" by force
  have "len x = len' x" using Cons.prems [of a x] w by simp
  moreover have "members_len_loop len k r ws = members_len_loop len' k r ws" for k r
    by (rule Cons.IH) (use Cons.prems in auto)
  ultimately show ?case by (simp only: w members_len_loop.simps)
qed simp

fun exact_json_value_len :: "exact_json \<Rightarrow> nat \<Rightarrow> decode_error + nat" where
  "exact_json_value_len v depth =
     (if depth > max_result_depth then Inl (BoundExceeded, ''$'')
      else case v of
        JNull \<Rightarrow> Inr 4
      | JBool b \<Rightarrow> Inr (if b then 4 else 5)
      | JString s \<Rightarrow>
          if length s > max_result_string_bytes then Inl (BoundExceeded, ''$'')
          else encoded_string_len s
      | JNumber s \<Rightarrow>
          if length s > max_result_number_bytes then Inl (BoundExceeded, ''$'')
          else (case parse_exact_json s of
                  Inl e \<Rightarrow> Inl e
                | Inr parsed \<Rightarrow>
                    if parsed = JNumber s then Inr (length s) else Inl (InvalidJson, ''$''))
      | JArray vs \<Rightarrow>
          if length vs > max_result_container_members then Inl (BoundExceeded, ''$'')
          else array_len_loop (\<lambda>v. exact_json_value_len v (depth + 1)) 2 True vs
      | JObject ms \<Rightarrow>
          if depth + 1 > max_result_depth \<or> length ms > max_result_container_members
          then Inl (BoundExceeded, ''$'')
          else members_len_loop (\<lambda>v. exact_json_value_len v (depth + 1 + 1)) 2 [] ms)"

declare exact_json_value_len.simps [simp del]

definition exact_json_members_len :: "(bytes \<times> exact_json) list \<Rightarrow> nat \<Rightarrow> decode_error + nat" where
  "exact_json_members_len ms depth =
     (if depth > max_result_depth \<or> length ms > max_result_container_members
      then Inl (BoundExceeded, ''$'')
      else members_len_loop (\<lambda>v. exact_json_value_len v (depth + 1)) 2 [] ms)"

definition validate_local_result_members :: "(bytes \<times> exact_json) list \<Rightarrow> decode_error + unit" where
  "validate_local_result_members ms =
     (case exact_json_members_len ms 0 of
        Inl e \<Rightarrow> Inl e
      | Inr encoded_bytes \<Rightarrow>
          if encoded_bytes > max_result_encoded_bytes then Inl (BoundExceeded, ''$'') else Inr ())"

end
