(* ===== verification/Exact_Json_Roundtrip.thy ===== *)
theory Exact_Json_Roundtrip
  imports Exact_Json
begin

text \<open>
  The codec laws of exact JSON values: what the encoder writes the parser reads back, with any
  text behind it that cannot extend a number; the size check of locally authored values measures
  exactly the encoded length and admits only values that survive the round trip.
\<close>

section \<open>Strings\<close>

lemma encode_char_single:
  "encode_char [c] =
     (if c = CHR 0x22 then [CHR 0x5C, CHR 0x22]
      else if c = CHR 0x5C then [CHR 0x5C, CHR 0x5C]
      else if c = CHR 0x08 then [CHR 0x5C, CHR ''b'']
      else if c = CHR 0x0C then [CHR 0x5C, CHR ''f'']
      else if c = CHR 0x0A then [CHR 0x5C, CHR ''n'']
      else if c = CHR 0x0D then [CHR 0x5C, CHR ''r'']
      else if c = CHR 0x09 then [CHR 0x5C, CHR ''t'']
      else if code c \<le> 31 then CHR 0x5C # CHR ''u'' # hex4 (code c)
      else [c])"
  by (simp add: encode_char_def)

lemma encode_char_multi: "encode_char (b # b' # bs) = b # b' # bs"
  by (simp add: encode_char_def)

lemma encode_char_length: "length (encode_char ch) = encoded_char_len ch"
proof (cases ch)
  case (Cons c cs)
  then show ?thesis
    by (cases cs) (simp_all add: encode_char_def encoded_char_len_def hex4_def)
qed (simp add: encode_char_def encoded_char_len_def)

lemma hex_value_of_digit: "d < 16 \<Longrightarrow> hex_value (hex_digit d) = Some d"
  by (auto simp: hex_value_def hex_digit_def)

lemma hex_fold_hex4: "n < 65536 \<Longrightarrow> hex_fold 0 (hex4 n) = Some n"
proof -
  assume n: "n < 65536"
  have "((n div 4096 mod 16 * 16 + n div 256 mod 16) * 16 + n div 16 mod 16) * 16 + n mod 16 = n"
  proof -
    have "n div 16 div 16 = n div 256" "n div 256 div 16 = n div 4096"
      by (simp_all add: div_mult2_eq [symmetric])
    then have "n div 16 * 16 + n mod 16 = n" "n div 256 * 16 + n div 16 mod 16 = n div 16"
        "n div 4096 * 16 + n div 256 mod 16 = n div 256"
      using div_mult_mod_eq [of n 16] div_mult_mod_eq [of "n div 16" 16]
        div_mult_mod_eq [of "n div 256" 16] by simp_all
    moreover have "n div 4096 mod 16 = n div 4096" using n by simp
    ultimately show ?thesis by (simp only:)
  qed
  moreover have "hex_fold 0 [hex_digit a, hex_digit b, hex_digit c, hex_digit d] =
      Some (((a * 16 + b) * 16 + c) * 16 + d)" if "a < 16" "b < 16" "c < 16" "d < 16" for a b c d
    using that by (simp add: hex_value_of_digit)
  ultimately show ?thesis by (simp only: hex4_def)
qed

lemma hex_unit_hex4: "n < 65536 \<Longrightarrow> hex_unit path (hex4 n @ r) = Inr (n, r)"
  using hex_fold_hex4 [of n] by (simp add: hex_unit_def hex4_def)

lemma unicode_escape_control:
  "code c < 128 \<Longrightarrow> unicode_escape path (hex4 (code c) @ r) = Inr ([c], r)"
  by (simp add: unicode_escape_def hex_unit_hex4 char_from_u32_def encode_utf8_def)

text \<open>What the encoder writes for a character is read back as that character.\<close>

lemma string_char_encode:
  assumes "utf8_chunk ch"
  obtains b bs where "encode_char ch = b # bs" "b \<noteq> CHR 0x22"
    "\<And>r. string_char path b (bs @ r) = Inr (ch, r)"
proof (cases "length ch = 1")
  case True
  then obtain c where c: "ch = [c]" by (cases ch) auto
  have a: "code c < 128" using assms by (simp add: c utf8_chunk_single)
  show thesis
  proof (cases "c \<in> {CHR 0x22, CHR 0x5C, CHR 0x08, CHR 0x0C, CHR 0x0A, CHR 0x0D, CHR 0x09} \<or>
      code c \<le> 31")
    case True
    show thesis
    proof (rule that)
      show "encode_char ch = CHR 0x5C # tl (encode_char ch)"
        using True by (auto simp: c encode_char_single)
      show "CHR 0x5C \<noteq> CHR 0x22" by simp
      show "string_char path CHR 0x5C (tl (encode_char ch) @ r) = Inr (ch, r)" for r
        using True unicode_escape_control [OF a, of path r]
        by (auto simp: c encode_char_single string_char_def)
    qed
  next
    case False
    then have e: "encode_char ch = [c]" by (simp add: c encode_char_single)
    show thesis
      by (rule that [OF e]) (use False a in \<open>simp_all add: string_char_def c\<close>)
  qed
next
  case False
  then obtain b b' bs where c: "ch = b # b' # bs"
    using assms by (cases ch; cases "tl ch") (auto simp: utf8_chunk_def)
  have "128 \<le> code b" using assms by (simp add: c utf8_chunk_multi)
  then have b: "\<not> code b \<le> 31" "b \<noteq> CHR 0x22" "b \<noteq> CHR 0x5C" by auto
  have step: "utf8_step (b # (b' # bs) @ r) = (True, Suc (Suc (length bs)))" for r
    using assms by (simp add: c utf8_chunk_def)
  show thesis
    by (rule that [of b "b' # bs"]) (use b step in \<open>simp_all add: c encode_char_multi string_char_def\<close>)
qed

lemma string_loop_encode:
  assumes "list_all utf8_chunk cs" "length acc + length (concat cs) \<le> max_result_string_bytes"
  shows "string_loop path acc (concat (map encode_char cs) @ CHR 0x22 # r) =
    Inr (acc @ concat cs, r)"
  using assms
proof (induction cs arbitrary: acc)
  case Nil
  then show ?case by (simp add: string_loop.simps)
next
  case (Cons ch cs)
  obtain b bs where b: "encode_char ch = b # bs" "b \<noteq> CHR 0x22"
      and s: "\<And>r. string_char path b (bs @ r) = Inr (ch, r)"
    using string_char_encode [of ch path] Cons.prems by auto
  have "string_loop path acc (concat (map encode_char (ch # cs)) @ CHR 0x22 # r) =
      string_loop path (acc @ ch) (concat (map encode_char cs) @ CHR 0x22 # r)"
    using Cons.prems by (subst string_loop.simps) (simp add: b s)
  also have "\<dots> = Inr ((acc @ ch) @ concat cs, r)"
    using Cons.prems by (intro Cons.IH) auto
  finally show ?case by simp
qed

lemma parse_string_encode:
  assumes "utf8_valid s" "length s \<le> max_result_string_bytes"
  shows "parse_string path (encode_json_string s @ r) = Inr (s, r)"
  using string_loop_encode [OF chars_chunks [OF assms(1)], of "[]" path r] assms(2)
  by (simp add: parse_string_def encode_json_string_def)

section \<open>Numbers\<close>

text \<open>A text that cannot extend a number token.\<close>

definition stops :: "bytes \<Rightarrow> bool" where
  "stops r \<longleftrightarrow> r = [] \<or> \<not> is_ascii_digit (hd r) \<and> \<not> is_point (hd r) \<and> \<not> is_exp_mark (hd r)"

definition number_ok :: "bytes \<Rightarrow> bool" where
  "number_ok s \<longleftrightarrow> number_end s = Some [] \<and> length s \<le> max_result_number_bytes"

lemma stops_Cons:
  "c \<in> {CHR '','', CHR '']'', CHR ''}'', CHR '':''} \<Longrightarrow> stops (c # r)"
  by (auto simp: stops_def is_ascii_digit_def is_point_def is_exp_mark_def)

lemma stops_Nil: "stops []"
  by (simp add: stops_def)

lemma dropWhile_digits_append:
  "stops r \<Longrightarrow> dropWhile is_ascii_digit (x @ r) = dropWhile is_ascii_digit x @ r"
proof (induction x)
  case Nil
  then show ?case by (cases r) (auto simp: stops_def)
qed simp

lemma digits1_append: "digits1 x = Some y \<Longrightarrow> stops r \<Longrightarrow> digits1 (x @ r) = Some (y @ r)"
  by (cases x) (auto simp: digits1_def dropWhile_digits_append split: if_splits)

lemma number_whole_append:
  "number_whole x = Some y \<Longrightarrow> stops r \<Longrightarrow> number_whole (x @ r) = Some (y @ r)"
  by (cases x) (auto simp: number_whole_def dropWhile_digits_append split: if_splits)

lemma number_fraction_append:
  assumes "number_fraction x = Some y" "stops r"
  shows "number_fraction (x @ r) = Some (y @ r)"
proof (cases x)
  case Nil
  then have "strip_prefix ''.'' r = None"
    using assms(2) by (cases r) (auto simp: strip_prefix_single stops_def is_point_def)
  with Nil assms(1) show ?thesis by (simp add: number_fraction_def strip_prefix_single)
next
  case (Cons c cs)
  with assms show ?thesis
    by (auto simp: number_fraction_def strip_prefix_single digits1_append)
qed

lemma number_exponent_append:
  assumes "number_exponent_part x = Some y" "stops r"
  shows "number_exponent_part (x @ r) = Some (y @ r)"
proof (cases x)
  case Nil
  then show ?thesis
    using assms by (cases r) (auto simp: number_exponent_part_def stops_def)
next
  case (Cons c cs)
  show ?thesis
  proof (cases "is_exp_mark c")
    case True
    with assms Cons obtain s t where "cs = s # t"
      by (cases cs) (auto simp: number_exponent_part_def digits1_def)
    with True assms Cons show ?thesis
      using digits1_append [of cs y r] digits1_append [of t y r]
      by (auto simp: number_exponent_part_def)
  next
    case False
    with assms Cons have "y = c # cs" by (simp add: number_exponent_part_def)
    with False show ?thesis by (simp add: Cons number_exponent_part_def)
  qed
qed

lemma number_end_append:
  assumes "number_end x = Some y" "stops r"
  shows "number_end (x @ r) = Some (y @ r)"
proof -
  have ne: "x \<noteq> []"
    using assms(1) by (auto simp: number_end_def number_whole_def strip_prefix_single)
  then have "(case strip_prefix ''-'' (x @ r) of None \<Rightarrow> x @ r | Some u \<Rightarrow> u) =
      (case strip_prefix ''-'' x of None \<Rightarrow> x | Some u \<Rightarrow> u) @ r"
    by (cases x) (auto simp: strip_prefix_single)
  with assms show ?thesis
    by (auto simp: number_end_def bind_eq_Some_conv
        intro: number_whole_append number_fraction_append number_exponent_append)
qed

lemma number_end_head:
  "number_end s = Some y \<Longrightarrow> \<exists>c cs. s = c # cs \<and> (c = CHR ''-'' \<or> is_ascii_digit c)"
  by (cases s) (auto simp: number_end_def number_whole_def strip_prefix_single is_ascii_digit_def
      bind_eq_Some_conv split: if_splits)

lemma parse_number_encode:
  assumes "number_ok s" "stops r"
  shows "parse_number path (s @ r) = Inr (s, r)"
  using number_end_append [of s "[]" r] assms by (simp add: parse_number_def number_ok_def)

section \<open>Containers over an element codec\<close>

text \<open>The heads of encoded values: no white space, no separator and no closing bracket.\<close>

definition plain_head :: "byte \<Rightarrow> bool" where
  "plain_head c \<longleftrightarrow> \<not> is_whitespace c \<and> c \<noteq> CHR '','' \<and> c \<noteq> CHR '']'' \<and> c \<noteq> CHR ''}''"

lemma skip_whitespace_plain [simp]: "\<not> is_whitespace c \<Longrightarrow> skip_whitespace (c # cs) = c # cs"
  by (simp add: skip_whitespace_def)

lemma not_whitespace [simp]:
  "\<not> is_whitespace CHR '',''" "\<not> is_whitespace CHR '']''" "\<not> is_whitespace CHR ''}''"
  "\<not> is_whitespace CHR '':''" "\<not> is_whitespace CHR 0x22"
  by (simp_all add: is_whitespace_def)

definition member_text :: "(exact_json \<Rightarrow> bytes) \<Rightarrow> bytes \<times> exact_json \<Rightarrow> bytes" where
  "member_text enc m = encode_json_string (fst m) @ CHR '':'' # enc (snd m)"

locale element_codec =
  fixes elem :: "exact_json element_parser"
    and enc :: "exact_json \<Rightarrow> bytes"
    and admitted :: "exact_json \<Rightarrow> bool"
  assumes decode: "admitted v \<Longrightarrow> stops r \<Longrightarrow> elem path (enc v @ r) = Inr (v, r)"
    and head: "admitted v \<Longrightarrow> \<exists>c cs. enc v = c # cs \<and> plain_head c"
begin

lemma skip_enc: "admitted v \<Longrightarrow> skip_whitespace (enc v @ r) = enc v @ r"
  using head [of v] by (auto simp: plain_head_def)

lemma array_loop_enc:
  assumes "ws \<noteq> []" "list_all admitted ws"
    and "length vals + length ws \<le> max_result_container_members"
  shows "array_loop elem path vals (comma_separated (map enc ws) @ CHR '']'' # r) =
    Inr (JArray (vals @ ws), r)"
  using assms
proof (induction ws arbitrary: vals)
  case (Cons w ws)
  have w: "admitted w" "\<not> length vals \<ge> max_result_container_members" using Cons.prems by auto
  show ?case
  proof (cases ws)
    case Nil
    with w decode [OF w(1) stops_Cons [of "CHR '']''"]] show ?thesis
      by (subst array_loop.simps) simp
  next
    case (Cons x xs)
    have x: "admitted x" using \<open>list_all admitted (w # ws)\<close> Cons by simp
    have "skip_whitespace (comma_separated (map enc ws) @ CHR '']'' # r) =
        comma_separated (map enc ws) @ CHR '']'' # r"
      using head [OF x] Cons by (cases xs) (auto simp: plain_head_def)
    moreover have "array_loop elem path (vals @ [w]) (comma_separated (map enc ws) @ CHR '']'' # r) =
        Inr (JArray ((vals @ [w]) @ ws), r)"
      using Cons.IH Cons.prems Cons by simp
    ultimately show ?thesis
      using w decode [OF w(1) stops_Cons [of "CHR '',''"]] Cons
      by (subst array_loop.simps) simp
  qed
qed simp

lemma parse_array_enc:
  assumes "list_all admitted ws" "length ws \<le> max_result_container_members"
  shows "parse_array elem path (CHR ''['' # comma_separated (map enc ws) @ CHR '']'' # r) =
    Inr (JArray ws, r)"
proof (cases ws)
  case Nil
  then show ?thesis by (simp add: parse_array_def)
next
  case (Cons x xs)
  have x: "admitted x" using assms Cons by simp
  then obtain c cs where c: "comma_separated (map enc ws) = c # cs" "plain_head c"
    using head [OF x] Cons by (cases xs) auto
  with array_loop_enc [of ws "[]" path r] assms Cons show ?thesis
    by (simp add: parse_array_def plain_head_def)
qed

lemma members_enc_head:
  "ms \<noteq> [] \<Longrightarrow> \<exists>t. comma_separated (map (member_text enc) ms) = CHR 0x22 # t"
  by (cases ms; cases "tl ms") (auto simp: member_text_def encode_json_string_def)

lemma object_loop_enc:
  assumes "ms \<noteq> []"
    and "\<forall>m \<in> set ms. utf8_valid (fst m) \<and> length (fst m) \<le> max_result_string_bytes \<and>
      admitted (snd m)"
    and "distinct (map fst (members @ ms))"
    and "length members + length ms \<le> max_result_container_members"
  shows "object_loop elem path members (comma_separated (map (member_text enc) ms) @ CHR ''}'' # r) =
    Inr (JObject (members @ ms), r)"
  using assms
proof (induction ms arbitrary: members)
  case (Cons m ms)
  obtain name v where m: "m = (name, v)" by force
  have v: "admitted v" "utf8_valid name" "length name \<le> max_result_string_bytes"
      "name \<notin> fst ` set members" "\<not> length members \<ge> max_result_container_members"
    using Cons.prems m by auto
  have step: "object_loop elem path members (member_text enc m @ c # cs) =
      (if c = CHR '','' then object_loop elem path (members @ [m]) (skip_whitespace cs)
       else if c = CHR ''}'' then Inr (JObject (members @ [m]), cs) else Inl (InvalidJson, path))"
    if "c \<in> {CHR '','', CHR ''}''}" for c cs
  proof -
    have e: "member_text enc m @ c # cs = encode_json_string name @ CHR '':'' # enc v @ c # cs"
      by (simp add: member_text_def m)
    have s: "stops (c # cs)" "\<not> is_whitespace c" using that stops_Cons [of c] by auto
    have h: "hd (encode_json_string name @ x) = CHR 0x22" "encode_json_string name \<noteq> []" for x
      by (simp_all add: encode_json_string_def)
    show ?thesis
      unfolding e
      by (subst object_loop.simps)
        (use v s h in \<open>simp add: parse_string_encode skip_enc decode m\<close>)
  qed
  show ?case
  proof (cases ms)
    case Nil
    with step [of "CHR ''}''" r] show ?thesis by simp
  next
    case (Cons x xs)
    have "skip_whitespace (comma_separated (map (member_text enc) ms) @ CHR ''}'' # r) =
        comma_separated (map (member_text enc) ms) @ CHR ''}'' # r"
    proof -
      obtain t where "comma_separated (map (member_text enc) ms) = CHR 0x22 # t"
        using members_enc_head [of ms] Cons by auto
      then show ?thesis by simp
    qed
    moreover have "object_loop elem path (members @ [m])
        (comma_separated (map (member_text enc) ms) @ CHR ''}'' # r) = Inr (JObject ((members @ [m]) @ ms), r)"
      using Cons.IH [of "members @ [m]"] Cons.prems Cons by simp
    ultimately show ?thesis
      using step [of "CHR '',''" "comma_separated (map (member_text enc) ms) @ CHR ''}'' # r"] Cons by simp
  qed
qed simp

lemma parse_object_enc:
  assumes "\<forall>m \<in> set ms. utf8_valid (fst m) \<and> length (fst m) \<le> max_result_string_bytes \<and>
      admitted (snd m)"
    and "distinct (map fst ms)" "length ms \<le> max_result_container_members"
  shows "parse_object elem path (CHR ''{'' # comma_separated (map (member_text enc) ms) @ CHR ''}'' # r) =
    Inr (JObject ms, r)"
proof (cases ms)
  case Nil
  then show ?thesis by (simp add: parse_object_def)
next
  case (Cons x xs)
  then obtain t where "comma_separated (map (member_text enc) ms) = CHR 0x22 # t"
    using members_enc_head [of ms] by auto
  with object_loop_enc [of ms "[]" path r] assms Cons show ?thesis
    by (simp add: parse_object_def)
qed

end

section \<open>The round trip of values\<close>

text \<open>Values within the bounds of the codec, at a nesting depth.\<close>

fun json_ok :: "nat \<Rightarrow> exact_json \<Rightarrow> bool" where
  "json_ok depth JNull \<longleftrightarrow> depth \<le> max_result_depth"
| "json_ok depth (JBool b) \<longleftrightarrow> depth \<le> max_result_depth"
| "json_ok depth (JString s) \<longleftrightarrow>
     depth \<le> max_result_depth \<and> utf8_valid s \<and> length s \<le> max_result_string_bytes"
| "json_ok depth (JNumber s) \<longleftrightarrow> depth \<le> max_result_depth \<and> number_ok s"
| "json_ok depth (JArray vs) \<longleftrightarrow>
     depth \<le> max_result_depth \<and> length vs \<le> max_result_container_members \<and>
     (\<forall>v \<in> set vs. json_ok (Suc depth) v)"
| "json_ok depth (JObject ms) \<longleftrightarrow>
     depth \<le> max_result_depth \<and> length ms \<le> max_result_container_members \<and>
     distinct (map fst ms) \<and>
     (\<forall>(name, v) \<in> set ms.
        utf8_valid name \<and> length name \<le> max_result_string_bytes \<and> json_ok (Suc depth) v)"

lemma json_ok_depth: "json_ok depth v \<Longrightarrow> depth \<le> max_result_depth"
  by (cases v) auto

lemma encode_object: "encode_exact_value (JObject ms) =
    CHR ''{'' # comma_separated (map (member_text encode_exact_value) ms) @ ''}''"
proof -
  have "member_text encode_exact_value =
      (\<lambda>(name, v). encode_json_string name @ CHR '':'' # encode_exact_value v)"
    by (auto simp: member_text_def)
  then show ?thesis by simp
qed

lemma plain_digit_head: "c = CHR ''-'' \<or> is_ascii_digit c \<Longrightarrow> plain_head c"
  by (auto simp: plain_head_def is_whitespace_def is_ascii_digit_def)

lemma encode_head:
  "json_ok depth v \<Longrightarrow> \<exists>c cs. encode_exact_value v = c # cs \<and> plain_head c"
proof (cases v)
  case (JNumber s)
  assume "json_ok depth v"
  with JNumber obtain c cs where "s = c # cs" "c = CHR ''-'' \<or> is_ascii_digit c"
    using number_end_head [of s "[]"] by (auto simp: number_ok_def)
  with JNumber plain_digit_head [of c] show ?thesis by simp
qed (simp_all add: plain_head_def is_whitespace_def encode_json_string_def)

lemma parse_value_branch:
  assumes "depth \<le> max_result_depth" "c \<notin> {CHR ''n'', CHR ''t'', CHR ''f''}"
  shows "parse_value depth path (c # cs) =
    (if c = CHR 0x22 then on_ok JString (parse_string path (c # cs))
     else if c = CHR ''['' then parse_array (parse_value (Suc depth)) path (c # cs)
     else if c = CHR ''{'' then parse_object (parse_value (Suc depth)) path (c # cs)
     else if c = CHR ''-'' \<or> is_ascii_digit c then on_ok JNumber (parse_number path (c # cs))
     else Inl (InvalidJson, path))"
  using assms by (subst parse_value.simps) (simp add: strip_prefix_def)

lemma parse_value_codec:
  "element_codec (parse_value depth) encode_exact_value (json_ok depth)"
proof (induction "Suc max_result_depth - depth" arbitrary: depth rule: less_induct)
  case less
  show ?case
  proof
    show "\<exists>c cs. encode_exact_value v = c # cs \<and> plain_head c" if "json_ok depth v" for v
      using that by (rule encode_head)
    show "parse_value depth path (encode_exact_value v @ r) = Inr (v, r)"
      if ok: "json_ok depth v" and r: "stops r" for v r path
    proof -
      have d: "depth \<le> max_result_depth" using ok by (rule json_ok_depth)
      then have deeper: "element_codec (parse_value (Suc depth)) encode_exact_value (json_ok (Suc depth))"
        by (intro less) simp
      show ?thesis
      proof (cases v)
        case (JString s)
        then show ?thesis
          using ok d parse_string_encode [of s path r]
          by (simp add: encode_json_string_def parse_value_branch on_ok_def)
      next
        case (JNumber s)
        then obtain c cs where s: "s = c # cs" "c = CHR ''-'' \<or> is_ascii_digit c"
          using ok number_end_head [of s "[]"] by (auto simp: number_ok_def)
        then have "c \<notin> {CHR ''n'', CHR ''t'', CHR ''f''}" "c \<noteq> CHR 0x22" "c \<noteq> CHR ''[''" "c \<noteq> CHR ''{''"
          by (auto simp: is_ascii_digit_def)
        with JNumber s ok d r parse_number_encode [of s r path] show ?thesis
          by (simp add: parse_value_branch on_ok_def)
      next
        case (JArray vs)
        then show ?thesis
          using ok d element_codec.parse_array_enc [OF deeper, of vs path r]
          by (simp add: parse_value_branch list_all_iff)
      next
        case (JObject ms)
        then show ?thesis
          using ok d element_codec.parse_object_enc [OF deeper, of ms path r]
          by (simp add: parse_value_branch encode_object case_prod_beta del: encode_exact_value.simps(6))
      qed (use d in \<open>subst parse_value.simps, simp add: strip_prefix_def\<close>)+
    qed
  qed
qed

interpretation document: element_codec "parse_value 0" encode_exact_value "json_ok 0"
  by (rule parse_value_codec)

lemma parse_encode:
  assumes "json_ok 0 v" "length (encode_exact_value v) \<le> max_result_encoded_bytes"
  shows "parse_exact_json (encode_exact_value v) = Inr v"
  using document.decode [OF assms(1) stops_Nil, of "''$''"] document.skip_enc [OF assms(1), of "[]"]
    assms(2)
  by (simp add: parse_exact_json_def skip_whitespace_def)

section \<open>The size check\<close>

lemma checked_len_Inr: "checked_len n cs = Inr m \<Longrightarrow> m = n + sum_list (map encoded_char_len cs)"
proof (induction cs arbitrary: n)
  case (Cons c cs)
  then have "checked_len (n + encoded_char_len c) cs = Inr m"
    by (auto simp: checked_add_Some_iff split: option.splits)
  with Cons.IH [of "n + encoded_char_len c"] show ?case by simp
qed simp

lemma concat_encode_length:
  "length (concat (map encode_char cs)) = sum_list (map encoded_char_len cs)"
  by (induction cs) (simp_all add: encode_char_length)

lemma encoded_string_len_Inr:
  "encoded_string_len s = Inr m \<Longrightarrow> m = length (encode_json_string s)"
  by (auto simp: encoded_string_len_def encode_json_string_def concat_encode_length
      dest: checked_len_Inr)

lemma encoded_char_len_le: "encoded_char_len ch \<le> 6 * length ch"
  by (auto simp: encoded_char_len_def split: list.splits)

lemma encode_json_string_bound: "length (encode_json_string s) \<le> 6 * length s + 2"
proof -
  have "sum_list (map encoded_char_len cs) \<le> 6 * length (concat cs)" for cs
  proof (induction cs)
    case (Cons c cs)
    then show ?case using encoded_char_len_le [of c] by simp
  qed simp
  from this [of "chars s"] show ?thesis
    by (simp add: encode_json_string_def concat_encode_length)
qed

lemma add_item_Inr:
  "add_item n f i = Inr m \<Longrightarrow> m = n + (if f then 0 else 1) + i \<and> m \<le> max_result_encoded_bytes"
  by (auto simp: add_item_def checked_add_Some_iff bind_eq_Some_conv split: option.splits if_splits)

lemma comma_separated_length:
  "length (comma_separated xs) = sum_list (map length xs) + (length xs - 1)"
  by (induction xs rule: comma_separated.induct) simp_all

lemma array_len_loop_Inr:
  assumes "array_len_loop len n f vs = Inr m" "n \<le> max_result_encoded_bytes"
    and "\<And>v k. v \<in> set vs \<Longrightarrow> len v = Inr k \<Longrightarrow> sz v = k"
  shows "(\<forall>v \<in> set vs. \<exists>k. len v = Inr k) \<and>
    m = n + sum_list (map sz vs) + (length vs - (if f then 1 else 0)) \<and>
    m \<le> max_result_encoded_bytes"
  using assms
proof (induction vs arbitrary: n f)
  case (Cons v vs)
  from Cons.prems(1) obtain k n' where k: "len v = Inr k" "add_item n f k = Inr n'"
      and r: "array_len_loop len n' False vs = Inr m"
    by (auto split: sum.splits)
  have "sz v = k" using Cons.prems(3) k by simp
  with add_item_Inr [OF k(2)] Cons.IH [OF r] Cons.prems(3) k(1) show ?case
    by (cases f) auto
qed simp

lemma members_len_loop_Inr:
  assumes "members_len_loop len n pre ms = Inr m" "n \<le> max_result_encoded_bytes" "distinct pre"
    and "\<And>a v k. (a, v) \<in> set ms \<Longrightarrow> len v = Inr k \<Longrightarrow> sz v = k"
  shows "(\<forall>(name, v) \<in> set ms. length name \<le> max_result_string_bytes \<and> (\<exists>k. len v = Inr k)) \<and>
    distinct (pre @ map fst ms) \<and>
    m = n + sum_list (map (\<lambda>(name, v). length (encode_json_string name) + 1 + sz v) ms) +
      (length ms - (if pre = [] then 1 else 0)) \<and>
    m \<le> max_result_encoded_bytes"
  using assms
proof (induction ms arbitrary: n pre)
  case (Cons mem ms)
  obtain name v where mem: "mem = (name, v)" by force
  from Cons.prems(1) mem obtain k nb mb n' where k: "len v = Inr k"
      and nb: "encoded_string_len name = Inr nb"
      and mb: "Option.bind (checked_add nb 1) (\<lambda>n. checked_add n k) = Some mb"
      and n': "add_item n (pre = []) mb = Inr n'"
      and len: "length name \<le> max_result_string_bytes" "name \<notin> set pre"
      and r: "members_len_loop len n' (pre @ [name]) ms = Inr m"
    by (auto split: sum.splits option.splits if_splits)
  have mb': "mb = length (encode_json_string name) + 1 + k"
    using mb encoded_string_len_Inr [OF nb] by (auto simp: bind_eq_Some_conv checked_add_Some_iff)
  have "sz v = k" using Cons.prems(4) [of name v k] k mem by simp
  moreover have "n' = n + (if pre = [] then 0 else 1) + mb" "n' \<le> max_result_encoded_bytes"
    using add_item_Inr [OF n'] by simp_all
  moreover have "(\<forall>(name, v) \<in> set ms. length name \<le> max_result_string_bytes \<and> (\<exists>k. len v = Inr k)) \<and>
      distinct ((pre @ [name]) @ map fst ms) \<and>
      m = n' + sum_list (map (\<lambda>(name, v). length (encode_json_string name) + 1 + sz v) ms) +
        (length ms - (if pre @ [name] = [] then 1 else 0)) \<and> m \<le> max_result_encoded_bytes"
    using Cons.prems(3,4) len calculation(3) by (intro Cons.IH [OF r]) auto
  ultimately show ?case using mem mb' len k by auto
qed simp

lemma parse_value_number:
  assumes "parse_value depth path s = Inr (JNumber n, r)"
  shows "parse_number path s = Inr (n, r)"
proof -
  have arr: "parse_array e path x \<noteq> Inr (JNumber n, r)" for e x
  proof -
    have "array_loop e path vals y \<noteq> Inr (JNumber n, r)" for vals y
      by (induction e path vals y rule: array_loop.induct)
        (subst array_loop.simps, auto split: sum.splits list.splits)
    then show ?thesis by (auto simp: parse_array_def Let_def)
  qed
  have obj: "parse_object e path x \<noteq> Inr (JNumber n, r)" for e x
  proof -
    have "object_loop e path ms y \<noteq> Inr (JNumber n, r)" for ms y
      by (induction e path ms y rule: object_loop.induct)
        (subst object_loop.simps, auto simp: Let_def split: sum.splits list.splits)
    then show ?thesis by (auto simp: parse_object_def Let_def)
  qed
  show ?thesis
    using assms arr obj
    by (subst (asm) parse_value.simps)
      (auto simp: on_ok_def split: if_splits option.splits list.splits sum.splits)
qed

lemma number_from_document:
  assumes "parse_exact_json s = Inr (JNumber s)" "length s \<le> max_result_number_bytes"
  shows "number_ok s"
proof -
  obtain rest where v: "parse_value 0 ''$'' (skip_whitespace s) = Inr (JNumber s, rest)"
    using assms(1) by (auto simp: parse_exact_json_def split: if_splits sum.splits)
  from parse_value_number [OF this] obtain r where
      n: "number_end (skip_whitespace s) = Some rest"
      "s = take (length (skip_whitespace s) - length rest) (skip_whitespace s)"
    by (auto simp: parse_number_def Let_def split: option.splits if_splits)
  have le: "length (skip_whitespace s) \<le> length s"
    by (simp add: skip_whitespace_def length_dropWhile_le)
  have "length s = min (length (skip_whitespace s)) (length (skip_whitespace s) - length rest)"
    using arg_cong [OF n(2), of length] by simp
  with le have len: "length (skip_whitespace s) = length s" "length s - length rest = length s" by linarith+
  then have "skip_whitespace s = s" using n(2) by simp
  moreover have "rest = []"
  proof (cases "s = []")
    case True
    with n(1) number_end_head show ?thesis by (fastforce simp: skip_whitespace_def)
  next
    case False
    with len(2) show ?thesis by (cases rest; cases s) auto
  qed
  ultimately show ?thesis using n(1) assms(2) by (simp add: number_ok_def)
qed

text \<open>The strings of a value are Rust strings: valid UTF-8.\<close>

fun utf8_json :: "exact_json \<Rightarrow> bool" where
  "utf8_json (JString s) \<longleftrightarrow> utf8_valid s"
| "utf8_json (JArray vs) \<longleftrightarrow> (\<forall>v \<in> set vs. utf8_json v)"
| "utf8_json (JObject ms) \<longleftrightarrow> (\<forall>(name, v) \<in> set ms. utf8_valid name \<and> utf8_json v)"
| "utf8_json _ \<longleftrightarrow> True"

lemma members_text_length:
  "sum_list (map length (map (member_text enc) ms)) =
   sum_list (map (\<lambda>(name, v). length (encode_json_string name) + 1 + length (enc v)) ms)"
  by (induction ms) (auto simp: member_text_def)

lemma exact_json_value_len_Inr:
  assumes "exact_json_value_len v depth = Inr n" "utf8_json v"
  shows "length (encode_exact_value v) = n \<and> n \<le> max_result_encoded_bytes \<and>
    (\<forall>d \<le> depth. json_ok d v)"
  using assms
proof (induction v arbitrary: depth n)
  case JNull
  then show ?case
    by (subst (asm) exact_json_value_len.simps)
      (auto simp: max_result_encoded_bytes_def split: if_splits)
next
  case (JBool b)
  then show ?case
    by (subst (asm) exact_json_value_len.simps)
      (auto simp: max_result_encoded_bytes_def split: if_splits)
next
  case (JString s)
  then have "encoded_string_len s = Inr n" "length s \<le> max_result_string_bytes" "depth \<le> max_result_depth"
    by (auto simp: exact_json_value_len.simps [of "JString s"] split: if_splits)
  then show ?case
    using JString.prems(2) encoded_string_len_Inr [of s n] encode_json_string_bound [of s]
    by (auto simp: max_result_string_bytes_def max_result_encoded_bytes_def)
next
  case (JNumber s)
  then have "parse_exact_json s = Inr (JNumber s)" "length s \<le> max_result_number_bytes" "n = length s"
      "depth \<le> max_result_depth"
    by (auto simp: exact_json_value_len.simps [of "JNumber s"] split: if_splits sum.splits)
  then show ?case
    using number_from_document [of s]
    by (auto simp: max_result_number_bytes_def max_result_encoded_bytes_def)
next
  case (JArray vs)
  then have a: "array_len_loop (\<lambda>v. exact_json_value_len v (depth + 1)) 2 True vs = Inr n"
      "length vs \<le> max_result_container_members" "depth \<le> max_result_depth"
    by (auto simp: exact_json_value_len.simps [of "JArray vs"] split: if_splits)
  have IH: "length (encode_exact_value v) = k \<and> (\<forall>d \<le> Suc depth. json_ok d v)"
    if "v \<in> set vs" "exact_json_value_len v (depth + 1) = Inr k" for v k
    using JArray.IH [OF that] JArray.prems(2) that(1) by simp
  have "(\<forall>v \<in> set vs. \<exists>k. exact_json_value_len v (depth + 1) = Inr k) \<and>
      n = 2 + sum_list (map (\<lambda>v. length (encode_exact_value v)) vs) + (length vs - 1) \<and>
      n \<le> max_result_encoded_bytes"
    using array_len_loop_Inr [OF a(1), of "\<lambda>v. length (encode_exact_value v)"] IH
    by (simp add: max_result_encoded_bytes_def)
  with a IH show ?case by (fastforce simp: comma_separated_length comp_def)
next
  case (JObject ms)
  then have a: "members_len_loop (\<lambda>v. exact_json_value_len v (depth + 1 + 1)) 2 [] ms = Inr n"
      "length ms \<le> max_result_container_members" "depth \<le> max_result_depth"
    by (auto simp: exact_json_value_len.simps [of "JObject ms"] split: if_splits)
  have IH: "length (encode_exact_value v) = k \<and> (\<forall>d \<le> Suc (Suc depth). json_ok d v)"
    if "(name, v) \<in> set ms" "exact_json_value_len v (depth + 1 + 1) = Inr k" for name v k
    using JObject.IH [of "(name, v)" v "depth + 1 + 1" k] JObject.prems(2) that by fastforce
  have "(\<forall>(name, v) \<in> set ms. length name \<le> max_result_string_bytes \<and>
        (\<exists>k. exact_json_value_len v (depth + 1 + 1) = Inr k)) \<and> distinct (map fst ms) \<and>
      n = 2 + sum_list (map (\<lambda>(name, v). length (encode_json_string name) + 1 +
        length (encode_exact_value v)) ms) + (length ms - 1) \<and>
      n \<le> max_result_encoded_bytes"
    using members_len_loop_Inr [OF a(1), of "\<lambda>v. length (encode_exact_value v)"] IH
    by (simp add: max_result_encoded_bytes_def)
  moreover from this have "json_ok (Suc d) v" if "(name, v) \<in> set ms" "d \<le> depth" for name v d
    using IH that by fastforce
  moreover have "length (encode_exact_value (JObject ms)) =
      2 + sum_list (map (\<lambda>(name, v). length (encode_json_string name) + 1 +
        length (encode_exact_value v)) ms) + (length ms - 1)"
    unfolding encode_object
    using comma_separated_length [of "map (member_text encode_exact_value) ms"]
      members_text_length [of encode_exact_value ms] by simp
  ultimately show ?case
    using a JObject.prems(2) by (auto simp del: encode_exact_value.simps(6))
qed

end
