(* ===== verification/Exact_Json_Sound.thy ===== *)
theory Exact_Json_Sound
  imports Exact_Json_Roundtrip
begin

text \<open>
  What the parser of exact JSON values accepts is within all bounds of the codec, and is re-encoded
  to a text that is not longer than the input and reads as the same value.
\<close>

section \<open>What the parser accepts\<close>

lemma utf8_valid_ascii_append:
  "(\<forall>c \<in> set a. code c < 128) \<Longrightarrow> utf8_valid (a @ r) \<longleftrightarrow> utf8_valid r"
proof (induction a)
  case (Cons c a)
  then show ?case using utf8_valid_ascii [of c "a @ r"] by (simp del: utf8_valid.simps)
qed simp

lemma utf8_valid_skip:
  assumes "utf8_valid s"
  shows "utf8_valid (skip_whitespace s)"
proof -
  have "s = takeWhile is_whitespace s @ skip_whitespace s" by (simp add: skip_whitespace_def)
  moreover have "\<forall>c \<in> set (takeWhile is_whitespace s). code c < 128"
    by (auto simp: is_whitespace_def dest!: set_takeWhileD)
  ultimately show ?thesis using assms utf8_valid_ascii_append by metis
qed

lemma length_skip: "length (skip_whitespace s) \<le> length s"
  by (simp add: skip_whitespace_def length_dropWhile_le)

lemma encode_utf8_chunk:
  assumes "cp < 55296 \<or> 57344 \<le> cp \<and> cp < 1114112"
  shows "utf8_chunk (encode_utf8 cp)"
proof -
  consider "cp < 128" | "128 \<le> cp" "cp < 2048" | "2048 \<le> cp" "cp < 65536"
    | "65536 \<le> cp" "cp < 1114112"
    using assms by linarith
  then show ?thesis
  proof cases
    case 1
    then show ?thesis by (simp add: encode_utf8_def utf8_chunk_single)
  next
    case 2
    then have "2 \<le> cp div 64" "cp div 64 < 32" by (simp_all add: less_eq_div_iff_mult_less_eq div_less_iff_less_mult)
    with 2 show ?thesis
      by (simp add: encode_utf8_def utf8_chunk_def utf8_step.simps(2) is_cont_def)
  next
    case 3
    define a where "a = cp div 4096"
    define b where "b = cp div 64 mod 64"
    have a: "a < 16" using 3 by (simp add: a_def div_less_iff_less_mult)
    have ab: "cp div 64 = a * 64 + b"
      using div_mult_mod_eq [of "cp div 64" 64] by (simp add: a_def b_def div_mult2_eq [symmetric])
    have b: "b < 64" by (simp add: b_def)
    have "32 \<le> cp div 64" using 3 by (simp add: less_eq_div_iff_mult_less_eq)
    then have lo: "a = 0 \<Longrightarrow> 32 \<le> b" using ab by simp
    have hi: "a = 13 \<Longrightarrow> b < 32"
    proof -
      assume "a = 13"
      then have "cp < 57344" using div_mult_mod_eq [of cp 4096] mod_less_divisor [of 4096 cp]
        unfolding a_def by linarith
      then have "cp div 64 < 864" using assms by (simp add: div_less_iff_less_mult)
      with \<open>a = 13\<close> ab show ?thesis by simp
    qed
    from 3 a b lo hi show ?thesis
      by (auto simp: encode_utf8_def utf8_chunk_def utf8_step.simps(2) is_cont_def second3_ok_def
          a_def [symmetric] b_def [symmetric])
  next
    case 4
    define a where "a = cp div 262144"
    define b where "b = cp div 4096 mod 64"
    have ab: "cp div 4096 = a * 64 + b"
      using div_mult_mod_eq [of "cp div 4096" 64] by (simp add: a_def b_def div_mult2_eq [symmetric])
    have b: "b < 64" by (simp add: b_def)
    have "16 \<le> cp div 4096" "cp div 4096 < 272"
      using 4 by (simp_all add: less_eq_div_iff_mult_less_eq div_less_iff_less_mult)
    then have "a < 5" "a = 0 \<Longrightarrow> 16 \<le> b" "a = 4 \<Longrightarrow> b < 16" using ab by simp_all
    with 4 b show ?thesis
      by (auto simp: encode_utf8_def utf8_chunk_def utf8_step.simps(2) is_cont_def second4_ok_def
          numeral_2_eq_2 a_def [symmetric] b_def [symmetric])
  qed
qed

lemma hex_fold_ascii: "hex_fold v cs = Some n \<Longrightarrow> \<forall>c \<in> set cs. code c < 128"
  by (induction cs arbitrary: v) (auto simp: hex_value_def split: option.splits if_splits)

lemma hex_unit_Inr:
  assumes "hex_unit path s = Inr (u, r)" "utf8_valid s"
  shows "utf8_valid r \<and> length s = length r + 4"
proof -
  from assms(1) have f: "hex_fold 0 (take 4 s) = Some u" "r = drop 4 s" "4 \<le> length s"
    by (auto simp: hex_unit_def split: if_splits option.splits)
  then show ?thesis
    using assms(2) utf8_valid_ascii_append [OF hex_fold_ascii [OF f(1)], of r] by simp
qed

lemma unicode_escape_Inr:
  assumes "unicode_escape path s = Inr (ch, r)" "utf8_valid s"
  shows "utf8_chunk ch \<and> utf8_valid r \<and> length ch \<le> 4 \<and> length r + 4 \<le> length s"
proof -
  have ch: "utf8_chunk ch \<and> length ch \<le> 4" if "char_from_u32 cp = Some ch" for cp
    using that encode_utf8_chunk [of cp]
    by (auto simp: char_from_u32_def encode_utf8_def split: if_splits)
  from assms(1) obtain u s1 where u: "hex_unit path s = Inr (u, s1)"
    by (auto simp: unicode_escape_def split: sum.splits)
  note v1 = hex_unit_Inr [OF u assms(2)]
  show ?thesis
  proof (cases "55296 \<le> u \<and> u \<le> 56319")
    case False
    with assms(1) u ch v1 show ?thesis
      by (auto simp: unicode_escape_def split: option.splits)
  next
    case True
    with assms(1) u obtain s2 l s3 cp where s2: "s1 = [CHR 0x5C, CHR ''u''] @ s2"
        and l: "hex_unit path s2 = Inr (l, s3)" and c: "char_from_u32 cp = Some ch" "r = s3"
      by (auto simp: unicode_escape_def strip_prefix_Some_iff split: option.splits sum.splits if_splits)
    have "utf8_valid s2"
      using v1 s2 utf8_valid_ascii_append [of "[CHR 0x5C, CHR ''u'']" s2] by simp
    from hex_unit_Inr [OF l this] ch [OF c(1)] c(2) v1 s2 show ?thesis by simp
  qed
qed

lemma encode_char_short: "length ch \<le> 4 \<Longrightarrow> length (encode_char ch) \<le> 6"
  by (auto simp: encode_char_length encoded_char_len_def split: list.splits)

definition escape_char :: "byte \<Rightarrow> byte option" where
  "escape_char e =
     map_of [(CHR 0x22, CHR 0x22), (CHR 0x5C, CHR 0x5C), (CHR ''/'', CHR ''/''),
             (CHR ''b'', CHR 0x08), (CHR ''f'', CHR 0x0C), (CHR ''n'', CHR 0x0A),
             (CHR ''r'', CHR 0x0D), (CHR ''t'', CHR 0x09)] e"

lemma string_char_escape:
  "string_char path CHR 0x5C (e # s) =
     (if e = CHR ''u'' then unicode_escape path s
      else case escape_char e of None \<Rightarrow> Inl (InvalidJson, path) | Some c \<Rightarrow> Inr ([c], s))"
  by (simp add: string_char_def escape_char_def)

lemma escape_char_Some:
  assumes "escape_char e = Some c"
  shows "code e < 128 \<and> code c < 128 \<and> length (encode_char [c]) \<le> 2"
proof -
  let ?t = "[(CHR 0x22, CHR 0x22), (CHR 0x5C, CHR 0x5C), (CHR ''/'', CHR ''/''),
             (CHR ''b'', CHR 0x08), (CHR ''f'', CHR 0x0C), (CHR ''n'', CHR 0x0A),
             (CHR ''r'', CHR 0x0D), (CHR ''t'', CHR 0x09)]"
  have "list_all (\<lambda>(e, c). code e < 128 \<and> code c < 128 \<and> length (encode_char [c]) \<le> 2) ?t"
    by (simp add: encode_char_single)
  moreover have "(e, c) \<in> set ?t"
    using assms unfolding escape_char_def by (rule map_of_SomeD)
  ultimately show ?thesis unfolding list_all_iff by blast
qed

lemma string_char_Inr:
  assumes "string_char path b s = Inr (ch, r)" "utf8_valid (b # s)" "b \<noteq> CHR 0x22"
  shows "utf8_chunk ch \<and> utf8_valid r \<and> length (encode_char ch) + length r \<le> Suc (length s)"
proof (cases "b = CHR 0x5C")
  case True
  then obtain e s1 where s: "s = e # s1"
    using assms(1) by (cases s) (auto simp: string_char_def)
  have v: "utf8_valid (e # s1)"
    using assms(2) True s utf8_valid_ascii [of b s] by simp
  show ?thesis
  proof (cases "e = CHR ''u''")
    case True
    then have u: "unicode_escape path s1 = Inr (ch, r)"
      using assms(1) \<open>b = CHR 0x5C\<close> s by (simp add: string_char_escape)
    have "utf8_valid s1" using v True utf8_valid_ascii [of e s1] by simp
    from unicode_escape_Inr [OF u this] encode_char_short [of ch] s show ?thesis by simp
  next
    case False
    with assms(1) \<open>b = CHR 0x5C\<close> s obtain c where c: "ch = [c]" "r = s1" "escape_char e = Some c"
      by (cases "escape_char e") (auto simp: string_char_escape)
    moreover note escape_char_Some [OF c(3)]
    moreover have "utf8_valid s1" using v escape_char_Some [OF c(3)] by (simp only: utf8_valid_ascii)
    ultimately show ?thesis using s by (simp add: utf8_chunk_single)
  qed
next
  case False
  then have n: "ch = take (snd (utf8_step (b # s))) (b # s)" "r = drop (snd (utf8_step (b # s)) - 1) s"
      "31 < code b"
    using assms(1) by (auto simp: string_char_def Let_def split: if_splits)
  obtain n where step: "utf8_step (b # s) = (True, n)"
    using assms(2) by (auto simp: Let_def split: prod.splits)
  have len: "0 < n" "n \<le> Suc (length s)"
    using utf8_step_pos [of b s] utf8_step_le [of b s] step by simp_all
  then obtain t where t: "ch = b # t" using n(1) step by (cases n) auto
  have "encode_char ch = ch"
    using n(3) False assms(3) t by (cases t) (auto simp: encode_char_single encode_char_multi)
  moreover have "utf8_valid r" using assms(2) n(2) step by (simp add: Let_def)
  ultimately show ?thesis
    using utf8_step_chunk [OF step] n(1,2) step len by simp
qed

lemma string_loop_Cons:
  "string_loop path acc (b # s) =
     (if b = CHR 0x22 then
        (if length acc > max_result_string_bytes then Inl (BoundExceeded, path) else Inr (acc, s))
      else case string_char path b s of
          Inl e \<Rightarrow> Inl e
        | Inr (ch, s) \<Rightarrow>
            if length (acc @ ch) > max_result_string_bytes then Inl (BoundExceeded, path)
            else string_loop path (acc @ ch) s)"
  by (subst string_loop.simps) simp

lemma string_loop_Inr:
  assumes "string_loop path acc s = Inr (res, r)" "utf8_valid s"
  shows "\<exists>cs. list_all utf8_chunk cs \<and> res = acc @ concat cs \<and>
    length res \<le> max_result_string_bytes \<and> utf8_valid r \<and>
    Suc (length (concat (map encode_char cs)) + length r) \<le> length s"
  using assms
proof (induction path acc s rule: string_loop.induct)
  case (1 path acc s)
  then obtain b s1 where s: "s = b # s1"
    by (cases s) (auto simp: string_loop.simps)
  show ?case
  proof (cases "b = CHR 0x22")
    case True
    with 1 s have "res = acc" "r = s1" "length acc \<le> max_result_string_bytes"
      by (auto simp: string_loop_Cons split: if_splits)
    with 1 s True utf8_valid_ascii [of b s1] show ?thesis
      by (intro exI [of _ "[]"]) simp
  next
    case False
    with 1 s obtain ch s2 where ch: "string_char path b s1 = Inr (ch, s2)"
        and le: "\<not> length (acc @ ch) > max_result_string_bytes"
        and l: "string_loop path (acc @ ch) s2 = Inr (res, r)"
      by (auto simp: string_loop_Cons split: if_splits sum.splits)
    have c: "utf8_chunk ch \<and> utf8_valid s2 \<and> length (encode_char ch) + length s2 \<le> Suc (length s1)"
      using string_char_Inr [OF ch] 1 s False by simp
    then obtain cs where cs: "list_all utf8_chunk cs" "res = (acc @ ch) @ concat cs"
        "length res \<le> max_result_string_bytes" "utf8_valid r"
        "Suc (length (concat (map encode_char cs)) + length r) \<le> length s2"
      using "1.IH" [OF s False ch refl le l] by auto
    show ?thesis
      by (rule exI [of _ "ch # cs"]) (use c cs s in auto)
  qed
qed

lemma parse_string_Inr:
  assumes "parse_string path s = Inr (t, r)" "utf8_valid s" "s = CHR 0x22 # s'"
  shows "utf8_valid t \<and> length t \<le> max_result_string_bytes \<and> utf8_valid r \<and>
    length (encode_json_string t) + length r \<le> length s"
proof -
  have "utf8_valid s'" using assms(2,3) utf8_valid_ascii [of "CHR 0x22" s'] by simp
  with assms string_loop_Inr [of path "[]" s' t r] obtain cs where cs: "list_all utf8_chunk cs"
      "t = concat cs" "length t \<le> max_result_string_bytes" "utf8_valid r"
      "Suc (length (concat (map encode_char cs)) + length r) \<le> length s'"
    by (auto simp: parse_string_def)
  with concat_chunks [OF cs(1)] assms(3) show ?thesis
    by (simp add: encode_json_string_def)
qed

section \<open>Number tokens\<close>

definition ascii :: "bytes \<Rightarrow> bool" where
  "ascii p \<longleftrightarrow> (\<forall>c \<in> set p. code c < 128)"

lemma ascii_append [simp]: "ascii (p @ q) \<longleftrightarrow> ascii p \<and> ascii q"
  by (auto simp: ascii_def)

lemma ascii_Cons [simp]: "ascii (c # q) \<longleftrightarrow> code c < 128 \<and> ascii q"
  by (auto simp: ascii_def)

lemma ascii_Nil [simp]: "ascii []"
  by (simp add: ascii_def)

lemma ascii_digits: "ascii (takeWhile is_ascii_digit x)"
  by (auto simp: ascii_def is_ascii_digit_def dest!: set_takeWhileD)

lemma dropWhile_remove: "dropWhile P (x @ r) = y @ r \<Longrightarrow> dropWhile P x = y"
proof (cases "\<forall>c \<in> set x. P c")
  case True
  assume "dropWhile P (x @ r) = y @ r"
  with True have "dropWhile P r = y @ r" by (simp add: dropWhile_append2)
  with length_dropWhile_le [of P r] have "y = []" by simp
  with True show ?thesis by simp
next
  case False
  assume "dropWhile P (x @ r) = y @ r"
  with False show ?thesis by (auto simp: dropWhile_append1)
qed

lemma digits1_suffix: "digits1 x = Some y \<Longrightarrow> \<exists>p. x = p @ y \<and> ascii p"
  using ascii_digits [of x] takeWhile_dropWhile_id [of is_ascii_digit x]
  by (metis digits1_def option.distinct(1) option.inject)

lemma digits1_remove: "digits1 (x @ r) = Some (y @ r) \<Longrightarrow> digits1 x = Some y"
proof (cases x)
  case Nil
  assume a: "digits1 (x @ r) = Some (y @ r)"
  then have "takeWhile is_ascii_digit r \<noteq> []" "dropWhile is_ascii_digit r = y @ r"
    using Nil by (auto simp: digits1_def split: if_splits)
  then have False
    using takeWhile_dropWhile_id [of is_ascii_digit r] by (metis append_is_Nil_conv append_self_conv2 append.assoc)
  then show ?thesis ..
next
  case (Cons c cs)
  assume "digits1 (x @ r) = Some (y @ r)"
  with Cons show ?thesis
    using dropWhile_remove [of is_ascii_digit x r y] by (auto simp: digits1_def split: if_splits)
qed

lemma number_whole_suffix: "number_whole x = Some y \<Longrightarrow> \<exists>p. p \<noteq> [] \<and> x = p @ y \<and> ascii p"
proof (cases x)
  case (Cons c cs)
  assume a: "number_whole x = Some y"
  show ?thesis
  proof (cases "c = CHR ''0''")
    case True
    with a Cons show ?thesis by (intro exI [of _ "[c]"]) (simp add: number_whole_def)
  next
    case False
    with a Cons have "is_ascii_digit c" "y = dropWhile is_ascii_digit cs"
      by (auto simp: number_whole_def split: if_splits)
    with Cons show ?thesis
      using ascii_digits [of cs]
      by (intro exI [of _ "c # takeWhile is_ascii_digit cs"]) (simp add: is_ascii_digit_def)
  qed
qed (simp add: number_whole_def)

lemma number_whole_remove:
  "number_whole (x @ r) = Some (y @ r) \<Longrightarrow> x \<noteq> [] \<Longrightarrow> number_whole x = Some y"
  using dropWhile_remove [of is_ascii_digit "tl x" r y]
  by (cases x) (auto simp: number_whole_def split: if_splits)

lemma number_fraction_suffix: "number_fraction x = Some y \<Longrightarrow> \<exists>p. x = p @ y \<and> ascii p"
proof (cases "strip_prefix ''.'' x")
  case (Some z)
  assume "number_fraction x = Some y"
  then have "digits1 z = Some y" using Some by (simp add: number_fraction_def)
  then obtain p where "z = p @ y" "ascii p" using digits1_suffix by blast
  with Some show ?thesis
    by (intro exI [of _ "CHR ''.'' # p"]) (simp add: strip_prefix_Some_iff)
qed (simp add: number_fraction_def)

lemma number_fraction_remove:
  assumes "number_fraction (x @ r) = Some (y @ r)"
  shows "number_fraction x = Some y"
proof (cases x)
  case Nil
  obtain p where "r = p @ y @ r" using number_fraction_suffix [OF assms] Nil by auto
  then have "y = []" using arg_cong [of r "p @ y @ r" length] by simp
  with Nil show ?thesis by (simp add: number_fraction_def strip_prefix_single)
next
  case (Cons c cs)
  with assms digits1_remove [of cs r y] show ?thesis
    by (auto simp: number_fraction_def strip_prefix_single split: if_splits)
qed

lemma number_exponent_suffix: "number_exponent_part x = Some y \<Longrightarrow> \<exists>p. x = p @ y \<and> ascii p"
proof (cases x)
  case (Cons c cs)
  assume a: "number_exponent_part x = Some y"
  define t where "t = (case cs of [] \<Rightarrow> cs
    | s # t \<Rightarrow> if s = CHR ''+'' \<or> s = CHR ''-'' then t else cs)"
  show ?thesis
  proof (cases "is_exp_mark c")
    case True
    then have "digits1 t = Some y" using a Cons by (simp add: number_exponent_part_def t_def)
    then obtain p where p: "t = p @ y" "ascii p" using digits1_suffix by blast
    have "\<exists>q. cs = q @ t \<and> ascii q"
      by (cases cs) (auto simp: t_def intro: exI [of _ "[]"] exI [of _ "[hd cs]"])
    then obtain q where "cs = q @ t" "ascii q" by blast
    with p Cons True show ?thesis
      by (intro exI [of _ "c # q @ p"]) (auto simp: is_exp_mark_def)
  next
    case False
    with a Cons show ?thesis by (simp add: number_exponent_part_def)
  qed
qed (simp add: number_exponent_part_def)

lemma number_exponent_remove:
  assumes "number_exponent_part (x @ r) = Some (y @ r)"
  shows "number_exponent_part x = Some y"
proof (cases x)
  case Nil
  obtain p where "r = p @ y @ r" using number_exponent_suffix [OF assms] Nil by auto
  then have "y = []" using arg_cong [of r "p @ y @ r" length] by simp
  with Nil show ?thesis by (simp add: number_exponent_part_def)
next
  case (Cons c cs)
  show ?thesis
  proof (cases "is_exp_mark c")
    case True
    show ?thesis
    proof (cases cs)
      case Nil
      define q where "q = (case r of [] \<Rightarrow> r
        | s # t \<Rightarrow> if s = CHR ''+'' \<or> s = CHR ''-'' then t else r)"
      have d: "digits1 q = Some (y @ r)"
        using assms True Nil Cons by (simp add: number_exponent_part_def q_def)
      then obtain p where p: "q = p @ y @ r" using digits1_suffix by blast
      have "length q \<le> length r" by (simp add: q_def split: list.splits)
      then have "p = []" "y = []" using p by simp_all
      with d p digits1_remove [of "[]" r "[]"] show ?thesis by (simp add: digits1_def)
    next
      case (Cons s t)
      with assms True \<open>x = c # cs\<close> digits1_remove [of cs r y] digits1_remove [of t r y] show ?thesis
        by (auto simp: number_exponent_part_def split: if_splits)
    qed
  next
    case False
    with assms Cons have "y = c # cs" by (simp add: number_exponent_part_def)
    with False Cons show ?thesis by (simp add: number_exponent_part_def)
  qed
qed

lemma number_end_token:
  assumes "number_end s = Some r"
  shows "\<exists>x. x \<noteq> [] \<and> s = x @ r \<and> ascii x \<and> number_end x = Some []"
proof -
  define u where "u = (case strip_prefix ''-'' s of Some u \<Rightarrow> u | None \<Rightarrow> s)"
  obtain sg where sg: "s = sg @ u" "sg = [] \<or> sg = ''-''"
  proof (cases "strip_prefix ''-'' s")
    case None
    then show thesis by (intro that [of "[]"]) (simp_all add: u_def)
  next
    case (Some t)
    then have "u = t" by (simp add: u_def)
    moreover have "s = ''-'' @ t" using Some by (simp only: strip_prefix_Some_iff)
    ultimately show thesis by (intro that [of "''-''"]) simp_all
  qed
  from assms obtain a b where a: "number_whole u = Some a" and b: "number_fraction a = Some b"
      and c: "number_exponent_part b = Some r"
    by (auto simp: number_end_def u_def [symmetric] bind_eq_Some_conv)
  obtain p where p: "u = p @ a" "ascii p" "p \<noteq> []" using number_whole_suffix [OF a] by blast
  obtain q where q: "a = q @ b" "ascii q" using number_fraction_suffix [OF b] by blast
  obtain t where t: "b = t @ r" "ascii t" using number_exponent_suffix [OF c] by blast
  have "number_exponent_part t = Some []" using number_exponent_remove [of t r "[]"] c t by simp
  moreover have "number_fraction (q @ t) = Some t"
    using number_fraction_remove [of "q @ t" r t] b q t by simp
  moreover have "number_whole (p @ q @ t) = Some (q @ t)"
    using number_whole_remove [of "p @ q @ t" r "q @ t"] a p q t by simp
  moreover have "(case strip_prefix ''-'' (sg @ p @ q @ t) of Some u \<Rightarrow> u | None \<Rightarrow> sg @ p @ q @ t) =
      p @ q @ t"
  proof -
    obtain d ds where d: "p = d # ds" using p(3) by (cases p) auto
    have "d \<noteq> CHR ''-''"
      using a p d by (auto simp: number_whole_def is_ascii_digit_def split: if_splits)
    with sg(2) d show ?thesis by (auto simp: strip_prefix_single)
  qed
  ultimately have "number_end (sg @ p @ q @ t) = Some []" by (simp add: number_end_def)
  moreover have "ascii sg" using sg(2) by auto
  ultimately show ?thesis
    using sg p q t by (intro exI [of _ "sg @ p @ q @ t"]) simp
qed

lemma parse_number_Inr:
  assumes "parse_number path s = Inr (n, r)" "utf8_valid s"
  shows "number_ok n \<and> utf8_valid r \<and> length n + length r = length s"
proof -
  from assms(1) have e: "number_end s = Some r" and n: "n = take (length s - length r) s"
      "length n \<le> max_result_number_bytes"
    by (auto simp: parse_number_def Let_def split: option.splits if_splits)
  obtain x where x: "s = x @ r" "ascii x" "number_end x = Some []"
    using number_end_token [OF e] by blast
  with n have "n = x" by simp
  with x n assms(2) utf8_valid_ascii_append [of x r] show ?thesis
    by (simp add: number_ok_def ascii_def)
qed

section \<open>Containers over an element reader\<close>

locale element_reader =
  fixes elem :: "exact_json element_parser"
    and enc :: "exact_json \<Rightarrow> bytes"
    and admitted :: "exact_json \<Rightarrow> bool"
  assumes sound: "elem path s = Inr (v, r) \<Longrightarrow> utf8_valid s \<Longrightarrow>
    admitted v \<and> utf8_valid r \<and> length (enc v) + length r \<le> length s"
begin

text \<open>What follows an element: a separator with more elements, or the closing bracket.\<close>

lemma after_element:
  assumes "utf8_valid r" "skip_whitespace r = c # cs" "code c < 128"
  shows "utf8_valid cs \<and> utf8_valid (skip_whitespace cs) \<and> Suc (length cs) \<le> length r \<and>
    length (skip_whitespace cs) \<le> length cs"
proof -
  have "utf8_valid (c # cs)" using utf8_valid_skip [OF assms(1)] assms(2) by simp
  then have "utf8_valid cs" using assms(3) by (simp only: utf8_valid_ascii)
  with length_skip [of r] length_skip [of cs] assms(2) utf8_valid_skip show ?thesis by simp
qed

lemma array_loop_sound:
  assumes "array_loop elem path vals s = Inr (v, r)" "utf8_valid s"
  shows "\<exists>ws. ws \<noteq> [] \<and> v = JArray (vals @ ws) \<and> list_all admitted ws \<and>
    length (vals @ ws) \<le> max_result_container_members \<and> utf8_valid r \<and>
    Suc (length (comma_separated (map enc ws)) + length r) \<le> length s"
  using assms
proof (induction "max_result_container_members - length vals" arbitrary: vals s rule: less_induct)
  case less
  have small: "length vals < max_result_container_members"
    using less.prems(1) by (subst (asm) array_loop.simps) (auto split: if_splits)
  from less.prems(1) obtain w s1 c cs where
      w: "elem (path @ CHR ''/'' # show_nat (length vals)) s = Inr (w, s1)"
      and c: "skip_whitespace s1 = c # cs"
      and k: "c = CHR '','' \<and> array_loop elem path (vals @ [w]) (skip_whitespace cs) = Inr (v, r) \<or>
        c = CHR '']'' \<and> v = JArray (vals @ [w]) \<and> r = cs"
    by (subst (asm) array_loop.simps) (auto split: if_splits sum.splits list.splits)
  note ws = sound [OF w less.prems(2)]
  have a: "utf8_valid cs" "utf8_valid (skip_whitespace cs)" "Suc (length cs) \<le> length s1"
      "length (skip_whitespace cs) \<le> length cs"
    using after_element [OF _ c] ws k by auto
  from k show ?case
  proof
    assume m: "c = CHR '','' \<and> array_loop elem path (vals @ [w]) (skip_whitespace cs) = Inr (v, r)"
    have lt: "max_result_container_members - length (vals @ [w]) <
        max_result_container_members - length vals"
      using small by simp
    obtain us where us: "us \<noteq> []" "v = JArray ((vals @ [w]) @ us)" "list_all admitted us"
        "length ((vals @ [w]) @ us) \<le> max_result_container_members" "utf8_valid r"
        "Suc (length (comma_separated (map enc us)) + length r) \<le> length (skip_whitespace cs)"
      using less.hyps [of "vals @ [w]" "skip_whitespace cs"] m a(2) lt by auto
    then show ?case
      using ws a by (intro exI [of _ "w # us"]) (cases us; auto)
  next
    assume "c = CHR '']'' \<and> v = JArray (vals @ [w]) \<and> r = cs"
    then show ?case using ws a small by (intro exI [of _ "[w]"]) auto
  qed
qed

lemma parse_array_sound:
  assumes "parse_array elem path (CHR ''['' # s) = Inr (v, r)" "utf8_valid s"
  shows "\<exists>ws. v = JArray ws \<and> list_all admitted ws \<and>
    length ws \<le> max_result_container_members \<and> utf8_valid r \<and>
    Suc (length (comma_separated (map enc ws)) + length r) \<le> length s"
proof (cases "skip_whitespace s \<noteq> [] \<and> hd (skip_whitespace s) = CHR '']''")
  case True
  then obtain cs where cs: "skip_whitespace s = CHR '']'' # cs" by (cases "skip_whitespace s") auto
  with assms(1) have "v = JArray []" "r = cs" by (simp_all add: parse_array_def)
  with after_element [OF assms(2) cs] show ?thesis by auto
next
  case False
  then have "array_loop elem path [] (skip_whitespace s) = Inr (v, r)"
    using assms(1) by (auto simp: parse_array_def Let_def split: if_splits)
  from array_loop_sound [OF this utf8_valid_skip [OF assms(2)]] length_skip [of s] show ?thesis
    by auto
qed

lemma object_loop_sound:
  assumes "object_loop elem path members s = Inr (v, r)" "utf8_valid s"
    and "distinct (map fst members)"
  shows "\<exists>ms. ms \<noteq> [] \<and> v = JObject (members @ ms) \<and> distinct (map fst (members @ ms)) \<and>
    (\<forall>m \<in> set ms. utf8_valid (fst m) \<and> length (fst m) \<le> max_result_string_bytes \<and>
      admitted (snd m)) \<and>
    length (members @ ms) \<le> max_result_container_members \<and> utf8_valid r \<and>
    Suc (length (comma_separated (map (member_text enc) ms)) + length r) \<le> length s"
  using assms
proof (induction "max_result_container_members - length members" arbitrary: members s
    rule: less_induct)
  case less
  have small: "length members < max_result_container_members" "s \<noteq> []" "hd s = CHR 0x22"
    using less.prems(1) by (subst (asm) object_loop.simps, auto split: if_splits)+
  from less.prems(1) obtain name s1 s2 w s3 c cs where
      name: "parse_string path s = Inr (name, s1)" "name \<notin> fst ` set members"
      and colon: "skip_whitespace s1 = CHR '':'' # s2"
      and w: "elem (path @ CHR ''/'' # name) (skip_whitespace s2) = Inr (w, s3)"
      and c: "skip_whitespace s3 = c # cs"
      and k: "c = CHR '','' \<and>
          object_loop elem path (members @ [(name, w)]) (skip_whitespace cs) = Inr (v, r) \<or>
        c = CHR ''}'' \<and> v = JObject (members @ [(name, w)]) \<and> r = cs"
    by (subst (asm) object_loop.simps)
      (auto simp: Let_def neq_Nil_conv split: if_splits sum.splits list.splits)
  obtain s' where s': "s = CHR 0x22 # s'" using small(2,3) by (cases s) auto
  note n = parse_string_Inr [OF name(1) less.prems(2) s']
  have s2: "utf8_valid (skip_whitespace s2)" "Suc (length (skip_whitespace s2)) \<le> length s1"
    using after_element [OF _ colon] n by auto
  note ws = sound [OF w s2(1)]
  have a: "utf8_valid cs" "utf8_valid (skip_whitespace cs)" "Suc (length cs) \<le> length s3"
      "length (skip_whitespace cs) \<le> length cs"
    using after_element [OF _ c] ws k by auto
  have mt: "Suc (length (member_text enc (name, w)) + length cs) \<le> length s"
    using n s2 ws a by (simp add: member_text_def)
  from k show ?case
  proof
    assume m: "c = CHR '','' \<and>
      object_loop elem path (members @ [(name, w)]) (skip_whitespace cs) = Inr (v, r)"
    have lt: "max_result_container_members - length (members @ [(name, w)]) <
        max_result_container_members - length members"
      using small by simp
    have "distinct (map fst (members @ [(name, w)]))" using less.prems(3) name(2) by simp
    then obtain us where us: "us \<noteq> []" "v = JObject ((members @ [(name, w)]) @ us)"
        "distinct (map fst ((members @ [(name, w)]) @ us))"
        "\<forall>m \<in> set us. utf8_valid (fst m) \<and> length (fst m) \<le> max_result_string_bytes \<and> admitted (snd m)"
        "length ((members @ [(name, w)]) @ us) \<le> max_result_container_members" "utf8_valid r"
        "Suc (length (comma_separated (map (member_text enc) us)) + length r) \<le>
          length (skip_whitespace cs)"
      using less.hyps [of "members @ [(name, w)]" "skip_whitespace cs"] m a(2) lt by auto
    then show ?case
      using ws n mt a by (intro exI [of _ "(name, w) # us"]) (cases us; auto)
  next
    assume "c = CHR ''}'' \<and> v = JObject (members @ [(name, w)]) \<and> r = cs"
    then show ?case
      using ws n mt a small name less.prems(3) by (intro exI [of _ "[(name, w)]"]) auto
  qed
qed

lemma parse_object_sound:
  assumes "parse_object elem path (CHR ''{'' # s) = Inr (v, r)" "utf8_valid s"
  shows "\<exists>ms. v = JObject ms \<and> distinct (map fst ms) \<and>
    (\<forall>m \<in> set ms. utf8_valid (fst m) \<and> length (fst m) \<le> max_result_string_bytes \<and>
      admitted (snd m)) \<and>
    length ms \<le> max_result_container_members \<and> utf8_valid r \<and>
    Suc (length (comma_separated (map (member_text enc) ms)) + length r) \<le> length s"
proof (cases "skip_whitespace s \<noteq> [] \<and> hd (skip_whitespace s) = CHR ''}''")
  case True
  then obtain cs where cs: "skip_whitespace s = CHR ''}'' # cs" by (cases "skip_whitespace s") auto
  with assms(1) have "v = JObject []" "r = cs" by (simp_all add: parse_object_def)
  with after_element [OF assms(2) cs] show ?thesis by auto
next
  case False
  then have "object_loop elem path [] (skip_whitespace s) = Inr (v, r)"
    using assms(1) by (auto simp: parse_object_def Let_def split: if_splits)
  from object_loop_sound [OF this utf8_valid_skip [OF assms(2)]] length_skip [of s] show ?thesis
    by auto
qed

end

section \<open>Values\<close>

lemma parse_value_Inr:
  assumes "parse_value depth path s = Inr (v, r)"
  shows "depth \<le> max_result_depth \<and>
    ((v = JNull \<and> s = ''null'' @ r) \<or> (v = JBool True \<and> s = ''true'' @ r) \<or>
     (v = JBool False \<and> s = ''false'' @ r) \<or>
     (\<exists>t s'. s = CHR 0x22 # s' \<and> v = JString t \<and> parse_string path s = Inr (t, r)) \<or>
     (\<exists>s'. s = CHR ''['' # s' \<and> parse_array (parse_value (Suc depth)) path s = Inr (v, r)) \<or>
     (\<exists>s'. s = CHR ''{'' # s' \<and> parse_object (parse_value (Suc depth)) path s = Inr (v, r)) \<or>
     (\<exists>n. v = JNumber n \<and> parse_number path s = Inr (n, r)))"
proof -
  have d: "\<not> depth > max_result_depth"
    using assms by (subst (asm) parse_value.simps) (auto split: if_splits)
  note e = assms [unfolded parse_value.simps [of depth path s] if_not_P [OF d]]
  consider r' where "strip_prefix ''null'' s = Some r'" | r' where "strip_prefix ''null'' s = None"
      "strip_prefix ''true'' s = Some r'" | r' where "strip_prefix ''null'' s = None"
      "strip_prefix ''true'' s = None" "strip_prefix ''false'' s = Some r'"
    | "strip_prefix ''null'' s = None" "strip_prefix ''true'' s = None" "strip_prefix ''false'' s = None"
    by (metis option.exhaust)
  then show ?thesis
  proof cases
    case (1 r')
    with e have "v = JNull" "r = r'" by simp_all
    with 1 d show ?thesis by (simp add: strip_prefix_Some_iff)
  next
    case (2 r')
    with e have "v = JBool True" "r = r'" by simp_all
    with 2 d show ?thesis by (simp add: strip_prefix_Some_iff)
  next
    case (3 r')
    with e have "v = JBool False" "r = r'" by simp_all
    with 3 d show ?thesis by (simp add: strip_prefix_Some_iff)
  next
    case 4
    have "s \<noteq> []" using e 4 by auto
    then obtain c cs where s: "s = c # cs" by (cases s) auto
    note e = e [unfolded 4 option.case, unfolded s list.case, folded s]
    have ok: "\<exists>x. y = Inr (x, r) \<and> v = f x" if "on_ok f y = Inr (v, r)" for f and y :: "decode_error + (bytes \<times> bytes)"
      using that by (auto simp: on_ok_def split: sum.splits)
    consider "c = CHR 0x22" | "c = CHR ''[''" | "c = CHR ''{''"
      | "c \<noteq> CHR 0x22" "c \<noteq> CHR ''[''" "c \<noteq> CHR ''{''" by blast
    then show ?thesis
    proof cases
      case 1
      with e have "on_ok JString (parse_string path s) = Inr (v, r)" by simp
      from ok [OF this] 1 d s show ?thesis by auto
    next
      case 2
      with e have "parse_array (parse_value (Suc depth)) path s = Inr (v, r)" by simp
      with 2 d s show ?thesis by auto
    next
      case 3
      with e have "parse_object (parse_value (Suc depth)) path s = Inr (v, r)" by simp
      with 3 d s show ?thesis by auto
    next
      case 4
      with e have "on_ok JNumber (parse_number path s) = Inr (v, r)" by (simp split: if_splits)
      from ok [OF this] d show ?thesis by auto
    qed
  qed
qed

lemma literal_sound:
  assumes "s = lit @ r" "ascii lit" "utf8_valid s"
  shows "utf8_valid r \<and> length lit + length r \<le> length s"
  using assms utf8_valid_ascii_append [of lit r] by (simp add: ascii_def)

lemma parse_value_reader:
  "element_reader (parse_value depth) encode_exact_value (json_ok depth)"
proof (induction "Suc max_result_depth - depth" arbitrary: depth rule: less_induct)
  case less
  show ?case
  proof
    fix path s v r
    assume p: "parse_value depth path s = Inr (v, r)" and u: "utf8_valid s"
    have d: "depth \<le> max_result_depth" using parse_value_Inr [OF p] by simp
    then have deeper: "element_reader (parse_value (Suc depth)) encode_exact_value (json_ok (Suc depth))"
      by (intro less) simp
    have tl: "utf8_valid s'" if "s = c # s'" "code c < 128" for c s'
      using u that by (simp only: utf8_valid_ascii)
    consider "v = JNull" "s = ''null'' @ r" | "v = JBool True" "s = ''true'' @ r"
      | "v = JBool False" "s = ''false'' @ r"
      | t s' where "s = CHR 0x22 # s'" "v = JString t" "parse_string path s = Inr (t, r)"
      | s' where "s = CHR ''['' # s'" "parse_array (parse_value (Suc depth)) path s = Inr (v, r)"
      | s' where "s = CHR ''{'' # s'" "parse_object (parse_value (Suc depth)) path s = Inr (v, r)"
      | n where "v = JNumber n" "parse_number path s = Inr (n, r)"
      using parse_value_Inr [OF p] by blast
    then show "json_ok depth v \<and> utf8_valid r \<and> length (encode_exact_value v) + length r \<le> length s"
    proof cases
      case 1
      with literal_sound [OF 1(2) _ u] d show ?thesis by simp
    next
      case 2
      with literal_sound [OF 2(2) _ u] d show ?thesis by simp
    next
      case 3
      with literal_sound [OF 3(2) _ u] d show ?thesis by simp
    next
      case (4 t s')
      with parse_string_Inr [OF 4(3) u 4(1)] d show ?thesis by simp
    next
      case (5 s')
      then show ?thesis
        using element_reader.parse_array_sound [OF deeper, of path s' v r] tl [of "CHR ''[''" s'] d
        by (auto simp: list_all_iff)
    next
      case (6 s')
      then show ?thesis
        using element_reader.parse_object_sound [OF deeper, of path s' v r] tl [of "CHR ''{''" s'] d
        by (auto simp: encode_object case_prod_beta simp del: encode_exact_value.simps(6))
    next
      case (7 n)
      with parse_number_Inr [OF 7(2) u] d show ?thesis by simp
    qed
  qed
qed

interpretation document: element_reader "parse_value 0" encode_exact_value "json_ok 0"
  by (rule parse_value_reader)

lemma parse_exact_json_sound:
  assumes "parse_exact_json s = Inr v" "utf8_valid s"
  shows "json_ok 0 v \<and> length (encode_exact_value v) \<le> length s \<and>
    length s \<le> max_result_encoded_bytes"
proof -
  from assms(1) obtain r where r: "parse_value 0 ''$'' (skip_whitespace s) = Inr (v, r)"
      and "length s \<le> max_result_encoded_bytes"
    by (auto simp: parse_exact_json_def split: if_splits sum.splits)
  with document.sound [OF r utf8_valid_skip [OF assms(2)]] length_skip [of s] show ?thesis by simp
qed

section \<open>Properties\<close>

text \<open>C7: Re-encoding is stable: a document the parser accepts is re-encoded to a text that is not
  longer than the document and that the parser reads as the same value, member order and number
  spellings included.\<close>

theorem reencoded_document_is_same_value:
  assumes "utf8_valid s" "parse_exact_json s = Inr v"
  shows "length (encode_exact_value v) \<le> length s \<and>
    parse_exact_json (encode_exact_value v) = Inr v"
  using parse_exact_json_sound [OF assms(2,1)] parse_encode [of v] by simp

text \<open>Every document the parser accepts is within all bounds of the codec: nesting depth, members
  per container, bytes per string and number, distinct member names and valid number tokens.\<close>

lemma parsed_document_within_bounds:
  assumes "utf8_valid s" "parse_exact_json s = Inr v"
  shows "json_ok 0 v \<and> length s \<le> max_result_encoded_bytes"
  using parse_exact_json_sound [OF assms(2,1)] by simp

text \<open>C34: The size check of a locally authored value computes exactly the number of bytes the encoder
  writes, and a value it admits is read back unchanged by a peer's parser.\<close>

theorem authored_value_roundtrip:
  assumes "utf8_json v" "exact_json_value_len v 0 = Inr n"
  shows "length (encode_exact_value v) = n \<and> n \<le> max_result_encoded_bytes \<and>
    parse_exact_json (encode_exact_value v) = Inr v"
proof -
  have "json_ok 0 v" "length (encode_exact_value v) = n" "n \<le> max_result_encoded_bytes"
    using exact_json_value_len_Inr [OF assms(2,1)] by simp_all
  with parse_encode [of v] show ?thesis by simp
qed

text \<open>Objects nested in each other, around a null.\<close>

fun nest :: "nat \<Rightarrow> exact_json" where
  "nest 0 = JNull"
| "nest (Suc n) = JObject [(''a'', nest n)]"

lemma nest_ok: "n + d \<le> max_result_depth \<Longrightarrow> json_ok d (nest n)"
  by (induction n arbitrary: d) (auto simp: max_result_container_members_def max_result_string_bytes_def)

lemma nest_len: "max_result_depth < 2 * n + d \<Longrightarrow> \<exists>e. exact_json_value_len (nest n) d = Inl e"
proof (induction n arbitrary: d)
  case 0
  then show ?case by (simp add: exact_json_value_len.simps)
next
  case (Suc n)
  from Suc.prems have "max_result_depth < 2 * n + (d + 1 + 1)" by simp
  then obtain e where "exact_json_value_len (nest n) (d + 1 + 1) = Inl e" using Suc.IH by blast
  then show ?case
    by (subst exact_json_value_len.simps) (simp add: max_result_string_bytes_def)
qed

lemma nest_len_ok:
  "2 * n + d \<le> max_result_depth \<Longrightarrow> exact_json_value_len (nest n) d = Inr (6 * n + 4)"
proof (induction n arbitrary: d)
  case 0
  then show ?case by (simp add: exact_json_value_len.simps)
next
  case (Suc n)
  then have "exact_json_value_len (nest n) (d + 1 + 1) = Inr (6 * n + 4)" by simp
  moreover have "encoded_string_len ''a'' = Inr 3"
    by (simp add: encoded_string_len_def encoded_char_len_def checked_add_def u64_max_def)
  ultimately show ?case using Suc.prems
    by (subst exact_json_value_len.simps)
      (simp add: max_result_string_bytes_def max_result_depth_def max_result_container_members_def
        max_result_encoded_bytes_def add_item_def checked_add_def u64_max_def)
qed

lemma nest_encoded: "length (encode_exact_value (nest n)) = 6 * n + 4" "utf8_json (nest n)"
  by (induction n) (simp_all add: encode_json_string_def encode_char_def)

text \<open>C35: The size check of authored values counts every object twice towards the nesting limit.  Of
  the objects nested up to 64 deep, all of which the parser reads back from their encoding, the check
  admits exactly those nested at most 32 deep.\<close>

theorem authored_objects_half_depth:
  assumes "n \<le> max_result_depth"
  shows "parse_exact_json (encode_exact_value (nest n)) = Inr (nest n) \<and>
    (is_ok (exact_json_value_len (nest n) 0) \<longleftrightarrow> 2 * n \<le> max_result_depth)"
proof -
  have "length (encode_exact_value (nest n)) \<le> max_result_encoded_bytes"
    using assms by (simp add: nest_encoded max_result_depth_def max_result_encoded_bytes_def)
  with parse_encode [of "nest n"] nest_ok [of n 0] assms have "parse_exact_json (encode_exact_value (nest n)) = Inr (nest n)"
    by (simp add: nest_encoded)
  with nest_len [of n 0] nest_len_ok [of n 0] show ?thesis by (cases "2 * n \<le> max_result_depth") auto
qed

section \<open>Instances\<close>

lemmas json_eval =
  parse_exact_json_def parse_value.simps parse_array_def array_loop.simps parse_object_def
  object_loop.simps parse_string_def string_loop.simps string_char_def parse_number_def
  number_end_def number_whole_def number_fraction_def number_exponent_part_def digits1_def
  skip_whitespace_def is_whitespace_def strip_prefix_def on_ok_def is_ascii_digit_def
  is_exp_mark_def max_result_depth_def max_result_encoded_bytes_def
  max_result_container_members_def max_result_string_bytes_def max_result_number_bytes_def Let_def

lemma sample_document:
  "parse_exact_json ''[1.5, true]'' = Inr (JArray [JNumber ''1.5'', JBool True])"
  by (simp add: json_eval)

theorem reencoded_document_is_same_value_witness:
  "length (encode_exact_value (JArray [JNumber ''1.5'', JBool True])) \<le> length ''[1.5, true]'' \<and>
   parse_exact_json (encode_exact_value (JArray [JNumber ''1.5'', JBool True])) =
     Inr (JArray [JNumber ''1.5'', JBool True])"
  by (rule reencoded_document_is_same_value [OF _ sample_document]) simp

theorem authored_value_roundtrip_witness:
  "length (encode_exact_value (JArray [JNull, JBool True])) = 11 \<and> 11 \<le> max_result_encoded_bytes \<and>
   parse_exact_json (encode_exact_value (JArray [JNull, JBool True])) =
     Inr (JArray [JNull, JBool True])"
proof (rule authored_value_roundtrip)
  show "exact_json_value_len (JArray [JNull, JBool True]) 0 = Inr 11"
    by (simp add: exact_json_value_len.simps add_item_def checked_add_def u64_max_def json_eval)
qed simp

theorem authored_objects_half_depth_witness:
  "parse_exact_json (encode_exact_value (nest 33)) = Inr (nest 33) \<and>
   \<not> is_ok (exact_json_value_len (nest 33) 0) \<and> is_ok (exact_json_value_len (nest 32) 0)"
  using authored_objects_half_depth [of 33] authored_objects_half_depth [of 32]
  by (simp add: max_result_depth_def)

end
