(* ===== verification/Final_Cache.thy ===== *)
theory Final_Cache
  imports Number_Conversions "HOL-Library.Multiset"
begin

text \<open>
  The client's cache of complete results (fastmcp-client/src/cache.rs): keys, generations, lookup,
  insertion with eviction, and invalidation by result set, notification and life cycle.

  The entries are an association list in the hash map's iteration order.  Removal keeps the order
  of the other entries; an insertion may rehash the table, so that the order after it is an
  argument (\<open>order\<close>, any function that permutes its list).  The encoder of core results
  (\<open>CoreResult::encode\<close>, written with serde) and the greatest instant the platform's clock can
  represent are arguments as well; instants count nanoseconds.  A core result keeps its variant,
  its cache hints and, as an opaque payload, everything else.
\<close>

section \<open>Keys, generations and results\<close>

definition default_final_cache_capacity :: nat where
  "default_final_cache_capacity = 128"

definition max_final_cache_capacity :: nat where
  "max_final_cache_capacity = 10000"

definition default_final_cache_max_bytes :: nat where
  "default_final_cache_max_bytes = 128 * 1024 * 1024"

definition max_final_cache_max_bytes :: nat where
  "max_final_cache_max_bytes = 128 * 1024 * 1024"

type_synonym cache_partition_key = bytes

datatype final_cache_result_set =
  ServerDiscovery | Tools | Resources | ResourceTemplates | Prompts | Resource bytes

record final_cache_key =
  endpoint_configuration :: bytes
  protocol_version :: bytes
  normalized_capabilities :: bytes
  extension_settings :: bytes
  request_method :: bytes
  semantic_projection :: bytes
  cursor :: "bytes option"
  policy_revision :: nat
  extension_revision :: nat
  representation_policy_revision :: nat
  limits_policy_revision :: nat
  partition_key :: cache_partition_key
  result_set :: final_cache_result_set

definition result_set_bytes :: "final_cache_result_set \<Rightarrow> nat" where
  "result_set_bytes rs = (case rs of Resource uri \<Rightarrow> sat_add 1 (length uri) | _ \<Rightarrow> 1)"

definition estimated_bytes :: "final_cache_key \<Rightarrow> nat" where
  "estimated_bytes key =
     foldl sat_add (length (endpoint_configuration key))
       [length (protocol_version key), length (normalized_capabilities key),
        length (extension_settings key), length (request_method key),
        length (semantic_projection key),
        (case cursor key of None \<Rightarrow> 0 | Some c \<Rightarrow> length c),
        length (partition_key key), result_set_bytes (result_set key), 8 * 4]"

datatype final_cache_generation_set =
  GServerDiscovery | GTools | GResources | GResourceTemplates | GPrompts | GResource

definition generation_set_of :: "final_cache_result_set \<Rightarrow> final_cache_generation_set" where
  "generation_set_of rs =
     (case rs of
        ServerDiscovery \<Rightarrow> GServerDiscovery
      | Tools \<Rightarrow> GTools
      | Resources \<Rightarrow> GResources
      | ResourceTemplates \<Rightarrow> GResourceTemplates
      | Prompts \<Rightarrow> GPrompts
      | Resource _ \<Rightarrow> GResource)"

record final_cache_generation =
  g_epoch :: nat
  g_revision :: nat
  g_result_set :: final_cache_generation_set

datatype cache_scope = Public | Private

record discovery_cache_hints =
  hint_ttl_ms :: cache_ttl
  hint_scope :: cache_scope

definition is_public :: "discovery_cache_hints \<Rightarrow> bool" where
  "is_public hints \<longleftrightarrow> hint_scope hints = Public"

datatype 'p final_core_result =
    Discover discovery_cache_hints 'p
  | Completion 'p
  | ToolsList cache_ttl cache_scope 'p
  | ToolsCall 'p
  | ToolsCallTask 'p
  | ToolsCallInputRequired 'p
  | ResourcesList cache_ttl cache_scope 'p
  | ResourceTemplatesList cache_ttl cache_scope 'p
  | ResourcesRead cache_ttl cache_scope 'p
  | ResourcesReadInputRequired 'p
  | PromptsList cache_ttl cache_scope 'p
  | PromptsGet 'p
  | PromptsGetInputRequired 'p
  | SubscriptionsListen 'p

datatype 'p core_result = LegacyResult 'p | FinalResult "'p final_core_result"

definition final_cache_hints :: "'p core_result \<Rightarrow> (cache_ttl \<times> cache_scope) option" where
  "final_cache_hints r =
     (case r of
        LegacyResult _ \<Rightarrow> None
      | FinalResult r \<Rightarrow>
          (case r of
             Discover hints _ \<Rightarrow>
               Some (hint_ttl_ms hints, if is_public hints then Public else Private)
           | ToolsList ttl scope _ \<Rightarrow> Some (ttl, scope)
           | ResourcesList ttl scope _ \<Rightarrow> Some (ttl, scope)
           | ResourceTemplatesList ttl scope _ \<Rightarrow> Some (ttl, scope)
           | ResourcesRead ttl scope _ \<Rightarrow> Some (ttl, scope)
           | PromptsList ttl scope _ \<Rightarrow> Some (ttl, scope)
           | _ \<Rightarrow> None))"

section \<open>The cache\<close>

datatype final_cache_miss = Disabled | Absent | Stale | Invalidated

record 'p final_cache_page =
  page_result :: "'p core_result"
  page_generation :: final_cache_generation
  page_scope :: cache_scope

datatype 'p final_cache_page_lookup = FreshPage "'p final_cache_page" | MissPage final_cache_miss
datatype 'p final_cache_lookup = Fresh "'p core_result" | Miss final_cache_miss

datatype final_cache_insert =
  Stored | NotCacheable | ImmediatelyStale | InvalidatedDuringFetch | ExpiryOutOfRange | Oversized

record final_cache_stats =
  hits :: nat
  misses :: nat
  stale :: nat
  fills :: nat
  invalidations :: nat
  evictions :: nat

record 'p final_cache_entry =
  e_result :: "'p core_result"
  e_scope :: cache_scope
  e_generation :: final_cache_generation
  e_receipt :: instant
  e_expires_at :: instant
  e_encoded_bytes :: nat

record 'p final_result_cache =
  enabled :: bool
  capacity :: nat
  max_bytes :: nat
  retained_bytes :: nat
  entries :: "(final_cache_key \<times> 'p final_cache_entry) list"
  generations :: "final_cache_generation_set \<Rightarrow> nat option"
  epoch :: nat
  epoch_exhausted :: bool
  stats :: final_cache_stats

definition clamp :: "nat \<Rightarrow> nat \<Rightarrow> nat \<Rightarrow> nat" where
  "clamp x lo hi = (if x < lo then lo else if hi < x then hi else x)"

definition with_limits :: "nat \<Rightarrow> nat \<Rightarrow> 'p final_result_cache" where
  "with_limits cap bytes =
     \<lparr>enabled = True,
      capacity = clamp cap 1 max_final_cache_capacity,
      max_bytes = clamp bytes 1 max_final_cache_max_bytes,
      retained_bytes = 0, entries = [], generations = (\<lambda>_. None),
      epoch = 0, epoch_exhausted = False,
      stats = \<lparr>hits = 0, misses = 0, stale = 0, fills = 0, invalidations = 0, evictions = 0\<rparr>\<rparr>"

definition cache_new :: "nat \<Rightarrow> 'p final_result_cache" where
  "cache_new cap = with_limits cap default_final_cache_max_bytes"

definition cache_default :: "'p final_result_cache" where
  "cache_default = cache_new default_final_cache_capacity"

definition cache_clear :: "'p final_result_cache \<Rightarrow> 'p final_result_cache" where
  "cache_clear c =
     (let c = c\<lparr>entries := [], retained_bytes := 0\<rparr>
      in case checked_add (epoch c) 1 of
           Some e \<Rightarrow> c\<lparr>epoch := e\<rparr>
         | None \<Rightarrow> c\<lparr>epoch_exhausted := True, enabled := False\<rparr>)"

definition set_enabled :: "bool \<Rightarrow> 'p final_result_cache \<Rightarrow> 'p final_result_cache" where
  "set_enabled b c =
     (let c = (if enabled c \<noteq> b then cache_clear c else c)
      in c\<lparr>enabled := b \<and> \<not> epoch_exhausted c\<rparr>)"

definition generation :: "'p final_result_cache \<Rightarrow> final_cache_result_set \<Rightarrow> nat" where
  "generation c rs =
     (case generations c (generation_set_of rs) of None \<Rightarrow> 0 | Some n \<Rightarrow> n)"

definition begin_fetch ::
    "'p final_result_cache \<Rightarrow> final_cache_result_set \<Rightarrow> final_cache_generation" where
  "begin_fetch c rs =
     \<lparr>g_epoch = epoch c, g_revision = generation c rs, g_result_set = generation_set_of rs\<rparr>"

text \<open>\<open>HashMap::remove\<close>: the other entries stay where they are.\<close>

definition remove_entry :: "final_cache_key \<Rightarrow> 'p final_result_cache \<Rightarrow> 'p final_result_cache" where
  "remove_entry key c =
     (case map_of (entries c) key of
        None \<Rightarrow> c
      | Some removed \<Rightarrow>
          c\<lparr>entries := filter (\<lambda>p. fst p \<noteq> key) (entries c),
            retained_bytes := retained_bytes c - e_encoded_bytes removed\<rparr>)"

abbreviation count_stat where
  "count_stat field_update c \<equiv> c\<lparr>stats := field_update (\<lambda>n. sat_add n 1) (stats c)\<rparr>"

definition lookup_page_at ::
    "final_cache_key \<Rightarrow> instant \<Rightarrow> 'p final_result_cache \<Rightarrow>
     'p final_result_cache \<times> 'p final_cache_page_lookup" where
  "lookup_page_at key now c =
     (if \<not> enabled c then (count_stat misses_update c, MissPage Disabled)
      else case map_of (entries c) key of
          None \<Rightarrow> (count_stat misses_update c, MissPage Absent)
        | Some entry \<Rightarrow>
            let miss =
                  (if e_generation entry \<noteq> begin_fetch c (result_set key) then Some Invalidated
                   else if now \<ge> e_expires_at entry then Some Stale
                   else None)
            in case miss of
                 Some m \<Rightarrow>
                   let c = count_stat misses_update (remove_entry key c);
                       c = (if m = Stale then count_stat stale_update c else c)
                   in (c, MissPage m)
               | None \<Rightarrow>
                   (count_stat hits_update c,
                    FreshPage \<lparr>page_result = e_result entry, page_generation = e_generation entry,
                               page_scope = e_scope entry\<rparr>))"

definition lookup_at ::
    "final_cache_key \<Rightarrow> instant \<Rightarrow> 'p final_result_cache \<Rightarrow>
     'p final_result_cache \<times> 'p final_cache_lookup" where
  "lookup_at key now c =
     (case lookup_page_at key now c of
        (c, FreshPage page) \<Rightarrow> (c, Fresh (page_result page))
      | (c, MissPage miss) \<Rightarrow> (c, Miss miss))"

text \<open>\<open>Iterator::min_by_key\<close>: the first of the least elements.\<close>

fun min_by_key :: "('a \<Rightarrow> nat) \<Rightarrow> 'a list \<Rightarrow> 'a option" where
  "min_by_key f [] = None"
| "min_by_key f (x # xs) =
     (case min_by_key f xs of
        None \<Rightarrow> Some x
      | Some y \<Rightarrow> Some (if f y < f x then y else x))"

definition evict_oldest :: "'p final_result_cache \<Rightarrow> 'p final_result_cache \<times> bool" where
  "evict_oldest c =
     (case min_by_key (\<lambda>(_, entry). e_receipt entry) (entries c) of
        None \<Rightarrow> (c, False)
      | Some (oldest, _) \<Rightarrow> (count_stat evictions_update (remove_entry oldest c), True))"

lemma min_by_key_in: "min_by_key f xs = Some x \<Longrightarrow> x \<in> set xs"
  by (induction xs arbitrary: x) (auto split: option.splits if_splits)

lemma evict_oldest_shrinks:
  assumes "evict_oldest c = (c', True)"
  shows "length (entries c') < length (entries c)"
proof -
  obtain k e where "min_by_key (\<lambda>(_, entry). e_receipt entry) (entries c) = Some (k, e)"
    and c': "c' = count_stat evictions_update (remove_entry k c)"
    using assms by (auto simp: evict_oldest_def split: option.splits)
  then have mem: "(k, e) \<in> set (entries c)" by (blast dest: min_by_key_in)
  then obtain e' where "map_of (entries c) k = Some e'" by (metis not_Some_eq weak_map_of_SomeI)
  with c' mem show ?thesis by (auto simp: remove_entry_def intro!: length_filter_less)
qed

text \<open>The loop of an insertion that makes room for \<open>encoded\<close> bytes.\<close>

function make_room :: "nat \<Rightarrow> 'p final_result_cache \<Rightarrow> 'p final_result_cache \<times> bool" where
  "make_room encoded c =
     (if length (entries c) \<ge> capacity c \<or> retained_bytes c > max_bytes c - encoded then
        (case evict_oldest c of
           (c, False) \<Rightarrow> (c, False)
         | (c, True) \<Rightarrow> make_room encoded c)
      else (c, True))"
  by pat_completeness auto
termination
  by (relation "measure (\<lambda>(_, c). length (entries c))") (simp_all add: evict_oldest_shrinks)

declare make_room.simps [simp del]

definition instant_checked_add :: "instant \<Rightarrow> instant \<Rightarrow> nat \<Rightarrow> instant option" where
  "instant_checked_add last_instant i nanos =
     (if i + nanos \<le> last_instant then Some (i + nanos) else None)"

definition insert_if_current_at ::
    "('p core_result \<Rightarrow> bytes option) \<Rightarrow> instant \<Rightarrow>
     ((final_cache_key \<times> 'p final_cache_entry) list \<Rightarrow> (final_cache_key \<times> 'p final_cache_entry) list) \<Rightarrow>
     final_cache_key \<Rightarrow> final_cache_generation \<Rightarrow> 'p core_result \<Rightarrow> instant \<Rightarrow>
     'p final_result_cache \<Rightarrow> 'p final_result_cache \<times> final_cache_insert" where
  "insert_if_current_at encode last_instant order key captured r receipt c =
     (if \<not> enabled c \<or> captured \<noteq> begin_fetch c (result_set key) then (c, InvalidatedDuringFetch)
      else case final_cache_hints r of
        None \<Rightarrow> (c, NotCacheable)
      | Some (ttl, scope) \<Rightarrow>
      (case ttl_try_as_millis ttl of
         Inl _ \<Rightarrow> (c, ExpiryOutOfRange)
       | Inr ttl_ms \<Rightarrow>
      if ttl_ms = 0 then (c, ImmediatelyStale)
      else case instant_checked_add last_instant receipt (ttl_ms * 1000000) of
        None \<Rightarrow> (c, ExpiryOutOfRange)
      | Some expires_at \<Rightarrow>
      (case encode r of
         None \<Rightarrow> (c, Oversized)
       | Some encoded \<Rightarrow>
      let encoded_bytes = sat_add (estimated_bytes key) (length encoded)
      in if encoded_bytes > max_bytes c then (c, Oversized)
      else case make_room encoded_bytes (remove_entry key c) of
        (c, False) \<Rightarrow> (c, Oversized)
      | (c, True) \<Rightarrow>
          let entry = \<lparr>e_result = r, e_scope = scope, e_generation = captured, e_receipt = receipt,
                       e_expires_at = expires_at, e_encoded_bytes = encoded_bytes\<rparr>;
              c = c\<lparr>entries := order ((key, entry) # entries c),
                    retained_bytes := sat_add (retained_bytes c) encoded_bytes\<rparr>
          in (count_stat fills_update c, Stored))))"

definition recount_retained_bytes :: "'p final_result_cache \<Rightarrow> 'p final_result_cache" where
  "recount_retained_bytes c =
     c\<lparr>retained_bytes := foldl (\<lambda>total p. sat_add total (e_encoded_bytes (snd p))) 0 (entries c)\<rparr>"

definition invalidates :: "final_cache_result_set \<Rightarrow> final_cache_key \<Rightarrow> bool" where
  "invalidates rs key =
     (case rs of
        Resource _ \<Rightarrow> (case result_set key of Resource _ \<Rightarrow> True | _ \<Rightarrow> False)
      | _ \<Rightarrow> result_set key = rs)"

definition invalidate_result_set ::
    "final_cache_result_set \<Rightarrow> 'p final_result_cache \<Rightarrow> 'p final_result_cache" where
  "invalidate_result_set rs c =
     (case checked_add (generation c rs) 1 of
        None \<Rightarrow>
          count_stat invalidations_update ((cache_clear c)\<lparr>generations := (\<lambda>_. None)\<rparr>)
      | Some n \<Rightarrow>
          count_stat invalidations_update (recount_retained_bytes
            (c\<lparr>generations := (generations c)(generation_set_of rs \<mapsto> n),
               entries := filter (\<lambda>p. \<not> invalidates rs (fst p)) (entries c)\<rparr>)))"

datatype server_notification =
  Cancelled | Progress | LogMessage | ResourceUpdated bytes | ResourcesListChanged |
  ToolsListChanged | PromptsListChanged | SubscriptionsAcknowledged

definition invalidate_notification ::
    "server_notification \<Rightarrow> 'p final_result_cache \<Rightarrow> 'p final_result_cache" where
  "invalidate_notification n c =
     (case n of
        ToolsListChanged \<Rightarrow> invalidate_result_set Tools c
      | ResourcesListChanged \<Rightarrow>
          invalidate_result_set (Resource [])
            (invalidate_result_set ResourceTemplates (invalidate_result_set Resources c))
      | PromptsListChanged \<Rightarrow> invalidate_result_set Prompts c
      | ResourceUpdated uri \<Rightarrow> invalidate_result_set (Resource uri) c
      | _ \<Rightarrow> c)"

end
