(* ===== verification/Final_Cache_Laws.thy ===== *)
theory Final_Cache_Laws
  imports Final_Cache
begin

text \<open>
  The laws of the client's result cache: its invariant under every sequence of operations, the
  eviction loop, the outcome of insertions and lookups, and the fencing of fetches that were in
  flight when their result set was invalidated.
\<close>

section \<open>The invariant\<close>

definition total_bytes :: "(final_cache_key \<times> 'p final_cache_entry) list \<Rightarrow> nat" where
  "total_bytes es = sum_list (map (\<lambda>p. e_encoded_bytes (snd p)) es)"

definition cache_wf :: "'p final_result_cache \<Rightarrow> bool" where
  "cache_wf c \<longleftrightarrow>
     distinct (map fst (entries c)) \<and>
     length (entries c) \<le> capacity c \<and> 1 \<le> capacity c \<and> capacity c \<le> max_final_cache_capacity \<and>
     retained_bytes c = total_bytes (entries c) \<and>
     retained_bytes c \<le> max_bytes c \<and> max_bytes c \<le> max_final_cache_max_bytes \<and>
     (\<forall>(k, e) \<in> set (entries c).
        e_generation e = begin_fetch c (result_set k) \<and> e_receipt e < e_expires_at e) \<and>
     (\<not> enabled c \<longrightarrow> entries c = []) \<and> (epoch_exhausted c \<longrightarrow> \<not> enabled c)"

definition keep_entries ::
    "(final_cache_key \<times> 'p final_cache_entry \<Rightarrow> bool) \<Rightarrow> 'p final_result_cache \<Rightarrow> 'p final_result_cache"
  where "keep_entries P c =
     c\<lparr>entries := filter P (entries c), retained_bytes := total_bytes (filter P (entries c))\<rparr>"

lemma keep_entries_sel [simp]:
  "entries (keep_entries P c) = filter P (entries c)"
  "retained_bytes (keep_entries P c) = total_bytes (filter P (entries c))"
  "enabled (keep_entries P c) = enabled c" "capacity (keep_entries P c) = capacity c"
  "max_bytes (keep_entries P c) = max_bytes c" "generations (keep_entries P c) = generations c"
  "epoch (keep_entries P c) = epoch c" "epoch_exhausted (keep_entries P c) = epoch_exhausted c"
  by (simp_all add: keep_entries_def)

lemma begin_fetch_cong:
  "generations c = generations d \<Longrightarrow> epoch c = epoch d \<Longrightarrow> begin_fetch c = begin_fetch d"
  by (simp add: fun_eq_iff begin_fetch_def generation_def)

lemma begin_fetch_same [simp]:
  "begin_fetch (c\<lparr>stats := s\<rparr>) = begin_fetch c"
  "begin_fetch (c\<lparr>entries := es, retained_bytes := n\<rparr>) = begin_fetch c"
  "begin_fetch (keep_entries P c) = begin_fetch c"
  by (auto intro: begin_fetch_cong)

lemma cache_wf_stats [simp]: "cache_wf (c\<lparr>stats := s\<rparr>) = cache_wf c"
  by (simp add: cache_wf_def)

lemma total_bytes_simps [simp]:
  "total_bytes [] = 0"
  "total_bytes (p # es) = e_encoded_bytes (snd p) + total_bytes es"
  by (simp_all add: total_bytes_def)

lemma total_bytes_filter_le: "total_bytes (filter P es) \<le> total_bytes es"
  by (induction es) auto

lemma total_bytes_mset:
  assumes "mset es = mset fs"
  shows "total_bytes es = total_bytes fs"
proof -
  have "total_bytes xs = (\<Sum>p \<in># mset xs. e_encoded_bytes (snd p))"
    for xs :: "(final_cache_key \<times> 'a final_cache_entry) list"
    by (induction xs) auto
  with assms show ?thesis by simp
qed

lemma total_bytes_remove:
  "distinct (map fst es) \<Longrightarrow> map_of es k = Some e \<Longrightarrow>
   total_bytes es = e_encoded_bytes e + total_bytes (filter (\<lambda>p. fst p \<noteq> k) es)"
proof (induction es)
  case (Cons p es)
  show ?case
  proof (cases "fst p = k")
    case True
    then have "filter (\<lambda>p. fst p \<noteq> k) es = es"
      using Cons.prems(1) by (auto simp: filter_id_conv intro: rev_image_eqI)
    with True Cons.prems(2) show ?thesis by auto
  qed (use Cons in auto)
qed simp

lemma cache_wf_keep [wf_intros]:
  assumes "cache_wf c"
  shows "cache_wf (keep_entries P c)"
proof -
  have "length (filter P (entries c)) \<le> capacity c"
    using assms le_trans [OF length_filter_le] by (auto simp: cache_wf_def)
  moreover have "distinct (map fst (filter P (entries c)))"
    using assms by (auto simp: cache_wf_def intro: distinct_map_filter)
  moreover have "total_bytes (filter P (entries c)) \<le> total_bytes (entries c)"
    by (rule total_bytes_filter_le)
  ultimately show ?thesis using assms by (auto simp: cache_wf_def)
qed

lemma remove_entry_keep:
  assumes "cache_wf c"
  shows "remove_entry k c = keep_entries (\<lambda>p. fst p \<noteq> k) c"
proof (cases "map_of (entries c) k")
  case None
  then have "filter (\<lambda>p. fst p \<noteq> k) (entries c) = entries c"
    by (force simp: filter_id_conv map_of_eq_None_iff)
  with None assms show ?thesis by (simp add: remove_entry_def keep_entries_def cache_wf_def)
next
  case (Some e)
  with assms total_bytes_remove [of "entries c" k e]
  show ?thesis by (simp add: remove_entry_def keep_entries_def cache_wf_def)
qed

lemma foldl_sat_total:
  "n + total_bytes es \<le> u64_max \<Longrightarrow>
   foldl (\<lambda>total p. sat_add total (e_encoded_bytes (snd p))) n es = n + total_bytes es"
  by (induction es arbitrary: n) (auto simp: sat_add_exact)

lemma max_bytes_u64: "max_final_cache_max_bytes \<le> u64_max"
  by (simp add: max_final_cache_max_bytes_def u64_max_def)

section \<open>Eviction\<close>

lemma min_by_key_None: "min_by_key f xs = None \<longleftrightarrow> xs = []"
  by (cases xs) (auto split: option.splits)

lemma min_by_key_least: "min_by_key f xs = Some x \<Longrightarrow> y \<in> set xs \<Longrightarrow> f x \<le> f y"
proof (induction xs arbitrary: x y)
  case (Cons z zs)
  show ?case
  proof (cases "min_by_key f zs")
    case None
    with Cons.prems show ?thesis by (simp add: min_by_key_None)
  next
    case (Some w)
    with Cons.IH [OF Some] Cons.prems show ?thesis by (force split: if_splits)
  qed
qed simp

lemma cache_evict_oldest_spec:
  assumes "cache_wf c" "entries c \<noteq> []"
  obtains k e s where "(k, e) \<in> set (entries c)"
    and "\<And>p. p \<in> set (entries c) \<Longrightarrow> e_receipt e \<le> e_receipt (snd p)"
    and "evict_oldest c = ((keep_entries (\<lambda>p. fst p \<noteq> k) c)\<lparr>stats := s\<rparr>, True)"
proof -
  from assms(2) obtain k e
    where m: "min_by_key (\<lambda>(_, entry). e_receipt entry) (entries c) = Some (k, e)"
    by (metis min_by_key_None not_Some_eq surj_pair)
  show ?thesis
  proof (rule that)
    show "(k, e) \<in> set (entries c)" using m by (rule min_by_key_in)
    show "e_receipt e \<le> e_receipt (snd p)" if "p \<in> set (entries c)" for p
      using min_by_key_least [OF m that] by (simp add: case_prod_beta)
    show "evict_oldest c = ((keep_entries (\<lambda>p. fst p \<noteq> k) c)\<lparr>stats :=
        evictions_update (\<lambda>n. sat_add n 1) (stats (keep_entries (\<lambda>p. fst p \<noteq> k) c))\<rparr>, True)"
      using m assms(1) by (simp add: evict_oldest_def remove_entry_keep)
  qed
qed

text \<open>What the eviction loop leaves: room for the new entry, and only the newest entries.\<close>

definition room_for :: "nat \<Rightarrow> 'p final_result_cache \<Rightarrow> bool" where
  "room_for encoded c \<longleftrightarrow>
     length (entries c) < capacity c \<and> retained_bytes c \<le> max_bytes c - encoded"

definition evicted_to ::
    "nat \<Rightarrow> 'p final_result_cache \<Rightarrow> 'p final_result_cache \<Rightarrow> bool" where
  "evicted_to encoded c c' \<longleftrightarrow>
     room_for encoded c' \<and>
     (\<exists>P s. c' = (keep_entries P c)\<lparr>stats := s\<rparr> \<and>
        (\<forall>x \<in> set (entries c). \<forall>y \<in> set (entries c).
           \<not> P x \<and> P y \<longrightarrow> e_receipt (snd x) \<le> e_receipt (snd y)) \<and>
        (room_for encoded c \<longrightarrow> entries c' = entries c) \<and>
        (\<not> room_for encoded c \<longrightarrow>
           (\<exists>x \<in> set (entries c). \<not> P x \<and>
              \<not> room_for encoded (keep_entries (\<lambda>p. P p \<or> p = x) c))))"

lemma keep_keep:
  "keep_entries P ((keep_entries Q c)\<lparr>stats := s\<rparr>) = (keep_entries (\<lambda>p. Q p \<and> P p) c)\<lparr>stats := s\<rparr>"
  by (simp add: keep_entries_def)

lemma room_for_stats [simp]: "room_for n (c\<lparr>stats := s\<rparr>) = room_for n c"
  by (simp add: room_for_def)

lemma keep_all: "cache_wf c \<Longrightarrow> keep_entries (\<lambda>_. True) c = c"
  by (simp add: keep_entries_def cache_wf_def)


lemma make_room_step:
  assumes "cache_wf c" "\<not> room_for encoded c" "encoded \<le> max_bytes c"
  obtains k e s where "(k, e) \<in> set (entries c)"
    and "\<And>p. p \<in> set (entries c) \<Longrightarrow> e_receipt e \<le> e_receipt (snd p)"
    and "make_room encoded c =
      make_room encoded ((keep_entries (\<lambda>p. fst p \<noteq> k) c)\<lparr>stats := s\<rparr>)"
    and "evict_oldest c = ((keep_entries (\<lambda>p. fst p \<noteq> k) c)\<lparr>stats := s\<rparr>, True)"
proof -
  have "entries c \<noteq> []" using assms by (auto simp: room_for_def cache_wf_def)
  from cache_evict_oldest_spec [OF assms(1) this] obtain k e s where ke: "(k, e) \<in> set (entries c)"
      "\<And>p. p \<in> set (entries c) \<Longrightarrow> e_receipt e \<le> e_receipt (snd p)"
      "evict_oldest c = ((keep_entries (\<lambda>p. fst p \<noteq> k) c)\<lparr>stats := s\<rparr>, True)"
    by blast
  have "make_room encoded c = make_room encoded ((keep_entries (\<lambda>p. fst p \<noteq> k) c)\<lparr>stats := s\<rparr>)"
    using assms(2) ke(3) by (subst make_room.simps) (auto simp: room_for_def not_less)
  with ke show ?thesis by (blast intro: that)
qed

lemma make_room_done: "room_for encoded c \<Longrightarrow> make_room encoded c = (c, True)"
  by (subst make_room.simps) (auto simp: room_for_def)

lemma evicted_to_refl:
  assumes "cache_wf c" "room_for encoded c"
  shows "evicted_to encoded c c"
  unfolding evicted_to_def
proof (intro conjI exI)
  show "c = (keep_entries (\<lambda>_. True) c)\<lparr>stats := stats c\<rparr>" using keep_all [OF assms(1)] by simp
qed (use assms in auto)

lemma evicted_to_step:
  assumes wf: "cache_wf c" and r: "\<not> room_for encoded c" and mem: "(k, e) \<in> set (entries c)"
    and least: "\<And>p. p \<in> set (entries c) \<Longrightarrow> e_receipt e \<le> e_receipt (snd p)"
    and d: "d = (keep_entries (\<lambda>p. fst p \<noteq> k) c)\<lparr>stats := s\<rparr>" and ev: "evicted_to encoded d c'"
  shows "evicted_to encoded c c'"
proof -
  from ev obtain P t where c': "c' = (keep_entries P d)\<lparr>stats := t\<rparr>"
    and order: "\<And>x y. x \<in> set (entries d) \<Longrightarrow> y \<in> set (entries d) \<Longrightarrow> \<not> P x \<Longrightarrow> P y \<Longrightarrow>
      e_receipt (snd x) \<le> e_receipt (snd y)"
    and same: "room_for encoded d \<Longrightarrow> entries c' = entries d"
    and last: "\<not> room_for encoded d \<Longrightarrow> \<exists>x \<in> set (entries d). \<not> P x \<and>
      \<not> room_for encoded (keep_entries (\<lambda>p. P p \<or> p = x) d)"
    and room: "room_for encoded c'" unfolding evicted_to_def by blast
  define Q where "Q = (\<lambda>p. fst p \<noteq> k \<and> P p)"
  have key: "x = (k, e)" if "x \<in> set (entries c)" "fst x = k" for x
    using wf that mem eq_key_imp_eq_value [of "entries c" k e "snd x"]
    by (cases x) (simp add: cache_wf_def)
  have "\<exists>x \<in> set (entries c). \<not> Q x \<and> \<not> room_for encoded (keep_entries (\<lambda>p. Q p \<or> p = x) c)"
  proof (cases "room_for encoded d")
    case True
    then have "filter P (entries d) = entries d" using same c' by simp
    then have "\<forall>p \<in> set (entries d). P p" by (simp only: filter_id_conv)
    then have "filter (\<lambda>p. Q p \<or> p = (k, e)) (entries c) = entries c"
      unfolding filter_id_conv using d key by (auto simp: Q_def) blast+
    then have "keep_entries (\<lambda>p. Q p \<or> p = (k, e)) c = c"
      using wf by (simp add: keep_entries_def cache_wf_def)
    moreover have "\<not> Q (k, e)" by (simp add: Q_def)
    ultimately show ?thesis using r mem by metis
  next
    case False
    from last [OF False] obtain x where x: "x \<in> set (entries c)" "fst x \<noteq> k" "\<not> P x"
      "\<not> room_for encoded (keep_entries (\<lambda>p. P p \<or> p = x) d)" using d by auto
    have "(\<lambda>p. fst p \<noteq> k \<and> (P p \<or> p = x)) = (\<lambda>p. Q p \<or> p = x)" using x(2) by (auto simp: Q_def)
    then have "keep_entries (\<lambda>p. P p \<or> p = x) d = (keep_entries (\<lambda>p. Q p \<or> p = x) c)\<lparr>stats := s\<rparr>"
      by (simp add: d keep_keep)
    with x show ?thesis by (auto simp: Q_def)
  qed
  moreover have "e_receipt (snd x) \<le> e_receipt (snd y)"
    if "x \<in> set (entries c)" "y \<in> set (entries c)" "\<not> Q x" "Q y" for x y
    using that order [of x y] least [of y] key [of x] by (cases "fst x = k") (auto simp: Q_def d)
  moreover have "c' = (keep_entries Q c)\<lparr>stats := t\<rparr>" by (simp add: c' d keep_keep Q_def)
  ultimately show ?thesis unfolding evicted_to_def using r room by blast
qed

lemma make_room_evicts:
  "cache_wf c \<Longrightarrow> encoded \<le> max_bytes c \<Longrightarrow>
   \<exists>c'. make_room encoded c = (c', True) \<and> evicted_to encoded c c'"
proof (induction "length (entries c)" arbitrary: c rule: less_induct)
  case less
  show ?case
  proof (cases "room_for encoded c")
    case True
    then show ?thesis using make_room_done evicted_to_refl less.prems(1) by blast
  next
    case False
    from make_room_step [OF less.prems(1) False less.prems(2)] obtain k e s
      where ke: "(k, e) \<in> set (entries c)"
        "\<And>p. p \<in> set (entries c) \<Longrightarrow> e_receipt e \<le> e_receipt (snd p)"
        "make_room encoded c = make_room encoded ((keep_entries (\<lambda>p. fst p \<noteq> k) c)\<lparr>stats := s\<rparr>)"
        "evict_oldest c = ((keep_entries (\<lambda>p. fst p \<noteq> k) c)\<lparr>stats := s\<rparr>, True)" by blast
    define d where "d = (keep_entries (\<lambda>p. fst p \<noteq> k) c)\<lparr>stats := s\<rparr>"
    have "length (entries d) < length (entries c)"
      using evict_oldest_shrinks [OF ke(4)] by (simp add: d_def)
    moreover have "cache_wf d" "encoded \<le> max_bytes d"
      using less.prems by (simp_all add: d_def cache_wf_keep)
    ultimately obtain c' where "make_room encoded d = (c', True)" "evicted_to encoded d c'"
      using less.hyps by blast
    with ke d_def evicted_to_step [OF less.prems(1) False ke(1,2) d_def] show ?thesis by auto
  qed
qed


section \<open>Insertion\<close>

definition permutes_entries :: "('a list \<Rightarrow> 'a list) \<Rightarrow> bool" where
  "permutes_entries order \<longleftrightarrow> (\<forall>es. mset (order es) = mset es)"

text \<open>The entry an insertion stores when the result is admitted, and its size.\<close>

definition admits ::
    "('p core_result \<Rightarrow> bytes option) \<Rightarrow> instant \<Rightarrow> final_cache_key \<Rightarrow> final_cache_generation \<Rightarrow>
     'p core_result \<Rightarrow> instant \<Rightarrow> 'p final_result_cache \<Rightarrow> 'p final_cache_entry \<Rightarrow> bool" where
  "admits encode last_instant key captured r receipt c e \<longleftrightarrow>
     enabled c \<and> captured = begin_fetch c (result_set key) \<and>
     (\<exists>ttl ms enc.
        final_cache_hints r = Some (ttl, e_scope e) \<and> ttl_try_as_millis ttl = Inr ms \<and> 0 < ms \<and>
        e_expires_at e = receipt + ms * 1000000 \<and> e_expires_at e \<le> last_instant \<and>
        encode r = Some enc \<and>
        e_encoded_bytes e = sat_add (estimated_bytes key) (length enc) \<and>
        e_encoded_bytes e \<le> max_bytes c) \<and>
     e_result e = r \<and> e_generation e = captured \<and> e_receipt e = receipt"

lemma admits_unique: "admits en l k g r t c e \<Longrightarrow> admits en l k g r t c e' \<Longrightarrow> e = e'"
  by (auto simp: admits_def)

lemma insert_refused:
  assumes "\<And>e. \<not> admits encode last_instant key captured r receipt c e"
  shows "\<exists>x. x \<noteq> Stored \<and>
    insert_if_current_at encode last_instant order key captured r receipt c = (c, x)"
proof -
  consider "\<not> enabled c \<or> captured \<noteq> begin_fetch c (result_set key)"
    | (hints) "enabled c" "captured = begin_fetch c (result_set key)" "final_cache_hints r = None"
    | (ttl) ttl scope er where "enabled c" "captured = begin_fetch c (result_set key)"
        "final_cache_hints r = Some (ttl, scope)" "ttl_try_as_millis ttl = Inl er"
    | (ms) ttl scope ms where "enabled c" "captured = begin_fetch c (result_set key)"
        "final_cache_hints r = Some (ttl, scope)" "ttl_try_as_millis ttl = Inr ms"
    by (metis not_None_eq old.prod.exhaust sum.exhaust)
  then show ?thesis
  proof cases
    case ms
    consider "ms = 0" | "0 < ms" "last_instant < receipt + ms * 1000000"
      | "0 < ms" "receipt + ms * 1000000 \<le> last_instant" "encode r = None"
      | enc where "0 < ms" "receipt + ms * 1000000 \<le> last_instant" "encode r = Some enc"
      by fastforce
    then show ?thesis
    proof cases
      case 4
      have "\<not> sat_add (estimated_bytes key) (length enc) \<le> max_bytes c"
        using assms [of "\<lparr>e_result = r, e_scope = scope, e_generation = captured,
          e_receipt = receipt, e_expires_at = receipt + ms * 1000000,
          e_encoded_bytes = sat_add (estimated_bytes key) (length enc)\<rparr>"] ms 4
        by (simp add: admits_def)
      with ms 4 show ?thesis
        by (simp add: insert_if_current_at_def instant_checked_add_def Let_def)
    qed (simp_all add: insert_if_current_at_def instant_checked_add_def ms)
  qed (simp_all add: insert_if_current_at_def)
qed

lemma insert_stored:
  assumes wf: "cache_wf c" and a: "admits encode last_instant key captured r receipt c e"
  shows "\<exists>d s. evicted_to (e_encoded_bytes e) (keep_entries (\<lambda>p. fst p \<noteq> key) c) d \<and>
    insert_if_current_at encode last_instant order key captured r receipt c =
      (d\<lparr>entries := order ((key, e) # entries d),
         retained_bytes := retained_bytes d + e_encoded_bytes e, stats := s\<rparr>, Stored)"
proof -
  obtain ttl ms enc where e: "enabled c" "captured = begin_fetch c (result_set key)"
      "final_cache_hints r = Some (ttl, e_scope e)" "ttl_try_as_millis ttl = Inr ms" "ms \<noteq> 0"
      "e_expires_at e = receipt + ms * 1000000" "receipt + ms * 1000000 \<le> last_instant"
      "encode r = Some enc" "e_encoded_bytes e = sat_add (estimated_bytes key) (length enc)"
      "\<not> sat_add (estimated_bytes key) (length enc) > max_bytes c"
      "e_result e = r" "e_generation e = captured" "e_receipt e = receipt"
    using a by (auto simp: admits_def)
  let ?n = "sat_add (estimated_bytes key) (length enc)"
  have "cache_wf (keep_entries (\<lambda>p. fst p \<noteq> key) c)" using wf by (rule cache_wf_keep)
  from make_room_evicts [OF this, of ?n] obtain d
    where d: "make_room ?n (keep_entries (\<lambda>p. fst p \<noteq> key) c) = (d, True)"
      "evicted_to ?n (keep_entries (\<lambda>p. fst p \<noteq> key) c) d" using e by auto
  have "max_bytes d = max_bytes c" using d(2) by (auto simp: evicted_to_def)
  then have fits: "retained_bytes d + ?n \<le> u64_max"
    using d(2) e(9,10) wf max_bytes_u64 by (auto simp: evicted_to_def room_for_def cache_wf_def)
  have ent: "\<lparr>e_result = r, e_scope = e_scope e,
      e_generation = begin_fetch c (result_set key), e_receipt = receipt,
      e_expires_at = receipt + ms * 1000000, e_encoded_bytes = ?n\<rparr> = e"
    using e by (cases e) simp
  have "insert_if_current_at encode last_instant order key captured r receipt c =
      (let c = d\<lparr>entries := order ((key, e) # entries d),
          retained_bytes := sat_add (retained_bytes d) ?n\<rparr>
       in (count_stat fills_update c, Stored))"
    unfolding insert_if_current_at_def remove_entry_keep [OF wf]
    using e(1-5,7,8,10) d(1) by (simp add: instant_checked_add_def Let_def ent)
  with d(2) fits e(9) show ?thesis by (auto simp: sat_add_exact Let_def)
qed

lemma insert_cases:
  assumes "cache_wf c"
  obtains (refused) x where "x \<noteq> Stored" "\<And>e. \<not> admits encode last_instant key captured r receipt c e"
      "insert_if_current_at encode last_instant order key captured r receipt c = (c, x)"
  | (stored) e d s where "admits encode last_instant key captured r receipt c e"
      "evicted_to (e_encoded_bytes e) (keep_entries (\<lambda>p. fst p \<noteq> key) c) d"
      "insert_if_current_at encode last_instant order key captured r receipt c =
        (d\<lparr>entries := order ((key, e) # entries d),
           retained_bytes := retained_bytes d + e_encoded_bytes e, stats := s\<rparr>, Stored)"
  using insert_refused insert_stored [OF assms] by metis


lemma cache_wf_insert [wf_intros]:
  assumes wf: "cache_wf c" and ord: "permutes_entries order"
  shows "cache_wf (fst (insert_if_current_at encode last_instant order key captured r receipt c))"
  using wf
proof (cases rule: insert_cases [where encode = encode and last_instant = last_instant
      and key = key and captured = captured and r = r and receipt = receipt and order = order])
  case (stored e d s)
  let ?es = "order ((key, e) # entries d)"
  from stored(2) obtain P t where d: "d = (keep_entries P (keep_entries (\<lambda>p. fst p \<noteq> key) c))\<lparr>stats := t\<rparr>"
    by (auto simp: evicted_to_def)
  have wfd: "cache_wf d" using wf by (simp add: d cache_wf_keep)
  have m: "mset ?es = mset ((key, e) # entries d)" using ord by (simp add: permutes_entries_def)
  have "distinct (map fst ((key, e) # entries d))"
    using wfd by (auto simp: cache_wf_def) (auto simp: d)
  then have "distinct (map fst ?es)"
    using m by (metis mset_eq_imp_distinct_iff mset_map)
  moreover have "length ?es = Suc (length (entries d))" "set ?es = insert (key, e) (set (entries d))"
    "total_bytes ?es = e_encoded_bytes e + total_bytes (entries d)"
    using mset_eq_length [OF m] mset_eq_setD [OF m] total_bytes_mset [OF m] by simp_all
  moreover have "e_generation e = begin_fetch d (result_set key)" "e_receipt e < e_expires_at e"
    "enabled d" "e_encoded_bytes e \<le> max_bytes d"
    using stored(1) by (auto simp: admits_def d)
  moreover have "length (entries d) < capacity d"
    "retained_bytes d \<le> max_bytes d - e_encoded_bytes e"
    using stored(2) by (auto simp: evicted_to_def room_for_def)
  ultimately have "cache_wf (d\<lparr>entries := ?es, retained_bytes := retained_bytes d + e_encoded_bytes e\<rparr>)"
    using wfd by (auto simp: cache_wf_def)
  then show ?thesis by (simp add: stored(3))
qed (use wf in simp)

lemma insert_exhausted [simp]:
  assumes "cache_wf c"
  shows "epoch_exhausted (fst (insert_if_current_at en l ord key g r t c)) = epoch_exhausted c"
    "begin_fetch (fst (insert_if_current_at en l ord key g r t c)) = begin_fetch c"
  using insert_cases [OF assms, of en l key g r t ord]
  by (cases; force simp: evicted_to_def intro: begin_fetch_cong)+

section \<open>Lookup\<close>

lemma lookup_page_at_state:
  assumes "cache_wf c"
  shows "\<exists>P s. fst (lookup_page_at key now c) = (keep_entries P c)\<lparr>stats := s\<rparr>"
proof -
  have same: "\<exists>P s. c\<lparr>stats := t\<rparr> = (keep_entries P c)\<lparr>stats := s\<rparr>" for t
    using keep_all [OF assms] by metis
  have kept: "\<exists>P s. (keep_entries Q c)\<lparr>stats := t\<rparr> = (keep_entries P c)\<lparr>stats := s\<rparr>" for Q t
    by blast
  show ?thesis
  proof (cases "enabled c")
    case True
    then show ?thesis
    proof (cases "map_of (entries c) key")
      case (Some e)
      with True show ?thesis
        by (cases "e_generation e = begin_fetch c (result_set key)"; cases "now \<ge> e_expires_at e")
          (simp_all add: lookup_page_at_def remove_entry_keep [OF assms] Let_def same kept)
    qed (simp add: lookup_page_at_def same)
  qed (simp add: lookup_page_at_def same)
qed

lemma lookup_at_page: "fst (lookup_at key now c) = fst (lookup_page_at key now c)"
  by (auto simp: lookup_at_def split: prod.splits final_cache_page_lookup.splits)

lemma lookup_at_outcome:
  assumes "cache_wf c"
  shows "snd (lookup_at key now c) =
    (if \<not> enabled c then Miss Disabled
     else case map_of (entries c) key of
       None \<Rightarrow> Miss Absent
     | Some e \<Rightarrow> if now < e_expires_at e then Fresh (e_result e) else Miss Stale)"
proof (cases "map_of (entries c) key")
  case (Some e)
  then have "e_generation e = begin_fetch c (result_set key)"
    using assms by (auto simp: cache_wf_def dest: map_of_SomeD)
  with Some show ?thesis by (simp add: lookup_at_def lookup_page_at_def Let_def)
qed (simp add: lookup_at_def lookup_page_at_def)

section \<open>Invalidation\<close>

lemma cache_wf_clear [wf_intros]: "cache_wf c \<Longrightarrow> cache_wf (cache_clear c)"
  by (auto simp: cache_wf_def cache_clear_def Let_def split: option.splits)

lemma cache_wf_set_enabled [wf_intros]: "cache_wf c \<Longrightarrow> cache_wf (set_enabled b c)"
  by (auto simp: cache_wf_def set_enabled_def cache_clear_def Let_def begin_fetch_def generation_def
      split: option.splits)

lemma invalidates_iff:
  "invalidates rs key \<longleftrightarrow> generation_set_of (result_set key) = generation_set_of rs"
  by (auto simp: invalidates_def generation_set_of_def split: final_cache_result_set.splits)

lemma invalidate_keep:
  assumes "cache_wf c" "generation c rs < u64_max"
  shows "\<exists>s. invalidate_result_set rs c =
    (keep_entries (\<lambda>p. generation_set_of (result_set (fst p)) \<noteq> generation_set_of rs)
       (c\<lparr>generations := (generations c)(generation_set_of rs \<mapsto> Suc (generation c rs))\<rparr>))\<lparr>stats := s\<rparr>"
proof -
  have "total_bytes (filter P (entries c)) \<le> u64_max" for P
    using assms(1) total_bytes_filter_le [of P "entries c"] max_bytes_u64
    by (auto simp: cache_wf_def intro: le_trans)
  then have f: "foldl (\<lambda>total p. sat_add total (e_encoded_bytes (snd p))) 0 (filter P (entries c)) =
      total_bytes (filter P (entries c))" for P
    by (simp add: foldl_sat_total)
  show ?thesis
    by (rule exI [of _ "invalidations_update (\<lambda>n. sat_add n 1) (stats c)"])
      (use assms(2) in \<open>simp add: invalidate_result_set_def checked_add_def
        recount_retained_bytes_def keep_entries_def invalidates_iff f\<close>)
qed

lemma generation_upd [simp]:
  "generation (c\<lparr>generations := (generations c)(generation_set_of rs \<mapsto> n)\<rparr>) rs' =
     (if generation_set_of rs' = generation_set_of rs then n else generation c rs')"
  by (simp add: generation_def)

lemma invalidate_saturated:
  "\<not> generation c rs < u64_max \<Longrightarrow>
   \<exists>s. invalidate_result_set rs c = (cache_clear c)\<lparr>generations := (\<lambda>_. None), stats := s\<rparr>"
  by (auto simp: invalidate_result_set_def checked_add_def)

lemma cache_wf_invalidate [wf_intros]:
  assumes "cache_wf c"
  shows "cache_wf (invalidate_result_set rs c)"
proof (cases "generation c rs < u64_max")
  case True
  from invalidate_keep [OF assms this] obtain s where
    "invalidate_result_set rs c =
      (keep_entries (\<lambda>p. generation_set_of (result_set (fst p)) \<noteq> generation_set_of rs)
       (c\<lparr>generations := (generations c)(generation_set_of rs \<mapsto> Suc (generation c rs))\<rparr>))\<lparr>stats := s\<rparr>" ..
  moreover have "cache_wf (keep_entries (\<lambda>p. generation_set_of (result_set (fst p)) \<noteq> generation_set_of rs) c)"
    using assms by (rule cache_wf_keep)
  ultimately show ?thesis by (auto simp: cache_wf_def begin_fetch_def)
next
  case False
  then obtain s where "invalidate_result_set rs c =
      (cache_clear c)\<lparr>generations := (\<lambda>_. None), stats := s\<rparr>" using invalidate_saturated by blast
  moreover have "entries (cache_clear c) = []" by (simp add: cache_clear_def Let_def split: option.splits)
  ultimately show ?thesis using cache_wf_clear [OF assms] by (auto simp: cache_wf_def)
qed

lemma cache_wf_notification [wf_intros]:
  "cache_wf c \<Longrightarrow> cache_wf (invalidate_notification n c)"
  by (auto simp: invalidate_notification_def intro: wf_intros split: server_notification.splits)

end
