(* ===== verification/Final_Cache_Runs.thy ===== *)
theory Final_Cache_Runs
  imports Final_Cache_Laws
begin

text \<open>
  Sequences of operations on the client's result cache: the invariant, the fencing of fetches that
  are in flight during an invalidation, and the origin of every fresh result.
\<close>

section \<open>Operations\<close>

datatype 'p cache_op =
    SetEnabled bool
  | Clear
  | Lookup final_cache_key instant
  | Insert "(final_cache_key \<times> 'p final_cache_entry) list \<Rightarrow> (final_cache_key \<times> 'p final_cache_entry) list"
      final_cache_key final_cache_generation "'p core_result" instant
  | Invalidate final_cache_result_set
  | Notify server_notification

fun cache_step ::
    "('p core_result \<Rightarrow> bytes option) \<Rightarrow> instant \<Rightarrow> 'p cache_op \<Rightarrow> 'p final_result_cache \<Rightarrow>
     'p final_result_cache" where
  "cache_step en l (SetEnabled b) c = set_enabled b c"
| "cache_step en l Clear c = cache_clear c"
| "cache_step en l (Lookup key now) c = fst (lookup_at key now c)"
| "cache_step en l (Insert order key g r receipt) c =
     fst (insert_if_current_at en l order key g r receipt c)"
| "cache_step en l (Invalidate rs) c = invalidate_result_set rs c"
| "cache_step en l (Notify n) c = invalidate_notification n c"

fun op_ok :: "'p cache_op \<Rightarrow> bool" where
  "op_ok (Insert order _ _ _ _) = permutes_entries order"
| "op_ok _ = True"

lemma cache_wf_step: "cache_wf c \<Longrightarrow> op_ok a \<Longrightarrow> cache_wf (cache_step en l a c)"
proof (cases a)
  case (Lookup key now)
  assume "cache_wf c"
  with lookup_page_at_state [OF this, of key now] Lookup cache_wf_keep [OF this] show ?thesis
    by (auto simp: lookup_at_page)
qed (auto intro: wf_intros)

interpretation cache_machine: guarded_machine cache_wf "\<lambda>a _. op_ok a" "cache_step en l" for en l
  by unfold_locales (rule cache_wf_step)

lemma admissible_ok: "admissible (\<lambda>a _. op_ok a) step as c \<longleftrightarrow> list_all op_ok as"
  by (induction as arbitrary: c) auto

lemma cache_wf_run: "cache_wf c \<Longrightarrow> list_all op_ok as \<Longrightarrow> cache_wf (fold (cache_step en l) as c)"
  using cache_machine.run_keeps [of c en l as] by (simp add: admissible_ok)

lemma cache_wf_init: "cache_wf (with_limits cap bytes)"
  by (auto simp: cache_wf_def with_limits_def clamp_def max_final_cache_capacity_def
      max_final_cache_max_bytes_def)

section \<open>Fencing\<close>

text \<open>The operations that retire what was fetched before them.\<close>

fun notified :: "server_notification \<Rightarrow> final_cache_generation_set list" where
  "notified ToolsListChanged = [GTools]"
| "notified ResourcesListChanged = [GResources, GResourceTemplates, GResource]"
| "notified PromptsListChanged = [GPrompts]"
| "notified (ResourceUpdated _) = [GResource]"
| "notified _ = []"

fun fences :: "'p cache_op \<Rightarrow> final_cache_result_set \<Rightarrow> 'p final_result_cache \<Rightarrow> bool" where
  "fences Clear rs c = True"
| "fences (SetEnabled b) rs c = (b \<noteq> enabled c)"
| "fences (Invalidate rs') rs c = (generation_set_of rs' = generation_set_of rs)"
| "fences (Notify n) rs c = (generation_set_of rs \<in> set (notified n))"
| "fences _ rs c = False"

text \<open>How an operation moves a generation: not at all, forward, or to a new epoch.\<close>

definition moves :: "final_cache_result_set \<Rightarrow> 'p final_result_cache \<Rightarrow> 'p final_result_cache \<Rightarrow> bool" where
  "moves rs c d \<longleftrightarrow>
     (epoch_exhausted d \<or> epoch c < epoch d \<or> epoch c = epoch d \<and> generation c rs < generation d rs)"

definition stays :: "final_cache_result_set \<Rightarrow> 'p final_result_cache \<Rightarrow> 'p final_result_cache \<Rightarrow> bool" where
  "stays rs c d \<longleftrightarrow>
     (epoch_exhausted d = epoch_exhausted c \<and> epoch d = epoch c \<and> generation d rs = generation c rs)"

definition advances :: "final_cache_result_set \<Rightarrow> 'p final_result_cache \<Rightarrow> 'p final_result_cache \<Rightarrow> bool" where
  "advances rs c d \<longleftrightarrow>
     (moves rs c d \<or> stays rs c d) \<and> (epoch_exhausted c \<longrightarrow> epoch_exhausted d)"

lemma moves_trans:
  "moves rs c d \<Longrightarrow> advances rs d e \<Longrightarrow> moves rs c e"
  "advances rs c d \<Longrightarrow> moves rs d e \<Longrightarrow> advances rs d e \<Longrightarrow> moves rs c e"
  "advances rs c d \<Longrightarrow> advances rs d e \<Longrightarrow> advances rs c e"
  by (auto simp: moves_def stays_def advances_def)

lemma advances_refl [simp]: "advances rs c c"
  by (simp add: advances_def stays_def)

lemma clear_moves: "moves rs c (cache_clear c)"
  by (auto simp: moves_def cache_clear_def Let_def checked_add_Some_iff split: option.splits)

lemma clear_exhausted: "epoch_exhausted c \<Longrightarrow> epoch_exhausted (cache_clear c)"
  by (auto simp: cache_clear_def Let_def split: option.splits)

lemma generation_cong: "generations d = generations c \<Longrightarrow> generation d = generation c"
  by (simp add: generation_def fun_eq_iff)

lemma invalidate_moves:
  assumes "cache_wf c"
  shows "generation_set_of rs = generation_set_of rs' \<Longrightarrow> moves rs c (invalidate_result_set rs' c)"
    and "moves rs c (invalidate_result_set rs' c) \<or> stays rs c (invalidate_result_set rs' c)"
    and "epoch_exhausted c \<Longrightarrow> epoch_exhausted (invalidate_result_set rs' c)"
proof -
  let ?d = "invalidate_result_set rs' c"
  show "generation_set_of rs = generation_set_of rs' \<Longrightarrow> moves rs c ?d"
    "moves rs c ?d \<or> stays rs c ?d" "epoch_exhausted c \<Longrightarrow> epoch_exhausted ?d"
  proof (atomize (full), cases "generation c rs' < u64_max")
    case True
    from invalidate_keep [OF assms this]
    have d: "epoch ?d = epoch c" "epoch_exhausted ?d = epoch_exhausted c"
      "generations ?d = (generations c)(generation_set_of rs' \<mapsto> Suc (generation c rs'))" by auto
    then have "generation ?d rs =
        (if generation_set_of rs = generation_set_of rs' then Suc (generation c rs') else generation c rs)"
      by (simp add: generation_def)
    moreover have "generation c rs = generation c rs'" if "generation_set_of rs = generation_set_of rs'"
      using that by (simp add: generation_def)
    ultimately show "(generation_set_of rs = generation_set_of rs' \<longrightarrow> moves rs c ?d) \<and>
        (moves rs c ?d \<or> stays rs c ?d) \<and> (epoch_exhausted c \<longrightarrow> epoch_exhausted ?d)"
      using d by (auto simp: moves_def stays_def)
  next
    case False
    then obtain s where d: "?d = (cache_clear c)\<lparr>generations := (\<lambda>_. None), stats := s\<rparr>"
      using invalidate_saturated by blast
    have "epoch_exhausted (cache_clear c) \<or> epoch c < epoch (cache_clear c)"
      by (auto simp: cache_clear_def Let_def checked_add_Some_iff split: option.splits)
    with d clear_exhausted [of c]
    show "(generation_set_of rs = generation_set_of rs' \<longrightarrow> moves rs c ?d) \<and>
        (moves rs c ?d \<or> stays rs c ?d) \<and> (epoch_exhausted c \<longrightarrow> epoch_exhausted ?d)"
      by (auto simp: moves_def)
  qed
qed


lemma invalidate_advances: "cache_wf c \<Longrightarrow> advances rs c (invalidate_result_set rs' c)"
  using invalidate_moves(2,3) [of c] by (simp add: advances_def)

lemma notification_moves:
  assumes wf: "cache_wf c"
  shows "advances rs c (invalidate_notification n c)"
    and "generation_set_of rs \<in> set (notified n) \<Longrightarrow> moves rs c (invalidate_notification n c)"
proof -
  let ?d = "invalidate_result_set Resources c"
  let ?e = "invalidate_result_set ResourceTemplates ?d"
  have w: "cache_wf ?d" "cache_wf ?e" using wf by (auto intro: wf_intros)
  note adv = invalidate_advances [OF wf] invalidate_advances [OF w(1)] invalidate_advances [OF w(2)]
  note mv = invalidate_moves(1) [OF wf] invalidate_moves(1) [OF w(1)] invalidate_moves(1) [OF w(2)]
  show "advances rs c (invalidate_notification n c)"
    using moves_trans(3) [OF moves_trans(3) [OF adv(1) adv(2)] adv(3)] adv(1)
    by (cases n) (simp_all add: invalidate_notification_def)
  assume a: "generation_set_of rs \<in> set (notified n)"
  show "moves rs c (invalidate_notification n c)"
  proof (cases n)
    case ResourcesListChanged
    with a consider "generation_set_of rs = generation_set_of Resources"
      | "generation_set_of rs = generation_set_of ResourceTemplates"
      | "generation_set_of rs = generation_set_of (Resource [])"
      by (auto simp: generation_set_of_def)
    then have "moves rs c (invalidate_result_set (Resource []) ?e)"
    proof cases
      case 1
      then show ?thesis using mv(1) adv moves_trans by blast
    next
      case 2
      then show ?thesis using mv(2) adv moves_trans by blast
    next
      case 3
      then show ?thesis using mv(3) adv moves_trans by blast
    qed
    with ResourcesListChanged show ?thesis by (simp add: invalidate_notification_def)
  qed (use a mv(1) in \<open>auto simp: invalidate_notification_def generation_set_of_def\<close>)
qed

lemma stays_begin_fetch:
  "epoch_exhausted d = epoch_exhausted c \<Longrightarrow> begin_fetch d = begin_fetch c \<Longrightarrow> stays rs c d"
  by (metis begin_fetch_def final_cache_generation.ext_inject stays_def)

lemma step_advances:
  assumes wf: "cache_wf c"
  shows "advances rs c (cache_step en l a c)"
    and "fences a rs c \<Longrightarrow> moves rs c (cache_step en l a c)"
proof -
  have "advances rs c (cache_step en l a c) \<and> (fences a rs c \<longrightarrow> moves rs c (cache_step en l a c))"
  proof (cases a)
    case (SetEnabled b)
    have "moves rs c ((cache_clear c)\<lparr>enabled := x\<rparr>)" for x
      using clear_moves [of rs c] by (simp add: moves_def generation_def)
    then show ?thesis using SetEnabled clear_exhausted [of c]
      by (auto simp: set_enabled_def Let_def advances_def stays_def generation_def)
  next
    case Clear
    then show ?thesis using clear_moves clear_exhausted by (auto simp: advances_def)
  next
    case (Lookup key now)
    from lookup_page_at_state [OF wf, of key now]
    have "stays rs c (fst (lookup_page_at key now c))"
      by (auto intro: stays_begin_fetch)
    with Lookup show ?thesis by (auto simp: advances_def lookup_at_page stays_def)
  next
    case (Insert order key g r receipt)
    then have "stays rs c (cache_step en l a c)" using wf by (auto intro: stays_begin_fetch)
    with Insert show ?thesis by (auto simp: advances_def stays_def)
  next
    case (Invalidate rs')
    then show ?thesis using invalidate_advances [OF wf] invalidate_moves(1) [OF wf] by auto
  next
    case (Notify n)
    then show ?thesis using notification_moves [OF wf] by auto
  qed
  then show "advances rs c (cache_step en l a c)" "fences a rs c \<Longrightarrow> moves rs c (cache_step en l a c)"
    by auto
qed

lemma run_advances:
  "cache_wf c \<Longrightarrow> list_all op_ok as \<Longrightarrow> advances rs c (fold (cache_step en l) as c)"
proof (induction as arbitrary: c)
  case (Cons a as)
  then have "advances rs (cache_step en l a c) (fold (cache_step en l) as (cache_step en l a c))"
    by (simp add: cache_wf_step)
  from moves_trans(3) [OF step_advances(1) [OF Cons.prems(1)] this] show ?case by simp
qed simp

lemma run_moves:
  assumes "cache_wf c" "list_all op_ok (as @ a # bs)" "fences a rs (fold (cache_step en l) as c)"
  shows "moves rs c (fold (cache_step en l) (as @ a # bs) c)"
proof -
  let ?d = "fold (cache_step en l) as c"
  let ?e = "cache_step en l a ?d"
  have wf: "cache_wf ?d" "cache_wf ?e" using assms by (simp_all add: cache_wf_run cache_wf_step)
  have "advances rs c ?d" "advances rs ?e (fold (cache_step en l) bs ?e)"
    using assms wf by (simp_all add: run_advances)
  with step_advances [OF wf(1)] assms(3) moves_trans show ?thesis by (metis fold_append fold_simps(2) comp_apply)
qed

lemma moves_refuses:
  assumes "cache_wf d" "moves rs c d"
  shows "\<not> enabled d \<or> begin_fetch c rs \<noteq> begin_fetch d rs"
  using assms by (auto simp: moves_def cache_wf_def begin_fetch_def)


section \<open>The origin of entries\<close>

definition cache_run ::
    "('p core_result \<Rightarrow> bytes option) \<Rightarrow> instant \<Rightarrow> nat \<Rightarrow> nat \<Rightarrow> 'p cache_op list \<Rightarrow> 'p final_result_cache" where
  "cache_run en l cap bytes as = fold (cache_step en l) as (with_limits cap bytes)"

fun stores ::
    "('p core_result \<Rightarrow> bytes option) \<Rightarrow> instant \<Rightarrow> 'p cache_op \<Rightarrow> final_cache_key \<Rightarrow> 'p final_result_cache \<Rightarrow> bool" where
  "stores en l (Insert order key g r receipt) k c =
     (key = k \<and> snd (insert_if_current_at en l order key g r receipt c) = Stored)"
| "stores en l _ k c = False"

lemma insert_Stored_iff:
  assumes "cache_wf c"
  shows "snd (insert_if_current_at en l order key g r receipt c) = Stored \<longleftrightarrow>
    (\<exists>e. admits en l key g r receipt c e)"
  by (rule insert_cases [OF assms, of en l key g r receipt order]) auto

lemma invalidate_entries_subset: "set (entries (invalidate_result_set rs c)) \<subseteq> set (entries c)"
  by (auto simp: invalidate_result_set_def recount_retained_bytes_def cache_clear_def Let_def
      split: option.splits)

lemma entries_step:
  assumes wf: "cache_wf c" and ok: "op_ok a" and mem: "(k, e) \<in> set (entries (cache_step en l a c))"
  shows "(\<exists>order. a = Insert order k (e_generation e) (e_result e) (e_receipt e) \<and>
            admits en l k (e_generation e) (e_result e) (e_receipt e) c e) \<or>
         (k, e) \<in> set (entries c) \<and> \<not> stores en l a k c"
proof (cases a)
  case (Lookup key now)
  with mem lookup_page_at_state [OF wf, of key now] show ?thesis by (auto simp: lookup_at_page)
next
  case (Insert order key g r receipt)
  from wf show ?thesis
  proof (cases rule: insert_cases [where encode = en and last_instant = l
        and key = key and captured = g and r = r and receipt = receipt and order = order])
    case (refused x)
    with mem Insert show ?thesis by auto
  next
    case (stored e' d s)
    have "mset (order ((key, e') # entries d)) = mset ((key, e') # entries d)"
      using ok Insert by (simp add: permutes_entries_def)
    from mset_eq_setD [OF this] mem Insert stored(3)
    have "(k, e) \<in> insert (key, e') (set (entries d))" by simp
    moreover have "set (entries d) \<subseteq> {p \<in> set (entries c). fst p \<noteq> key}"
      using stored(2) by (auto simp: evicted_to_def)
    ultimately show ?thesis using stored(1) Insert by (auto simp: admits_def)
  qed
next
  case (Invalidate rs)
  with mem invalidate_entries_subset [of rs c] show ?thesis by auto
next
  case (Notify n)
  have "set (entries (invalidate_notification n c)) \<subseteq> set (entries c)"
    by (cases n, simp_all add: invalidate_notification_def invalidate_entries_subset)
      (meson invalidate_entries_subset subset_trans)
  with Notify mem show ?thesis by auto
qed (use mem in \<open>auto simp: set_enabled_def cache_clear_def Let_def split: option.splits if_splits\<close>)

lemma cache_run_snoc [simp]: "cache_run en l cap bytes (as @ [a]) = cache_step en l a (cache_run en l cap bytes as)"
  by (simp add: cache_run_def)

lemma cache_wf_cache_run: "list_all op_ok as \<Longrightarrow> cache_wf (cache_run en l cap bytes as)"
  by (simp add: cache_run_def cache_wf_run cache_wf_init)

lemma snoc_split: "ys @ [a] = us @ b # vs \<Longrightarrow> (vs = [] \<and> us = ys \<and> b = a) \<or> (\<exists>ws. vs = ws @ [a] \<and> ys = us @ b # ws)"
  by (cases vs rule: rev_cases) auto

lemma entry_origin:
  assumes "list_all op_ok as" "(k, e) \<in> set (entries (cache_run en l cap bytes as))"
  shows "\<exists>xs order ys. as = xs @ Insert order k (e_generation e) (e_result e) (e_receipt e) # ys \<and>
    admits en l k (e_generation e) (e_result e) (e_receipt e) (cache_run en l cap bytes xs) e \<and>
    (\<forall>us a vs. ys = us @ a # vs \<longrightarrow> \<not> stores en l a k
      (cache_run en l cap bytes (xs @ Insert order k (e_generation e) (e_result e) (e_receipt e) # us)))"
  using assms
proof (induction as rule: rev_induct)
  case Nil
  then show ?case by (simp add: cache_run_def with_limits_def)
next
  case (snoc a as)
  let ?c = "cache_run en l cap bytes as"
  have "cache_wf ?c" using snoc.prems by (simp add: cache_wf_cache_run)
  from entries_step [OF this, of a k e en l] snoc.prems consider
      order where "a = Insert order k (e_generation e) (e_result e) (e_receipt e)"
        "admits en l k (e_generation e) (e_result e) (e_receipt e) ?c e"
    | "(k, e) \<in> set (entries ?c)" "\<not> stores en l a k ?c" by auto
  then show ?case
  proof cases
    case 1
    then show ?thesis by (intro exI [of _ as] exI [of _ order] exI [of _ "[]"]) simp
  next
    case 2
    with snoc obtain xs order ys where
      as: "as = xs @ Insert order k (e_generation e) (e_result e) (e_receipt e) # ys"
      and ad: "admits en l k (e_generation e) (e_result e) (e_receipt e) (cache_run en l cap bytes xs) e"
      and ns: "\<forall>us a vs. ys = us @ a # vs \<longrightarrow> \<not> stores en l a k
        (cache_run en l cap bytes (xs @ Insert order k (e_generation e) (e_result e) (e_receipt e) # us))"
      by auto
    have "\<not> stores en l b k
        (cache_run en l cap bytes (xs @ Insert order k (e_generation e) (e_result e) (e_receipt e) # us))"
      if "ys @ [a] = us @ b # vs" for us b vs
      using snoc_split [OF that] ns 2(2) as by auto
    with as ad show ?thesis by (intro exI [of _ xs] exI [of _ order] exI [of _ "ys @ [a]"]) auto
  qed
qed


section \<open>Properties\<close>

text \<open>C22: Every sequence of operations on a new cache keeps its invariant, whatever the iteration order
  of the hash map: one entry per key, entry count and bytes within the configured and the absolute
  limits, exact byte accounting, every retained entry of the current generation of its result set,
  and nothing retained while the cache is disabled.\<close>

theorem final_cache_run_wf:
  assumes "list_all op_ok as"
  shows "cache_wf (cache_run encode last_instant cap bytes as)"
  using assms by (rule cache_wf_cache_run)

text \<open>The eviction loop of an insertion ends with room for the new entry: it never runs out of
  entries, evicts only entries received no later than the ones it keeps, and evicts no more than
  needed (without the last eviction there would be no room).\<close>

lemma eviction_loop_makes_room:
  assumes "cache_wf c" "encoded \<le> max_bytes c"
  shows "\<exists>c'. make_room encoded c = (c', True) \<and> evicted_to encoded c c'"
  using assms by (rule make_room_evicts)

text \<open>C36: A fetched result is stored exactly when the cache is enabled, the captured generation is
  current, the result has cache hints with a positive lifetime whose expiry is representable, and
  its encoding fits; any other outcome leaves the cache unchanged.  A stored result is served for
  its key before its expiry and is stale from then on.\<close>

theorem insertion_exact:
  assumes wf: "cache_wf c" and ord: "permutes_entries order"
    and ins: "insert_if_current_at encode last_instant order key captured r receipt c = (c', outcome)"
  shows "(outcome = Stored \<longleftrightarrow> (\<exists>e. admits encode last_instant key captured r receipt c e)) \<and>
    (outcome \<noteq> Stored \<longrightarrow> c' = c) \<and>
    (\<forall>e now. admits encode last_instant key captured r receipt c e \<longrightarrow>
       snd (lookup_at key now c') = (if now < e_expires_at e then Fresh r else Miss Stale))"
  using wf
proof (cases rule: insert_cases [where encode = encode and last_instant = last_instant
      and key = key and captured = captured and r = r and receipt = receipt and order = order])
  case (refused x)
  with ins show ?thesis by auto
next
  case (stored e d s)
  have wf': "cache_wf c'" using cache_wf_insert [OF wf ord] ins by (metis fst_conv)
  have m: "mset (order ((key, e) # entries d)) = mset ((key, e) # entries d)"
    using ord by (simp add: permutes_entries_def)
  from mset_eq_setD [OF m] have "(key, e) \<in> set (entries c')" using ins stored(3) by auto
  then have m': "map_of (entries c') key = Some e" using wf' by (simp add: cache_wf_def)
  have "enabled d" "e_result e = r" using stored(1,2) by (auto simp: admits_def evicted_to_def)
  with ins stored(3) have "enabled c'" "outcome = Stored" by auto
  with m' \<open>e_result e = r\<close> have "snd (lookup_at key now c') =
      (if now < e_expires_at e then Fresh r else Miss Stale)" for now
    by (simp add: lookup_at_outcome [OF wf'])
  then show ?thesis using \<open>outcome = Stored\<close> stored(1) admits_unique [OF stored(1)] by blast
qed

text \<open>C4: An invalidation wins over every fetch in flight: a result whose generation was captured
  before its result set was invalidated, the cache was cleared or its enabled state changed is
  refused, whatever other operations happen before and after, and the cache is unchanged.\<close>

theorem invalidation_fences_fetch:
  assumes "cache_wf c" "list_all op_ok (as @ a # bs)"
    and "fences a (result_set key) (fold (cache_step encode last_instant) as c)"
    and "c' = fold (cache_step encode last_instant) (as @ a # bs) c"
  shows "insert_if_current_at encode last_instant order key (begin_fetch c (result_set key)) r receipt c'
    = (c', InvalidatedDuringFetch)"
proof -
  have "cache_wf c'" using cache_wf_run [OF assms(1,2)] assms(4) by simp
  from moves_refuses [OF this] run_moves [OF assms(1-3)] assms(4)
  show ?thesis by (auto simp: insert_if_current_at_def)
qed

text \<open>C17: A fresh result was stored for exactly the requested key, partition included, from a fetch of
  the current generation; it has not outlived the lifetime its sender gave it, and since then no
  operation invalidated its result set or stored another result for the key.\<close>

theorem fresh_result_was_stored:
  assumes ok: "list_all op_ok as"
    and fresh: "snd (lookup_at key now (cache_run encode last_instant cap bytes as)) = Fresh r"
  shows "\<exists>xs order g receipt ys ttl scope ms.
    as = xs @ Insert order key g r receipt # ys \<and>
    g = begin_fetch (cache_run encode last_instant cap bytes xs) (result_set key) \<and>
    final_cache_hints r = Some (ttl, scope) \<and> ttl_try_as_millis ttl = Inr ms \<and>
    now < receipt + ms * 1000000 \<and>
    (\<forall>us a vs. ys = us @ a # vs \<longrightarrow>
       \<not> fences a (result_set key)
          (cache_run encode last_instant cap bytes (xs @ Insert order key g r receipt # us)) \<and>
       \<not> stores encode last_instant a key
          (cache_run encode last_instant cap bytes (xs @ Insert order key g r receipt # us)))"
proof -
  let ?run = "cache_run encode last_instant cap bytes"
  have wf: "cache_wf (?run as)" using ok by (rule cache_wf_cache_run)
  from fresh obtain e where e: "enabled (?run as)" "map_of (entries (?run as)) key = Some e"
      "now < e_expires_at e" "e_result e = r"
    by (auto simp: lookup_at_outcome [OF wf] split: if_splits option.splits)
  then have mem: "(key, e) \<in> set (entries (?run as))" by (blast dest: map_of_SomeD)
  from entry_origin [OF ok mem] obtain xs order ys where
    as: "as = xs @ Insert order key (e_generation e) r (e_receipt e) # ys"
    and ad: "admits encode last_instant key (e_generation e) r (e_receipt e) (?run xs) e"
    and ns: "\<forall>us a vs. ys = us @ a # vs \<longrightarrow> \<not> stores encode last_instant a key
        (?run (xs @ Insert order key (e_generation e) r (e_receipt e) # us))"
    using e(4) by blast
  from ad obtain ttl ms where t: "e_generation e = begin_fetch (?run xs) (result_set key)"
      "final_cache_hints r = Some (ttl, e_scope e)" "ttl_try_as_millis ttl = Inr ms"
      "e_expires_at e = e_receipt e + ms * 1000000"
    by (auto simp: admits_def)
  have gen: "e_generation e = begin_fetch (?run as) (result_set key)"
    using wf mem by (auto simp: cache_wf_def)
  have "\<not> fences a (result_set key) (?run (xs @ Insert order key (e_generation e) r (e_receipt e) # us))"
    if ys: "ys = us @ a # vs" for us a vs
  proof
    assume f: "fences a (result_set key)
      (?run (xs @ Insert order key (e_generation e) r (e_receipt e) # us))"
    have "cache_wf (?run xs)" using ok as by (auto intro: cache_wf_cache_run)
    from run_moves [OF this, of "Insert order key (e_generation e) r (e_receipt e) # us" a vs
        "result_set key" encode last_instant] f ok as ys
    have "moves (result_set key) (?run xs) (?run as)" by (simp add: cache_run_def)
    from moves_refuses [OF wf this] gen t(1) e(1) show False by simp
  qed
  with ns have "\<forall>us a vs. ys = us @ a # vs \<longrightarrow>
      \<not> fences a (result_set key) (?run (xs @ Insert order key (e_generation e) r (e_receipt e) # us)) \<and>
      \<not> stores encode last_instant a key
          (?run (xs @ Insert order key (e_generation e) r (e_receipt e) # us))" by simp
  with as t e(3) show ?thesis
    by (intro exI [of _ xs] exI [of _ order] exI [of _ "e_generation e"] exI [of _ "e_receipt e"]
        exI [of _ ys] exI [of _ ttl] exI [of _ "e_scope e"] exI [of _ ms]) simp
qed


section \<open>Instances\<close>

definition sample_key :: final_cache_key where
  "sample_key =
     \<lparr>endpoint_configuration = ''stdio'', protocol_version = ''2026-07-28'',
      normalized_capabilities = ''{}'', extension_settings = ''{}'', request_method = ''tools/list'',
      semantic_projection = ''{}'', cursor = None, policy_revision = 1, extension_revision = 1,
      representation_policy_revision = 1, limits_policy_revision = 1, partition_key = ''a'',
      result_set = Tools\<rparr>"

definition sample_result :: "unit core_result" where
  "sample_result = FinalResult (ToolsList ''73'' Public ())"

definition sample_encode :: "unit core_result \<Rightarrow> bytes option" where
  "sample_encode r = Some ''{}''"

definition sample_insert :: "unit cache_op" where
  "sample_insert =
     Insert rev sample_key \<lparr>g_epoch = 0, g_revision = 0, g_result_set = GTools\<rparr> sample_result 5"

lemma sample_ttl: "ttl_try_as_millis ''73'' = Inr 73"
  by (simp add: ttl_try_as_millis_def cache_ttl_runtime_millis_def split_mantissa_def
      split_fraction_def shift_digits_def digits_to_u64_def checked_add_def u64_max_def
      parse_signed_def parse_u64_def is_nonzero_digit_def i128_max_def number_eval)

lemma sample_ok: "op_ok sample_insert" "permutes_entries rev"
  by (simp_all add: sample_insert_def permutes_entries_def)

definition sample_entry :: "unit final_cache_entry" where
  "sample_entry =
     \<lparr>e_result = sample_result, e_scope = Public,
      e_generation = \<lparr>g_epoch = 0, g_revision = 0, g_result_set = GTools\<rparr>,
      e_receipt = 5, e_expires_at = 73000005, e_encoded_bytes = 67\<rparr>"

lemma sample_admits:
  "admits sample_encode 100000000 sample_key \<lparr>g_epoch = 0, g_revision = 0, g_result_set = GTools\<rparr>
     sample_result 5 (with_limits 2 1000) sample_entry"
  by (simp add: admits_def sample_entry_def sample_ttl sample_result_def sample_encode_def
      sample_key_def final_cache_hints_def with_limits_def begin_fetch_def generation_def
      generation_set_of_def estimated_bytes_def result_set_bytes_def sat_add_def u64_max_def
      clamp_def max_final_cache_max_bytes_def)

lemma sample_inserted:
  "insert_if_current_at sample_encode 100000000 rev sample_key
     \<lparr>g_epoch = 0, g_revision = 0, g_result_set = GTools\<rparr> sample_result 5 (with_limits 2 1000) =
   ((with_limits 2 1000)\<lparr>entries := [(sample_key, sample_entry)], retained_bytes := 67,
      stats := \<lparr>hits = 0, misses = 0, stale = 0, fills = 1, invalidations = 0, evictions = 0\<rparr>\<rparr>, Stored)"
  by (simp add: insert_if_current_at_def sample_entry_def sample_ttl sample_result_def
      sample_encode_def sample_key_def final_cache_hints_def with_limits_def begin_fetch_def
      generation_def generation_set_of_def estimated_bytes_def result_set_bytes_def sat_add_def
      u64_max_def clamp_def max_final_cache_max_bytes_def max_final_cache_capacity_def
      instant_checked_add_def remove_entry_def make_room.simps)

theorem final_cache_run_wf_witness:
  "cache_wf (cache_run sample_encode 100000000 2 1000 [sample_insert, Notify ToolsListChanged])"
  by (rule final_cache_run_wf) (simp add: sample_ok)

theorem insertion_exact_witness:
  "snd (lookup_at sample_key 73000004
     (fst (insert_if_current_at sample_encode 100000000 rev sample_key
        \<lparr>g_epoch = 0, g_revision = 0, g_result_set = GTools\<rparr> sample_result 5 (with_limits 2 1000))))
   = Fresh sample_result"
  using insertion_exact [OF cache_wf_init sample_ok(2) sample_inserted] sample_admits
  by (auto simp: sample_inserted sample_entry_def)

theorem invalidation_fences_fetch_witness:
  "snd (insert_if_current_at sample_encode 100000000 rev sample_key
     (begin_fetch (with_limits 2 1000 :: unit final_result_cache) Tools) sample_result 5
     (cache_step sample_encode 100000000 (Notify ToolsListChanged) (with_limits 2 1000)))
   = InvalidatedDuringFetch"
  using invalidation_fences_fetch [of "with_limits 2 1000" "[]" "Notify ToolsListChanged" "[]"
      sample_key sample_encode 100000000]
  by (simp add: cache_wf_init sample_key_def generation_set_of_def)

theorem fresh_result_was_stored_witness:
  "\<exists>xs order g receipt ys. [sample_insert] = xs @ Insert order sample_key g sample_result receipt # ys \<and>
     73000004 < receipt + 73 * (1000000 :: nat)"
proof -
  have en: "enabled (with_limits 2 1000)" by (simp add: with_limits_def)
  have "cache_wf (fst (insert_if_current_at sample_encode 100000000 rev sample_key
      \<lparr>g_epoch = 0, g_revision = 0, g_result_set = GTools\<rparr> sample_result 5 (with_limits 2 1000)))"
    by (rule cache_wf_insert [OF cache_wf_init sample_ok(2)])
  then have f: "snd (lookup_at sample_key 73000004
      (cache_run sample_encode 100000000 2 1000 [sample_insert])) = Fresh sample_result"
    using en
    by (simp add: cache_run_def sample_insert_def lookup_at_outcome sample_inserted sample_entry_def)
  have ok: "list_all op_ok [sample_insert]" using sample_ok(1) by simp
  from fresh_result_was_stored [OF ok f] obtain xs order g receipt ys ttl scope ms
    where w: "[sample_insert] = xs @ Insert order sample_key g sample_result receipt # ys"
      "final_cache_hints sample_result = Some (ttl, scope)" "ttl_try_as_millis ttl = Inr ms"
      "73000004 < receipt + ms * 1000000"
    by (elim exE conjE) (rule that)
  then have "ttl = ''73''" by (simp add: sample_result_def final_cache_hints_def)
  with w(3) have "ms = 73" by (simp add: sample_ttl)
  with w show ?thesis by blast
qed

end
