(* ===== verification/Rate_Limiting.thy ===== *)
theory Rate_Limiting
  imports Prelude "HOL-Library.Product_Lexorder" "HOL-Library.List_Lexorder" "HOL-Library.Char_ord"
begin

text \<open>
  The sliding-window rate limiter, the bounded store of client partitions and the middleware built
  on them (fastmcp-server/src/rate_limiting.rs).  Instants count nanoseconds from the least instant
  the clock can represent.  Every call of \<open>Instant::now()\<close> is an argument; the middleware takes all
  its readings while it holds the lock of the partition store.  SHA-256 is a parameter.  The
  recency index (a \<open>BTreeSet\<close>) is the ascending list of its elements.  The token bucket works on
  64-bit floating-point numbers and is not modelled.
\<close>

section \<open>The sliding window\<close>

datatype rate_limit_admission = Allowed | Rejected nat

definition is_allowed_admission :: "rate_limit_admission \<Rightarrow> bool" where
  "is_allowed_admission a \<longleftrightarrow> a = Allowed"

record sliding_window =
  max_requests :: nat
  window_seconds :: nat
  requests :: "instant list"

definition sliding_window_new :: "nat \<Rightarrow> nat \<Rightarrow> sliding_window" where
  "sliding_window_new m w = \<lparr>max_requests = m, window_seconds = w, requests = []\<rparr>"

definition from_secs :: "nat \<Rightarrow> duration" where
  "from_secs s = s * 1000000000"

definition as_millis :: "duration \<Rightarrow> nat" where
  "as_millis d = d div 1000000"

definition prune :: "instant option \<Rightarrow> instant list \<Rightarrow> instant list" where
  "prune cutoff rs =
     (case cutoff of Some c \<Rightarrow> dropWhile (\<lambda>oldest. oldest < c) rs | None \<Rightarrow> rs)"

definition retry_after :: "instant \<Rightarrow> nat \<Rightarrow> instant list \<Rightarrow> nat" where
  "retry_after now secs rs =
     (case rs of
        [] \<Rightarrow> u64_max
      | oldest # _ \<Rightarrow>
          let elapsed = now - oldest; window = from_secs secs
          in if elapsed \<ge> window then 1
             else sat_add (min (as_millis (window - elapsed)) u64_max) 1)"

definition is_allowed_with_retry ::
    "instant \<Rightarrow> sliding_window \<Rightarrow> rate_limit_admission \<times> sliding_window" where
  "is_allowed_with_retry now w =
     (if window_seconds w = 0 then (Rejected u64_max, w)
      else
        let rs = prune (checked_sub now (from_secs (window_seconds w))) (requests w)
        in if length rs < max_requests w then (Allowed, w\<lparr>requests := rs @ [now]\<rparr>)
           else (Rejected (retry_after now (window_seconds w) rs), w\<lparr>requests := rs\<rparr>))"

definition current_requests :: "instant \<Rightarrow> sliding_window \<Rightarrow> nat \<times> sliding_window" where
  "current_requests now w =
     (if window_seconds w = 0 then (0, w)
      else
        let rs = prune (checked_sub now (from_secs (window_seconds w))) (requests w)
        in (length rs, w\<lparr>requests := rs\<rparr>))"

section \<open>The partition store\<close>

type_synonym digest = bytes

definition max_client_id_bytes :: nat where
  "max_client_id_bytes = 4096"

definition max_client_partitions :: nat where
  "max_client_partitions = 4096"

definition max_named_client_partitions :: nat where
  "max_named_client_partitions = max_client_partitions - 1"

definition client_partition_idle_ttl :: duration where
  "client_partition_idle_ttl = from_secs 60"

record 'l client_partition =
  limiter :: 'l
  last_seen :: instant

record 'l partition_store =
  partitions :: "(digest \<times> 'l client_partition) list"
  recency :: "(instant \<times> digest) list"

definition store_new :: "'l partition_store" where
  "store_new = \<lparr>partitions = [], recency = []\<rparr>"

text \<open>
  An operation on a limiter may change it behind its lock; it returns its result and the limiter
  after it.
\<close>

definition use_existing_at ::
    "digest \<Rightarrow> instant \<Rightarrow> ('l \<Rightarrow> 'r \<times> 'l) \<Rightarrow> 'l partition_store \<Rightarrow> 'r option \<times> 'l partition_store" where
  "use_existing_at key now operation st =
     (case map_of (partitions st) key of
        None \<Rightarrow> (None, st)
      | Some entry \<Rightarrow>
          let old_last_seen = last_seen entry;
              (result, l) = operation (limiter entry);
              new_last_seen = max now old_last_seen
          in (Some result,
              \<lparr>partitions = AList.update key \<lparr>limiter = l, last_seen = new_last_seen\<rparr> (partitions st),
               recency = insort_insert (new_last_seen, key) (removeAll (old_last_seen, key) (recency st))\<rparr>))"

definition insert_at :: "digest \<Rightarrow> 'l \<Rightarrow> instant \<Rightarrow> 'l partition_store \<Rightarrow> 'l partition_store" where
  "insert_at key l seen st =
     \<lparr>partitions = AList.update key \<lparr>limiter = l, last_seen = seen\<rparr> (partitions st),
      recency = insort_insert (seen, key) (recency st)\<rparr>"

text \<open>The loop of \<open>reclaim_oldest_if\<close>; the \<open>i\<close>-th probe of a limiter has its own clock reading.\<close>

fun reclaim_scan ::
    "instant \<Rightarrow> duration \<Rightarrow> (nat \<Rightarrow> 'l \<Rightarrow> bool \<times> 'l) \<Rightarrow> nat \<Rightarrow> (instant \<times> digest) list \<Rightarrow>
     (digest \<times> 'l client_partition) list \<Rightarrow>
     (instant \<times> digest) option \<times> (digest \<times> 'l client_partition) list" where
  "reclaim_scan now idle_ttl is_reset i [] ps = (None, ps)"
| "reclaim_scan now idle_ttl is_reset i ((seen, key) # rest) ps =
     (case checked_sub now seen of
        None \<Rightarrow> (None, ps)
      | Some idle_for \<Rightarrow>
          if idle_for < idle_ttl then (None, ps)
          else case map_of ps key of
              None \<Rightarrow> reclaim_scan now idle_ttl is_reset i rest ps
            | Some entry \<Rightarrow>
                let (reset, l) = is_reset i (limiter entry);
                    ps = AList.update key (entry\<lparr>limiter := l\<rparr>) ps
                in if reset then (Some (seen, key), ps)
                   else reclaim_scan now idle_ttl is_reset (Suc i) rest ps)"

definition reclaim_oldest_if ::
    "instant \<Rightarrow> duration \<Rightarrow> (nat \<Rightarrow> 'l \<Rightarrow> bool \<times> 'l) \<Rightarrow> 'l partition_store \<Rightarrow> bool \<times> 'l partition_store" where
  "reclaim_oldest_if now idle_ttl is_reset st =
     (case reclaim_scan now idle_ttl is_reset 0 (recency st) (partitions st) of
        (None, ps) \<Rightarrow> (False, st\<lparr>partitions := ps\<rparr>)
      | (Some (seen, key), ps) \<Rightarrow>
          (True, \<lparr>partitions = AList.delete key ps, recency = removeAll (seen, key) (recency st)\<rparr>))"

section \<open>Partition keys\<close>

definition default_client_id :: bytes where
  "default_client_id = ''fastmcp-default-rate-limit-partition''"

definition rate_limit_method_partition_domain :: bytes where
  "rate_limit_method_partition_domain = ''fastmcp-rate-limit-method-partition-v1'' @ [CHR 0x00]"

definition max_rate_limit_method_bytes :: nat where
  "max_rate_limit_method_bytes = 512"

definition sha256_digest_bytes :: nat where
  "sha256_digest_bytes = 32"

definition max_rate_limit_partition_input_bytes :: nat where
  "max_rate_limit_partition_input_bytes =
     length rate_limit_method_partition_domain + sha256_digest_bytes + 8 + max_rate_limit_method_bytes"

text \<open>\<open>sha256_bounded\<close>, with \<open>None\<close> for an input above the limit.\<close>

definition sha256_bounded :: "(bytes \<Rightarrow> digest) \<Rightarrow> bytes \<Rightarrow> nat \<Rightarrow> digest option" where
  "sha256_bounded sha input max_input_bytes =
     (if length input > max_input_bytes then None else Some (sha input))"

definition to_be_bytes :: "nat \<Rightarrow> bytes" where
  "to_be_bytes n = map (\<lambda>i. char_of (n div 256 ^ (7 - i) mod 256)) [0..<8]"

definition client_partition_key :: "(bytes \<Rightarrow> digest) \<Rightarrow> bytes option \<Rightarrow> digest option" where
  "client_partition_key sha extracted =
     (case extracted of
        Some i \<Rightarrow> sha256_bounded sha i max_client_id_bytes
      | None \<Rightarrow> sha256_bounded sha default_client_id max_client_id_bytes)"

definition partition_input :: "digest \<Rightarrow> bytes \<Rightarrow> bytes" where
  "partition_input client_partition meth =
     rate_limit_method_partition_domain @ client_partition @ to_be_bytes (length meth) @ meth"

definition rate_limit_method_partition ::
    "(bytes \<Rightarrow> digest) \<Rightarrow> digest \<Rightarrow> bytes \<Rightarrow> digest option" where
  "rate_limit_method_partition sha client_partition meth =
     (if length meth > max_rate_limit_method_bytes then None
      else sha256_bounded sha (partition_input client_partition meth)
             max_rate_limit_partition_input_bytes)"

definition request_partition_key ::
    "(bytes \<Rightarrow> digest) \<Rightarrow> bytes option \<Rightarrow> bytes \<Rightarrow> digest option" where
  "request_partition_key sha extracted meth =
     Option.bind (client_partition_key sha extracted)
       (\<lambda>client. rate_limit_method_partition sha client meth)"

section \<open>The middleware\<close>

text \<open>The clock readings of one request, in the order in which the code takes them.\<close>

record clock_readings =
  t_existing :: instant
  t_reclaim :: instant
  t_probe :: "nat \<Rightarrow> instant"
  t_limiter :: instant
  t_insert :: instant

record sliding_middleware =
  sw_max_requests :: nat
  sw_window_seconds :: nat
  sw_limiters :: "sliding_window partition_store"
  sw_partition_idle_ttl :: duration
  sw_overflow_limiter :: sliding_window

definition middleware_new :: "nat \<Rightarrow> nat \<Rightarrow> sliding_middleware" where
  "middleware_new m w =
     \<lparr>sw_max_requests = m, sw_window_seconds = w, sw_limiters = store_new,
      sw_partition_idle_ttl = client_partition_idle_ttl,
      sw_overflow_limiter = sliding_window_new m w\<rparr>"

definition per_minute :: "nat \<Rightarrow> nat \<Rightarrow> sliding_middleware" where
  "per_minute m window_minutes =
     middleware_new m (if window_minutes * 60 \<le> u64_max then window_minutes * 60 else 0)"

definition is_reset_probe ::
    "clock_readings \<Rightarrow> nat \<Rightarrow> sliding_window \<Rightarrow> bool \<times> sliding_window" where
  "is_reset_probe t i l = (case current_requests (t_probe t i) l of (n, l) \<Rightarrow> (n = 0, l))"

definition is_request_allowed_with_retry ::
    "clock_readings \<Rightarrow> digest \<Rightarrow> sliding_middleware \<Rightarrow> rate_limit_admission \<times> sliding_middleware" where
  "is_request_allowed_with_retry t key mw =
     (case use_existing_at key (t_existing t) (is_allowed_with_retry (t_limiter t)) (sw_limiters mw) of
        (Some admission, st) \<Rightarrow> (admission, mw\<lparr>sw_limiters := st\<rparr>)
      | (None, st) \<Rightarrow>
          let (room, st) =
                (if length (partitions st) \<ge> max_named_client_partitions
                 then reclaim_oldest_if (t_reclaim t) (sw_partition_idle_ttl mw) (is_reset_probe t) st
                 else (True, st))
          in if \<not> room then
               let (admission, l) = is_allowed_with_retry (t_limiter t) (sw_overflow_limiter mw)
               in (admission, mw\<lparr>sw_limiters := st, sw_overflow_limiter := l\<rparr>)
             else
               let (admission, l) =
                     is_allowed_with_retry (t_limiter t)
                       (sliding_window_new (sw_max_requests mw) (sw_window_seconds mw))
               in (admission, mw\<lparr>sw_limiters := insert_at key l (t_insert t) st\<rparr>))"

datatype middleware_outcome = Continue | Cancelled | LimitExceeded | RetryAfter nat

definition on_request ::
    "(bytes \<Rightarrow> digest) \<Rightarrow> bool \<Rightarrow> bool \<Rightarrow> clock_readings \<Rightarrow> bytes option \<Rightarrow> bytes \<Rightarrow>
     sliding_middleware \<Rightarrow> middleware_outcome \<times> sliding_middleware" where
  "on_request sha live_before live_after t extracted meth mw =
     (if \<not> live_before then (Cancelled, mw)
      else if sw_max_requests mw = 0 \<or> sw_window_seconds mw = 0 then (LimitExceeded, mw)
      else case request_partition_key sha extracted meth of
          None \<Rightarrow> (LimitExceeded, mw)
        | Some key \<Rightarrow>
            (case is_request_allowed_with_retry t key mw of
               (admission, mw) \<Rightarrow>
                 if \<not> live_after then (Cancelled, mw)
                 else case admission of
                     Allowed \<Rightarrow> (Continue, mw)
                   | Rejected ms \<Rightarrow> (RetryAfter ms, mw)))"

end
