(* ===== verification/Rate_Limiting_Laws.thy ===== *)
theory Rate_Limiting_Laws
  imports Rate_Limiting
begin

text \<open>
  The laws of the sliding-window rate limiter, of the partition store and of the middleware: the
  limiter is the exact window count, the recency index is exact, and the reclamation of partitions
  never resets a limit.
\<close>

section \<open>One window\<close>

definition in_window :: "duration \<Rightarrow> instant \<Rightarrow> instant \<Rightarrow> bool" where
  "in_window W now s \<longleftrightarrow> now \<le> s + W"

text \<open>
  The queue \<open>rs\<close> of a limiter represents the admissions \<open>h\<close> made so far: what it has dropped lies
  before the window of every reading from \<open>T\<close> on.
\<close>

definition tracks :: "duration \<Rightarrow> instant \<Rightarrow> instant list \<Rightarrow> instant list \<Rightarrow> bool" where
  "tracks W T h rs \<longleftrightarrow>
     sorted h \<and> (\<forall>s \<in> set h. s \<le> T) \<and> (\<exists>d. h = d @ rs \<and> (\<forall>s \<in> set d. \<not> in_window W T s))"

definition paced :: "nat \<Rightarrow> duration \<Rightarrow> instant list \<Rightarrow> bool" where
  "paced m W h \<longleftrightarrow> (\<forall>t. length (filter (\<lambda>s. t \<le> s \<and> s \<le> t + W) h) \<le> m)"

lemma tracks_Nil [simp]: "tracks W T [] []"
  by (simp add: tracks_def)

lemma in_window_mono: "in_window W now s \<Longrightarrow> T \<le> now \<Longrightarrow> in_window W T s"
  by (simp add: in_window_def)

lemma tracks_mono: "tracks W T h rs \<Longrightarrow> T \<le> T' \<Longrightarrow> tracks W T' h rs"
  unfolding tracks_def by (auto dest: in_window_mono intro: le_trans)

lemma dropWhile_sorted:
  "sorted rs \<Longrightarrow> dropWhile (\<lambda>s. s < c) rs = filter (\<lambda>s. \<not> s < c) (rs :: nat list)"
proof (induction rs)
  case (Cons s rs)
  show ?case
  proof (cases "s < c")
    case False
    then have "filter (\<lambda>s. \<not> s < c) rs = rs" using Cons.prems by (fastforce simp: filter_id_conv)
    with False show ?thesis by simp
  qed (use Cons in simp)
qed simp

lemma prune_window:
  assumes "sorted rs"
  shows "prune (checked_sub now W) rs = filter (in_window W now) rs"
proof (cases "W \<le> now")
  case True
  then have "(\<lambda>s. \<not> s < now - W) = in_window W now" by (auto simp: in_window_def fun_eq_iff)
  with True assms show ?thesis by (simp add: prune_def checked_sub_def dropWhile_sorted)
next
  case False
  then have "filter (in_window W now) rs = rs" by (auto simp: filter_id_conv in_window_def)
  with False show ?thesis by (simp add: prune_def checked_sub_def)
qed

lemma tracks_prune:
  assumes "tracks W T h rs" "T \<le> now"
  shows "prune (checked_sub now W) rs = filter (in_window W now) h"
    and "tracks W now h (filter (in_window W now) h)"
proof -
  from assms(1) obtain d where d: "sorted h" "h = d @ rs" "\<forall>s \<in> set d. \<not> in_window W T s"
    "\<forall>s \<in> set h. s \<le> T" by (auto simp: tracks_def)
  then have "filter (in_window W now) d = []"
    using in_window_mono [OF _ assms(2)] by (auto simp: filter_empty_conv)
  moreover have "sorted rs" using d(1,2) by (simp add: sorted_append)
  ultimately show "prune (checked_sub now W) rs = filter (in_window W now) h"
    by (simp add: prune_window d(2))
  have "h = filter (\<lambda>s. \<not> in_window W now s) h @ filter (in_window W now) h"
    using d(1)
  proof (induction h)
    case (Cons s h)
    show ?case
    proof (cases "in_window W now s")
      case True
      then have "\<forall>r \<in> set h. in_window W now r" using Cons.prems by (fastforce simp: in_window_def)
      with True show ?thesis by (simp add: filter_id_conv filter_empty_conv)
    qed (use Cons in simp)
  qed simp
  then show "tracks W now h (filter (in_window W now) h)"
    unfolding tracks_def using d(1,4) assms(2)
    by (intro conjI exI [of _ "filter (\<lambda>s. \<not> in_window W now s) h"]) auto
qed

lemma tracks_snoc: "tracks W now h rs \<Longrightarrow> tracks W now (h @ [now]) (rs @ [now])"
  by (auto simp: tracks_def sorted_append)

text \<open>A limiter with its parameters, tracking the admissions \<open>h\<close>.\<close>

definition limits_to :: "nat \<Rightarrow> nat \<Rightarrow> instant \<Rightarrow> instant list \<Rightarrow> sliding_window \<Rightarrow> bool" where
  "limits_to m secs T h w \<longleftrightarrow>
     max_requests w = m \<and> window_seconds w = secs \<and> tracks (from_secs secs) T h (requests w)"

definition recent :: "nat \<Rightarrow> instant \<Rightarrow> instant list \<Rightarrow> nat" where
  "recent secs now h = length (filter (in_window (from_secs secs) now) h)"

lemma is_allowed_window:
  assumes "limits_to m secs T h w" "T \<le> now" "0 < secs"
  shows "fst (is_allowed_with_retry now w) = Allowed \<longleftrightarrow> recent secs now h < m"
    and "limits_to m secs now (if recent secs now h < m then h @ [now] else h)
      (snd (is_allowed_with_retry now w))"
proof -
  have l: "max_requests w = m" "window_seconds w = secs" "tracks (from_secs secs) T h (requests w)"
    using assms(1) by (simp_all add: limits_to_def)
  note p = tracks_prune [OF l(3) assms(2)]
  show "fst (is_allowed_with_retry now w) = Allowed \<longleftrightarrow> recent secs now h < m"
    using assms(3) l(1,2) p(1) by (simp add: is_allowed_with_retry_def recent_def Let_def)
  show "limits_to m secs now (if recent secs now h < m then h @ [now] else h)
      (snd (is_allowed_with_retry now w))"
    using assms(3) l(1,2) p tracks_snoc [OF p(2)]
    by (simp add: is_allowed_with_retry_def recent_def Let_def limits_to_def)
qed

lemma current_requests_window:
  assumes "limits_to m secs T h w" "T \<le> now" "0 < secs"
  shows "fst (current_requests now w) = recent secs now h"
    and "limits_to m secs now h (snd (current_requests now w))"
  using assms tracks_prune [of "from_secs secs" T h "requests w" now]
  by (simp_all add: current_requests_def recent_def Let_def limits_to_def)

lemma limits_to_new [simp]: "limits_to m secs T [] (sliding_window_new m secs)"
  by (simp add: limits_to_def sliding_window_new_def)

lemma limits_to_mono: "limits_to m secs T h w \<Longrightarrow> T \<le> T' \<Longrightarrow> limits_to m secs T' h w"
  by (auto simp: limits_to_def intro: tracks_mono)

lemma paced_snoc:
  assumes "paced m (from_secs secs) h" "recent secs now h < m"
  shows "paced m (from_secs secs) (h @ [now])"
  unfolding paced_def
proof
  fix t
  let ?W = "from_secs secs"
  show "length (filter (\<lambda>s. t \<le> s \<and> s \<le> t + ?W) (h @ [now])) \<le> m"
  proof (cases "t \<le> now \<and> now \<le> t + ?W")
    case True
    then have "set (filter (\<lambda>s. t \<le> s \<and> s \<le> t + ?W) h) \<subseteq> {s. in_window ?W now s}"
      by (auto simp: in_window_def)
    then have "filter (\<lambda>s. t \<le> s \<and> s \<le> t + ?W) h =
        filter (\<lambda>s. t \<le> s \<and> s \<le> t + ?W) (filter (in_window ?W now) h)"
      by (auto intro: filter_cong)
    then have "length (filter (\<lambda>s. t \<le> s \<and> s \<le> t + ?W) h) \<le> recent secs now h"
      unfolding recent_def by (metis length_filter_le)
    with assms(2) True show ?thesis by simp
  qed (use assms(1) in \<open>auto simp: paced_def\<close>)
qed


section \<open>The recency index\<close>

definition index_ok :: "'l partition_store \<Rightarrow> bool" where
  "index_ok st \<longleftrightarrow>
     distinct (map fst (partitions st)) \<and> sorted (recency st) \<and> distinct (recency st) \<and>
     set (recency st) = (\<lambda>(k, p). (last_seen p, k)) ` set (partitions st)"

lemma index_ok_new [simp]: "index_ok store_new"
  by (simp add: index_ok_def store_new_def)

lemma recency_iff:
  assumes "index_ok st"
  shows "(s, k) \<in> set (recency st) \<longleftrightarrow> (\<exists>p. map_of (partitions st) k = Some p \<and> last_seen p = s)"
  using assms by (force simp: index_ok_def)

lemma index_okI:
  assumes "distinct (map fst ps)" "sorted rs" "distinct rs"
    and "\<And>s k. (s, k) \<in> set rs \<longleftrightarrow> (\<exists>p. map_of ps k = Some p \<and> last_seen p = s)"
  shows "index_ok \<lparr>partitions = ps, recency = rs\<rparr>"
  using assms by (force simp: index_ok_def)

lemma sorted_removeAll: "sorted xs \<Longrightarrow> sorted (removeAll x xs)"
  by (simp add: removeAll_filter_not_eq sorted_wrt_filter)

lemma index_ok_parts:
  assumes "index_ok st"
  shows "distinct (map fst (partitions st))" "sorted (recency st)" "distinct (recency st)"
  using assms by (simp_all add: index_ok_def)

lemma use_existing_index [wf_intros]:
  assumes "index_ok st"
  shows "index_ok (snd (use_existing_at key now operation st))"
proof (cases "map_of (partitions st) key")
  case (Some entry)
  obtain r l where o: "operation (limiter entry) = (r, l)" by fastforce
  note parts = index_ok_parts [OF assms]
  have "index_ok \<lparr>partitions = AList.update key \<lparr>limiter = l, last_seen = max now (last_seen entry)\<rparr>
        (partitions st),
      recency = insort_insert (max now (last_seen entry), key)
        (removeAll (last_seen entry, key) (recency st))\<rparr>"
  proof (rule index_okI)
    show "(s, k) \<in> set (insort_insert (max now (last_seen entry), key)
          (removeAll (last_seen entry, key) (recency st))) \<longleftrightarrow>
        (\<exists>p. map_of (AList.update key \<lparr>limiter = l, last_seen = max now (last_seen entry)\<rparr>
          (partitions st)) k = Some p \<and> last_seen p = s)" for s k
      using Some by (auto simp: set_insort_insert update_conv' recency_iff [OF assms]
          simp del: map_of_eq_Some_iff)
  qed (use parts in \<open>simp_all add: distinct_update sorted_insort_insert sorted_removeAll
      distinct_insort_insert distinct_removeAll\<close>)
  with Some o show ?thesis by (simp add: use_existing_at_def Let_def)
qed (simp add: use_existing_at_def assms)

lemma insert_at_index [wf_intros]:
  assumes "index_ok st" "map_of (partitions st) key = None"
  shows "index_ok (insert_at key l seen st)"
  unfolding insert_at_def
proof (rule index_okI)
  show "(s, k) \<in> set (insort_insert (seen, key) (recency st)) \<longleftrightarrow>
      (\<exists>p. map_of (AList.update key \<lparr>limiter = l, last_seen = seen\<rparr> (partitions st)) k = Some p \<and>
        last_seen p = s)" for s k
    using assms(2) by (auto simp: set_insort_insert update_conv' recency_iff [OF assms(1)]
        simp del: map_of_eq_Some_iff)
qed (use index_ok_parts [OF assms(1)] in \<open>simp_all add: distinct_update sorted_insort_insert
    distinct_insort_insert\<close>)


section \<open>Reclamation\<close>

lemma length_delete:
  assumes "distinct (map fst ps)" "map_of ps k \<noteq> None"
  shows "length ps = length (AList.delete k ps) + 1"
proof -
  have "k \<in> set (map fst ps)" using assms(2) by (auto simp: map_of_eq_None_iff)
  then have "length (remove1 k (map fst ps)) + 1 = length ps"
    by (simp add: length_remove1) (cases ps; simp)
  moreover have "map fst (AList.delete k ps) = remove1 k (map fst ps)"
    using assms(1) by (simp add: delete_keys distinct_remove1_removeAll)
  ultimately show ?thesis by (metis length_map)
qed

text \<open>
  What a client of the store promises of its reset probe: it keeps what is known of a limiter, and
  it only answers yes when the limiter's key is idle.
\<close>

locale reset_probe =
  fixes good :: "digest \<Rightarrow> 'l \<Rightarrow> bool"
    and idle :: "digest \<Rightarrow> bool"
    and probe :: "nat \<Rightarrow> 'l \<Rightarrow> bool \<times> 'l"
  assumes probe_good: "good k l \<Longrightarrow> good k (snd (probe i l))"
    and probe_idle: "good k l \<Longrightarrow> fst (probe i l) \<Longrightarrow> idle k"
begin

lemma scan_keeps:
  assumes "reclaim_scan now ttl probe i rs ps = (c, ps')"
    and "\<And>k p. map_of ps k = Some p \<Longrightarrow> good k (limiter p)"
  shows "map fst ps' = map fst ps \<and>
    (\<forall>k. map_option last_seen (map_of ps' k) = map_option last_seen (map_of ps k)) \<and>
    (\<forall>k p. map_of ps' k = Some p \<longrightarrow> good k (limiter p)) \<and>
    (\<forall>s k. c = Some (s, k) \<longrightarrow> (s, k) \<in> set rs \<and> idle k \<and> map_of ps' k \<noteq> None)"
  using assms
proof (induction rs arbitrary: i ps)
  case (Cons r rs)
  obtain seen key where r: "r = (seen, key)" by force
  show ?case
  proof (cases "\<exists>d. checked_sub now seen = Some d \<and> \<not> d < ttl")
    case False
    with Cons.prems r have "c = None" "ps' = ps" by (auto split: option.splits if_splits)
    with Cons.prems(2) show ?thesis by simp
  next
    case True
    then obtain d where d: "checked_sub now seen = Some d" "\<not> d < ttl" by blast
    show ?thesis
    proof (cases "map_of ps key")
      case None
      then have "reclaim_scan now ttl probe i rs ps = (c, ps')" using Cons.prems(1) r d by simp
      from Cons.IH [OF this Cons.prems(2)] show ?thesis by auto
    next
      case (Some entry)
      obtain b l where bl: "probe i (limiter entry) = (b, l)" by fastforce
      define qs where "qs = AList.update key (entry\<lparr>limiter := l\<rparr>) ps"
      have g: "good key (limiter entry)" using Cons.prems(2) Some .
      have good: "good k (limiter p)" if "map_of qs k = Some p" for k p
        using that Cons.prems(2) [of k p] probe_good [OF g, of i] bl
        by (auto simp: qs_def update_conv' simp del: map_of_eq_Some_iff split: if_splits)
      have keys: "map fst qs = map fst ps"
        using Some by (simp add: qs_def update_keys) (metis domI dom_map_of_conv_image_fst)
      have seen: "map_option last_seen (map_of qs k) = map_option last_seen (map_of ps k)" for k
        using Some by (simp add: qs_def update_conv')
      show ?thesis
      proof (cases b)
        case True
        have "idle key" using probe_idle [OF g, of i] bl True by simp
        moreover have "c = Some (seen, key)" "ps' = qs"
          using Cons.prems(1) r d Some bl True by (simp_all add: qs_def)
        moreover have "map_of qs key \<noteq> None" by (simp add: qs_def update_conv')
        ultimately show ?thesis using good keys seen r by auto
      next
        case False
        then have "reclaim_scan now ttl probe (Suc i) rs qs = (c, ps')"
          using Cons.prems(1) r d Some bl by (simp add: qs_def)
        from Cons.IH [OF this good] keys seen show ?thesis by auto
      qed
    qed
  qed
qed auto

lemma reclaim_keeps:
  assumes "index_ok st" "\<And>k p. map_of (partitions st) k = Some p \<Longrightarrow> good k (limiter p)"
    and "reclaim_oldest_if now ttl probe st = (b, st')"
  shows "index_ok st' \<and>
    (\<forall>k p. map_of (partitions st') k = Some p \<longrightarrow> good k (limiter p)) \<and>
    (\<forall>k. map_of (partitions st) k \<noteq> None \<longrightarrow> map_of (partitions st') k = None \<longrightarrow> idle k) \<and>
    (\<forall>k. map_of (partitions st) k = None \<longrightarrow> map_of (partitions st') k = None) \<and>
    length (partitions st) = length (partitions st') + (if b then 1 else 0)"
proof -
  obtain c ps where scan: "reclaim_scan now ttl probe 0 (recency st) (partitions st) = (c, ps)" by fastforce
  note facts = scan_keeps [OF scan assms(2)]
  note keys = conjunct1 [OF facts]
    and seen = spec [OF conjunct1 [OF conjunct2 [OF facts]]]
    and good = conjunct1 [OF conjunct2 [OF conjunct2 [OF facts]], rule_format]
    and cand = conjunct2 [OF conjunct2 [OF conjunct2 [OF facts]], rule_format]
  have none: "map_of ps k = None \<longleftrightarrow> map_of (partitions st) k = None" for k
    using seen [of k] by (cases "map_of ps k"; cases "map_of (partitions st) k") simp_all
  have look: "(\<exists>p. map_of ps k = Some p \<and> last_seen p = s) \<longleftrightarrow> (s, k) \<in> set (recency st)" for s k
    unfolding recency_iff [OF assms(1)] using seen [of k]
    by (cases "map_of ps k"; cases "map_of (partitions st) k") simp_all
  have dist: "distinct (map fst ps)" using keys index_ok_parts(1) [OF assms(1)] by simp
  have len: "length ps = length (partitions st)" using arg_cong [OF keys, of length] by simp
  show ?thesis
  proof (cases c)
    case None
    then have st': "b = False \<and> st' = \<lparr>partitions = ps, recency = recency st\<rparr>"
      using assms(3) scan by (cases st) (simp add: reclaim_oldest_if_def)
    have "index_ok st'" unfolding conjunct2 [OF st']
      by (rule index_okI [OF dist index_ok_parts(2,3) [OF assms(1)]]) (simp only: look)
    with st' good none len show ?thesis by (auto simp del: map_of_eq_Some_iff)
  next
    case (Some a)
    obtain s key where a: "a = (s, key)" by force
    with Some have cs: "(s, key) \<in> set (recency st)" "idle key" "map_of ps key \<noteq> None"
      using cand by blast+
    have st': "b = True" "st' = \<lparr>partitions = AList.delete key ps, recency = removeAll (s, key) (recency st)\<rparr>"
      using assms(3) scan Some a by (simp_all add: reclaim_oldest_if_def)
    have del: "map_of (AList.delete key ps) k = (if k = key then None else map_of ps k)" for k
      by (simp add: delete_conv')
    have "index_ok st'" unfolding st'(2)
    proof (rule index_okI)
      show "(s', k) \<in> set (removeAll (s, key) (recency st)) \<longleftrightarrow>
          (\<exists>p. map_of (AList.delete key ps) k = Some p \<and> last_seen p = s')" for s' k
        using look [of k s'] look [of key s] cs(1) del [of k] by auto
    qed (use dist index_ok_parts [OF assms(1)] in
        \<open>simp_all add: distinct_delete sorted_removeAll distinct_removeAll\<close>)
    moreover have "good k (limiter p)" if "map_of (partitions st') k = Some p" for k p
      using that good [of k p] del [of k] by (simp add: st' split: if_splits)
    moreover have "length ps = length (AList.delete key ps) + 1"
      using length_delete [OF dist cs(3)] .
    ultimately show ?thesis using st' del none cs(2) len by (auto simp del: map_of_eq_Some_iff split: if_splits)
  qed
qed

end

end
