(* ===== verification/Rate_Limiting_Middleware.thy ===== *)
theory Rate_Limiting_Middleware
  imports Rate_Limiting_Laws
begin

text \<open>
  Sequences of requests through the sliding-window middleware: every partition behaves as one exact
  window over all its requests, whatever is reclaimed in between.
\<close>

section \<open>Request sequences\<close>

text \<open>
  A served request: its partition, whether the shared overflow limiter decided, when, and how.
\<close>

type_synonym served = "digest \<times> bool \<times> instant \<times> rate_limit_admission"

definition overflows :: "clock_readings \<Rightarrow> digest \<Rightarrow> sliding_middleware \<Rightarrow> bool" where
  "overflows t key mw \<longleftrightarrow>
     map_of (partitions (sw_limiters mw)) key = None \<and>
     length (partitions (sw_limiters mw)) \<ge> max_named_client_partitions \<and>
     \<not> fst (reclaim_oldest_if (t_reclaim t) (sw_partition_idle_ttl mw) (is_reset_probe t)
              (sw_limiters mw))"

fun mw_calls :: "(clock_readings \<times> digest) list \<Rightarrow> sliding_middleware \<Rightarrow> served list" where
  "mw_calls [] mw = []"
| "mw_calls ((t, key) # rs) mw =
     (key, overflows t key mw, t_limiter t, fst (is_request_allowed_with_retry t key mw)) #
     mw_calls rs (snd (is_request_allowed_with_retry t key mw))"

text \<open>The readings of a monotone clock.\<close>

definition ordered :: "instant \<Rightarrow> clock_readings \<Rightarrow> bool" where
  "ordered T t \<longleftrightarrow>
     T \<le> t_existing t \<and> t_existing t \<le> t_reclaim t \<and>
     (\<forall>i. t_reclaim t \<le> t_probe t i \<and> t_probe t i \<le> t_limiter t) \<and> t_limiter t \<le> t_insert t"

fun chronological :: "instant \<Rightarrow> (clock_readings \<times> digest) list \<Rightarrow> bool" where
  "chronological T [] = True"
| "chronological T ((t, key) # rs) = (ordered T t \<and> chronological (t_insert t) rs)"

text \<open>The instants at which the limiter of a request has admitted requests before.\<close>

definition admissions :: "bool \<Rightarrow> digest \<Rightarrow> served list \<Rightarrow> instant list" where
  "admissions shared k ev =
     map (\<lambda>(_, _, s, _). s)
       (filter (\<lambda>(k', shared', _, a). shared' = shared \<and> (shared \<or> k' = k) \<and> a = Allowed) ev)"

lemma admissions_Nil [simp]: "admissions shared k [] = []"
  by (simp add: admissions_def)

lemma admissions_snoc:
  "admissions shared k (ev @ [(key, sh, s, a)]) =
     admissions shared k ev @ (if sh = shared \<and> (shared \<or> key = k) \<and> a = Allowed then [s] else [])"
  by (simp add: admissions_def)

section \<open>The invariant\<close>

definition mw_inv :: "nat \<Rightarrow> nat \<Rightarrow> instant \<Rightarrow> served list \<Rightarrow> sliding_middleware \<Rightarrow> bool" where
  "mw_inv m secs T ev mw \<longleftrightarrow>
     sw_max_requests mw = m \<and> sw_window_seconds mw = secs \<and> 0 < secs \<and>
     index_ok (sw_limiters mw) \<and> length (partitions (sw_limiters mw)) \<le> max_named_client_partitions \<and>
     limits_to m secs T (admissions True [] ev) (sw_overflow_limiter mw) \<and>
     (\<forall>k p. map_of (partitions (sw_limiters mw)) k = Some p \<longrightarrow>
        limits_to m secs T (admissions False k ev) (limiter p)) \<and>
     (\<forall>k. map_of (partitions (sw_limiters mw)) k = None \<longrightarrow>
        tracks (from_secs secs) T (admissions False k ev) [])"

lemma tracks_probe:
  assumes "tracks W T h rs" "now \<le> T"
  shows "tracks W T h (prune (checked_sub now W) rs)"
proof -
  from assms(1) obtain d where d: "sorted h" "h = d @ rs" "\<forall>s \<in> set d. \<not> in_window W T s"
    "\<forall>s \<in> set h. s \<le> T" by (auto simp: tracks_def)
  have *: "prune (checked_sub now W) rs = dropWhile (\<lambda>s. \<not> in_window W now s) rs"
  proof (cases "W \<le> now")
    case True
    then have "(\<lambda>s. s < now - W) = (\<lambda>s. \<not> in_window W now s)" by (auto simp: in_window_def fun_eq_iff)
    with True show ?thesis by (simp add: prune_def checked_sub_def)
  next
    case False
    then have "in_window W now s" for s by (simp add: in_window_def)
    then have "dropWhile (\<lambda>s. \<not> in_window W now s) rs = rs" by (cases rs) simp_all
    with False show ?thesis by (simp add: prune_def checked_sub_def)
  qed
  have "\<forall>s \<in> set (takeWhile (\<lambda>s. \<not> in_window W now s) rs). \<not> in_window W T s"
    using in_window_mono [OF _ assms(2)] by (auto dest: set_takeWhileD)
  with d show ?thesis
    unfolding tracks_def *
    by (intro conjI exI [of _ "d @ takeWhile (\<lambda>s. \<not> in_window W now s) rs"]) auto
qed

definition probed :: "nat \<Rightarrow> nat \<Rightarrow> clock_readings \<Rightarrow> served list \<Rightarrow> digest \<Rightarrow> sliding_window \<Rightarrow> bool" where
  "probed m secs t ev k l \<longleftrightarrow>
     0 < secs \<and> (\<forall>i. t_probe t i \<le> t_limiter t) \<and>
     limits_to m secs (t_limiter t) (admissions False k ev) l"

definition forgotten :: "nat \<Rightarrow> clock_readings \<Rightarrow> served list \<Rightarrow> digest \<Rightarrow> bool" where
  "forgotten secs t ev k \<longleftrightarrow> tracks (from_secs secs) (t_limiter t) (admissions False k ev) []"

interpretation window_probe: reset_probe "probed m secs t ev" "forgotten secs t ev" "is_reset_probe t"
  for m secs t ev
proof
  fix k l i
  assume p: "probed m secs t ev k l"
  let ?rs = "prune (checked_sub (t_probe t i) (from_secs secs)) (requests l)"
  have l: "window_seconds l = secs" "0 < secs" using p by (simp_all add: probed_def limits_to_def)
  have "tracks (from_secs secs) (t_limiter t) (admissions False k ev) ?rs"
    using p by (auto simp: probed_def limits_to_def intro: tracks_probe)
  moreover have "is_reset_probe t i l = (?rs = [], l\<lparr>requests := ?rs\<rparr>)"
    using l by (simp add: is_reset_probe_def current_requests_def Let_def)
  ultimately show "probed m secs t ev k (snd (is_reset_probe t i l))"
    "fst (is_reset_probe t i l) \<Longrightarrow> forgotten secs t ev k"
    using p by (auto simp: probed_def limits_to_def forgotten_def)
qed

lemma length_update_new:
  "map_of ps k = None \<Longrightarrow> length (AList.update k v ps) = Suc (length ps)"
  by (induction ps) (auto split: if_splits)

lemma mw_inv_mono:
  assumes "mw_inv m secs T ev mw" "T \<le> T'"
  shows "mw_inv m secs T' ev mw"
  using assms unfolding mw_inv_def by (meson limits_to_mono tracks_mono)


section \<open>One request\<close>

lemma step_existing:
  assumes inv: "mw_inv m secs T ev mw" and ord: "ordered T t"
    and p: "map_of (partitions (sw_limiters mw)) key = Some p"
    and step: "is_request_allowed_with_retry t key mw = (a, mw')"
  shows "(a = Allowed \<longleftrightarrow> recent secs (t_limiter t) (admissions False key ev) < m) \<and>
    mw_inv m secs (t_insert t) (ev @ [(key, False, t_limiter t, a)]) mw'"
proof -
  let ?now = "t_limiter t" and ?st = "sw_limiters mw"
  let ?h = "\<lambda>k. admissions False k ev"
  have T: "T \<le> ?now" "?now \<le> t_insert t" using ord by (auto simp: ordered_def intro: le_trans)
  have I: "sw_max_requests mw = m" "sw_window_seconds mw = secs" "0 < secs" "index_ok ?st"
    "length (partitions ?st) \<le> max_named_client_partitions"
    "limits_to m secs T (admissions True [] ev) (sw_overflow_limiter mw)"
    using inv by (simp_all add: mw_inv_def)
  have known: "limits_to m secs T (?h k) (limiter q)" if "map_of (partitions ?st) k = Some q" for k q
    using inv that by (simp add: mw_inv_def)
  have gone: "tracks (from_secs secs) T (?h k) []" if "map_of (partitions ?st) k = None" for k
    using inv that by (simp add: mw_inv_def)
  obtain a' l where al: "is_allowed_with_retry ?now (limiter p) = (a', l)" by fastforce
  define st' where "st' = snd (use_existing_at key (t_existing t) (is_allowed_with_retry ?now) ?st)"
  have res: "a = a'" "mw' = mw\<lparr>sw_limiters := st'\<rparr>"
    using step p al by (auto simp: is_request_allowed_with_retry_def use_existing_at_def st'_def Let_def)
  note w = is_allowed_window [OF known [OF p] T(1) I(3), unfolded al fst_conv snd_conv]
  have parts: "partitions st' = AList.update key \<lparr>limiter = l, last_seen = max (t_existing t) (last_seen p)\<rparr>
      (partitions ?st)"
    using p al by (simp add: st'_def use_existing_at_def Let_def)
  have "length (partitions st') = length (partitions ?st)"
    using arg_cong [OF update_keys [of key _ "partitions ?st"], of length] p
    by (simp add: parts) (metis domI dom_map_of_conv_image_fst length_map set_map)
  moreover have "index_ok st'" unfolding st'_def using I(4) by (rule use_existing_index)
  moreover have "limits_to m secs (t_insert t) (admissions False k (ev @ [(key, False, ?now, a)])) (limiter q)"
    if "map_of (partitions st') k = Some q" for k q
  proof (cases "k = key")
    case True
    with that have "limiter q = l" by (auto simp: parts update_conv')
    then show ?thesis
      using limits_to_mono [OF w(2) T(2)] w(1) True by (simp add: admissions_snoc res split: if_splits)
  next
    case False
    with that have "map_of (partitions ?st) k = Some q" by (simp add: parts update_conv')
    from limits_to_mono [OF known [OF this]] T False show ?thesis by (simp add: admissions_snoc)
  qed
  moreover have "tracks (from_secs secs) (t_insert t) (admissions False k (ev @ [(key, False, ?now, a)])) []"
    if "map_of (partitions st') k = None" for k
  proof -
    have "k \<noteq> key" "map_of (partitions ?st) k = None"
      using that by (simp_all add: parts update_conv' split: if_splits)
    with tracks_mono [OF gone] T show ?thesis by (simp add: admissions_snoc)
  qed
  moreover have "limits_to m secs (t_insert t) (admissions True [] (ev @ [(key, False, ?now, a)]))
      (sw_overflow_limiter mw)"
    using limits_to_mono [OF I(6)] T by (simp add: admissions_snoc)
  ultimately show ?thesis using I(1-3,5) w(1) res by (simp add: mw_inv_def)
qed

text \<open>The store a new partition meets: possibly after a reclamation.\<close>

definition room_made :: "clock_readings \<Rightarrow> sliding_middleware \<Rightarrow> bool \<times> sliding_window partition_store" where
  "room_made t mw =
     (if length (partitions (sw_limiters mw)) \<ge> max_named_client_partitions
      then reclaim_oldest_if (t_reclaim t) (sw_partition_idle_ttl mw) (is_reset_probe t) (sw_limiters mw)
      else (True, sw_limiters mw))"

lemma room_made_keeps:
  assumes inv: "mw_inv m secs T ev mw" and ord: "ordered T t" and r: "room_made t mw = (room, st)"
  shows "index_ok st"
    and "map_of (partitions st) k = Some p \<Longrightarrow> limits_to m secs (t_limiter t) (admissions False k ev) (limiter p)"
    and "map_of (partitions st) k = None \<Longrightarrow> tracks (from_secs secs) (t_limiter t) (admissions False k ev) []"
    and "map_of (partitions (sw_limiters mw)) k = None \<Longrightarrow> map_of (partitions st) k = None"
    and "length (partitions st) + (if room then 1 else 0) \<le> max_named_client_partitions"
proof -
  let ?st = "sw_limiters mw"
  have T: "T \<le> t_limiter t" "\<forall>i. t_probe t i \<le> t_limiter t"
    using ord by (auto simp: ordered_def intro: le_trans)
  have I: "0 < secs" "index_ok ?st" "length (partitions ?st) \<le> max_named_client_partitions"
    using inv by (simp_all add: mw_inv_def)
  have known: "probed m secs t ev k p'" if "map_of (partitions ?st) k = Some q" "p' = limiter q" for k q p'
    using inv that T I limits_to_mono [of m secs T "admissions False k ev" p' "t_limiter t"]
    by (simp add: mw_inv_def probed_def)
  have gone: "forgotten secs t ev k" if "map_of (partitions ?st) k = None" for k
    using inv that T(1) by (auto simp: mw_inv_def forgotten_def intro: tracks_mono)
  have "index_ok st \<and> (\<forall>k p. map_of (partitions st) k = Some p \<longrightarrow> probed m secs t ev k (limiter p)) \<and>
      (\<forall>k. map_of (partitions st) k = None \<longrightarrow> forgotten secs t ev k) \<and>
      (\<forall>k. map_of (partitions ?st) k = None \<longrightarrow> map_of (partitions st) k = None) \<and>
      length (partitions st) + (if room then 1 else 0) \<le> max_named_client_partitions"
  proof (cases "length (partitions ?st) \<ge> max_named_client_partitions")
    case True
    then have "reclaim_oldest_if (t_reclaim t) (sw_partition_idle_ttl mw) (is_reset_probe t) ?st = (room, st)"
      using r by (simp add: room_made_def)
    note facts = window_probe.reclaim_keeps [OF I(2) known [OF _ refl] this]
    have "forgotten secs t ev k" if "map_of (partitions st) k = None" for k
      using facts gone that by (cases "map_of (partitions ?st) k") (simp_all del: map_of_eq_Some_iff)
    with facts I(3) show ?thesis by (simp del: map_of_eq_Some_iff)
  next
    case False
    then have "room = True" "st = ?st" using r by (simp_all add: room_made_def)
    with False I known gone show ?thesis by auto
  qed
  then show "index_ok st"
    and "map_of (partitions st) k = Some p \<Longrightarrow> limits_to m secs (t_limiter t) (admissions False k ev) (limiter p)"
    and "map_of (partitions st) k = None \<Longrightarrow> tracks (from_secs secs) (t_limiter t) (admissions False k ev) []"
    and "map_of (partitions (sw_limiters mw)) k = None \<Longrightarrow> map_of (partitions st) k = None"
    and "length (partitions st) + (if room then 1 else 0) \<le> max_named_client_partitions"
    by (simp_all add: probed_def forgotten_def)
qed


lemma step_overflow:
  assumes inv: "mw_inv m secs T ev mw" and ord: "ordered T t"
    and n: "map_of (partitions (sw_limiters mw)) key = None" and r: "room_made t mw = (False, st)"
    and step: "is_request_allowed_with_retry t key mw = (a, mw')"
  shows "(a = Allowed \<longleftrightarrow> recent secs (t_limiter t) (admissions True key ev) < m) \<and>
    mw_inv m secs (t_insert t) (ev @ [(key, True, t_limiter t, a)]) mw'"
proof -
  let ?now = "t_limiter t"
  have T: "T \<le> ?now" "?now \<le> t_insert t" using ord by (auto simp: ordered_def intro: le_trans)
  have I: "sw_max_requests mw = m" "sw_window_seconds mw = secs" "0 < secs"
    "limits_to m secs T (admissions True [] ev) (sw_overflow_limiter mw)"
    using inv by (simp_all add: mw_inv_def)
  have shared: "admissions True k e = admissions True [] e" for k e by (simp add: admissions_def)
  obtain a' l where al: "is_allowed_with_retry ?now (sw_overflow_limiter mw) = (a', l)" by fastforce
  have res: "a = a'" "mw' = mw\<lparr>sw_limiters := st, sw_overflow_limiter := l\<rparr>"
    using step n r al
    by (auto simp: is_request_allowed_with_retry_def use_existing_at_def room_made_def Let_def split: if_splits)
  note w = is_allowed_window [OF I(4) T(1) I(3), unfolded al fst_conv snd_conv]
  note keeps = room_made_keeps [OF inv ord r]
  have over: "limits_to m secs (t_insert t) (admissions True [] (ev @ [(key, True, ?now, a)])) l"
    using limits_to_mono [OF w(2) T(2)] w(1) by (simp add: admissions_snoc res split: if_splits)
  have own: "admissions False k (ev @ [(key, True, ?now, b)]) = admissions False k ev" for k b
    by (simp add: admissions_snoc)
  show ?thesis
    using over keeps(1,5) limits_to_mono [OF keeps(2) T(2)] tracks_mono [OF keeps(3) T(2)] I(1-3) w(1) res
    by (simp add: mw_inv_def own shared [of key] del: map_of_eq_Some_iff)
qed

lemma step_new:
  assumes inv: "mw_inv m secs T ev mw" and ord: "ordered T t"
    and n: "map_of (partitions (sw_limiters mw)) key = None" and r: "room_made t mw = (True, st)"
    and step: "is_request_allowed_with_retry t key mw = (a, mw')"
  shows "(a = Allowed \<longleftrightarrow> recent secs (t_limiter t) (admissions False key ev) < m) \<and>
    mw_inv m secs (t_insert t) (ev @ [(key, False, t_limiter t, a)]) mw'"
proof -
  let ?now = "t_limiter t"
  have T: "T \<le> ?now" "?now \<le> t_insert t" using ord by (auto simp: ordered_def intro: le_trans)
  have I: "sw_max_requests mw = m" "sw_window_seconds mw = secs" "0 < secs"
    "limits_to m secs T (admissions True [] ev) (sw_overflow_limiter mw)"
    using inv by (simp_all add: mw_inv_def)
  obtain a' l where al: "is_allowed_with_retry ?now (sliding_window_new m secs) = (a', l)" by fastforce
  have res: "a = a'" "mw' = mw\<lparr>sw_limiters := insert_at key l (t_insert t) st\<rparr>"
    using step n r al I(1,2)
    by (auto simp: is_request_allowed_with_retry_def use_existing_at_def room_made_def Let_def split: if_splits)
  note keeps = room_made_keeps [OF inv ord r]
  have absent: "map_of (partitions st) key = None" using keeps(4) n by blast
  have "limits_to m secs ?now (admissions False key ev) (sliding_window_new m secs)"
    using keeps(3) [OF absent] by (simp add: limits_to_def sliding_window_new_def)
  note w = is_allowed_window [OF this le_refl I(3), unfolded al fst_conv snd_conv]
  define st' where "st' = insert_at key l (t_insert t) st"
  have look: "map_of (partitions st') = (map_of (partitions st))(key \<mapsto> \<lparr>limiter = l, last_seen = t_insert t\<rparr>)"
    by (simp add: st'_def insert_at_def update_conv')
  have "limits_to m secs (t_insert t) (admissions False k (ev @ [(key, False, ?now, a)])) (limiter q)"
    if "map_of (partitions st') k = Some q" for k q
  proof (cases "k = key")
    case True
    with that have "limiter q = l" by (auto simp: look)
    then show ?thesis
      using limits_to_mono [OF w(2) T(2)] w(1) True by (simp add: admissions_snoc res split: if_splits)
  next
    case False
    with that have "map_of (partitions st) k = Some q" by (simp add: look)
    from limits_to_mono [OF keeps(2) [OF this] T(2)] False show ?thesis by (simp add: admissions_snoc)
  qed
  moreover have "tracks (from_secs secs) (t_insert t) (admissions False k (ev @ [(key, False, ?now, a)])) []"
    if "map_of (partitions st') k = None" for k
  proof -
    have "k \<noteq> key" "map_of (partitions st) k = None" using that by (simp_all add: look split: if_splits)
    with tracks_mono [OF keeps(3) T(2)] show ?thesis by (simp add: admissions_snoc)
  qed
  moreover have "limits_to m secs (t_insert t) (admissions True [] (ev @ [(key, False, ?now, a)]))
      (sw_overflow_limiter mw)"
    using limits_to_mono [OF I(4)] T by (simp add: admissions_snoc)
  moreover have "index_ok st'" unfolding st'_def using keeps(1) absent by (rule insert_at_index)
  moreover have "length (partitions st') \<le> max_named_client_partitions"
    using keeps(5) length_update_new [OF absent] by (simp add: st'_def insert_at_def)
  ultimately show ?thesis using I(1-3) w(1) res by (simp add: mw_inv_def flip: st'_def)
qed

lemma step_exact:
  assumes inv: "mw_inv m secs T ev mw" and ord: "ordered T t"
    and step: "is_request_allowed_with_retry t key mw = (a, mw')"
  shows "(a = Allowed \<longleftrightarrow> recent secs (t_limiter t) (admissions (overflows t key mw) key ev) < m) \<and>
    mw_inv m secs (t_insert t) (ev @ [(key, overflows t key mw, t_limiter t, a)]) mw'"
proof (cases "map_of (partitions (sw_limiters mw)) key")
  case (Some p)
  then have "\<not> overflows t key mw" by (simp add: overflows_def)
  with step_existing [OF inv ord Some step] show ?thesis by simp
next
  case None
  obtain room st where r: "room_made t mw = (room, st)" by fastforce
  then have "overflows t key mw \<longleftrightarrow> \<not> room"
    using None by (auto simp: overflows_def room_made_def split: if_splits)
  then show ?thesis
    using step_overflow [OF inv ord None _ step] step_new [OF inv ord None _ step] r by (cases room) simp_all
qed


section \<open>Properties\<close>

lemma mw_inv_new: "0 < secs \<Longrightarrow> mw_inv m secs T [] (middleware_new m secs)"
  by (simp add: mw_inv_def middleware_new_def store_new_def index_ok_def)

lemma mw_calls_exact:
  assumes "mw_inv m secs T ev mw" "chronological T rs" "i < length rs"
    and "mw_calls rs mw ! i = (k, shared, now, a)"
  shows "a = Allowed \<longleftrightarrow> recent secs now (admissions shared k (ev @ take i (mw_calls rs mw))) < m"
  using assms
proof (induction rs arbitrary: T ev mw i)
  case (Cons r rs)
  obtain t key where r: "r = (t, key)" by force
  obtain b mw' where step: "is_request_allowed_with_retry t key mw = (b, mw')" by fastforce
  have ord: "ordered T t" and rest: "chronological (t_insert t) rs" using Cons.prems(2) r by simp_all
  note ex = step_exact [OF Cons.prems(1) ord step]
  show ?case
  proof (cases i)
    case 0
    with Cons.prems(4) r step ex show ?thesis by auto
  next
    case (Suc j)
    from Cons.IH [OF conjunct2 [OF ex] rest, of j] Cons.prems(3,4) r step Suc
    show ?thesis by simp
  qed
qed simp

lemma mw_calls_paced:
  assumes "mw_inv m secs T ev mw" "chronological T rs" "paced m (from_secs secs) (admissions shared k ev)"
  shows "paced m (from_secs secs) (admissions shared k (ev @ mw_calls rs mw))"
  using assms
proof (induction rs arbitrary: T ev mw)
  case (Cons r rs)
  obtain t key where r: "r = (t, key)" by force
  obtain b mw' where step: "is_request_allowed_with_retry t key mw = (b, mw')" by fastforce
  have ord: "ordered T t" and rest: "chronological (t_insert t) rs" using Cons.prems(2) r by simp_all
  note ex = step_exact [OF Cons.prems(1) ord step]
  let ?ev = "ev @ [(key, overflows t key mw, t_limiter t, b)]"
  have "paced m (from_secs secs) (admissions shared k ?ev)"
  proof (cases "overflows t key mw = shared \<and> (shared \<or> key = k) \<and> b = Allowed")
    case True
    then have "admissions (overflows t key mw) key ev = admissions shared k ev"
      by (auto simp: admissions_def)
    with True ex have "recent secs (t_limiter t) (admissions shared k ev) < m" by simp
    with True show ?thesis using paced_snoc [OF Cons.prems(3)] by (simp add: admissions_snoc)
  next
    case False
    then have "admissions shared k ?ev = admissions shared k ev" by (simp only: admissions_snoc if_False append_Nil2)
    with Cons.prems(3) show ?thesis by simp
  qed
  from Cons.IH [OF conjunct2 [OF ex] rest this] show ?case using r step by simp
qed simp

text \<open>C18: The middleware is an exact sliding window: the \<open>i\<close>-th request of a sequence is allowed if and
  only if fewer than \<open>max_requests\<close> requests of the same partition (or of the shared overflow
  partition, when that one decides) were allowed in the window before it.  Reclaiming idle
  partitions is invisible: it never resets a limit.\<close>

theorem middleware_exact_window:
  assumes "0 < secs" "chronological 0 rs" "i < length rs"
    and "mw_calls rs (middleware_new m secs) ! i = (k, shared, now, a)"
  shows "a = Allowed \<longleftrightarrow>
    recent secs now (admissions shared k (take i (mw_calls rs (middleware_new m secs)))) < m"
  using mw_calls_exact [OF mw_inv_new [OF assms(1)] assms(2-4)] by simp

text \<open>In every closed time window of the configured length at most \<open>max_requests\<close> requests of a
  partition are allowed by its own limiter, and at most \<open>max_requests\<close> by the overflow limiter that
  all surplus partitions share.\<close>

lemma requests_per_window_bounded:
  assumes "0 < secs" "chronological 0 rs"
  shows "length (filter (\<lambda>s. t \<le> s \<and> s \<le> t + from_secs secs)
      (admissions shared k (mw_calls rs (middleware_new m secs)))) \<le> m"
  using mw_calls_paced [OF mw_inv_new [OF assms(1)] assms(2), of m shared k]
  by (simp add: paced_def)

lemma length_prune_le: "length (prune cutoff rs) \<le> length rs"
  by (simp add: prune_def length_dropWhile_le split: option.splits)

text \<open>A limiter after calls at the given instants.\<close>

definition window_after :: "nat \<Rightarrow> nat \<Rightarrow> instant list \<Rightarrow> sliding_window" where
  "window_after m secs ts = fold (\<lambda>t w. snd (is_allowed_with_retry t w)) ts (sliding_window_new m secs)"

lemma window_after_tracks:
  assumes "sorted ts" "\<forall>t \<in> set ts. t \<le> T" "0 < secs"
  shows "\<exists>h. limits_to m secs T h (window_after m secs ts) \<and> length (requests (window_after m secs ts)) \<le> m"
  using assms
proof (induction ts arbitrary: T rule: rev_induct)
  case Nil
  have "window_after m secs [] = sliding_window_new m secs" by (simp add: window_after_def)
  then have "limits_to m secs T [] (window_after m secs [])" "requests (window_after m secs []) = []"
    by (simp_all add: sliding_window_new_def limits_to_def)
  then show ?case by (intro exI [of _ "[]"]) simp
next
  case (snoc t ts)
  let ?w = "window_after m secs ts"
  have "sorted ts" "\<forall>s \<in> set ts. s \<le> t" "t \<le> T" using snoc.prems by (simp_all add: sorted_append)
  then obtain h where h: "limits_to m secs t h ?w" "length (requests ?w) \<le> m"
    using snoc.IH snoc.prems(3) by blast
  have "length (requests (snd (is_allowed_with_retry t ?w))) \<le> m"
    using h le_trans [OF length_prune_le h(2)]
    by (auto simp: is_allowed_with_retry_def limits_to_def Let_def)
  moreover have "window_after m secs (ts @ [t]) = snd (is_allowed_with_retry t ?w)"
    by (simp add: window_after_def)
  ultimately show ?case
    using limits_to_mono [OF is_allowed_window(2) [OF h(1) le_refl snoc.prems(3)] \<open>t \<le> T\<close>] by metis
qed

lemma retry_after_enough:
  assumes "s \<le> now" "now \<le> s + from_secs secs" "secs * 1000 < u64_max"
    and "now + retry_after now secs (s # rest) * 1000000 \<le> later"
  shows "s + from_secs secs < later"
proof (cases "now - s \<ge> from_secs secs")
  case True
  with assms show ?thesis by (simp add: retry_after_def)
next
  case False
  let ?d = "from_secs secs - (now - s)"
  have "as_millis ?d \<le> secs * 1000"
    using div_le_mono [of ?d "from_secs secs" 1000000] by (simp add: as_millis_def from_secs_def)
  then have "retry_after now secs (s # rest) = as_millis ?d + 1"
    using False assms(3) by (simp add: retry_after_def sat_add_def min_def)
  moreover have "?d < (as_millis ?d + 1) * 1000000" by (simp add: as_millis_def dividend_less_div_times)
  moreover have "s + from_secs secs = now + ?d" using assms(1) False by simp
  ultimately show ?thesis using assms(4) by (simp only:)
qed

text \<open>C37: The retry hint of a rejection is sufficient: a limiter that rejected a request with a hint and
  saw no request since allows the next one after the hinted number of milliseconds, for every
  positive request limit (a limit of zero allows nothing) and every positive window that is
  representable in milliseconds.\<close>

theorem retry_hint_sufficient:
  assumes "sorted (ts @ [now])" "0 < secs" "0 < m" "secs * 1000 < u64_max"
    and "is_allowed_with_retry now (window_after m secs ts) = (Rejected ms, w')"
    and "now + ms * 1000000 \<le> later"
  shows "fst (is_allowed_with_retry later w') = Allowed"
proof -
  let ?W = "from_secs secs" and ?w = "window_after m secs ts"
  from assms(1) window_after_tracks [of ts now secs m] assms(2)
  obtain h where h: "limits_to m secs now h ?w" "length (requests ?w) \<le> m"
    by (auto simp: sorted_append)
  let ?rs = "filter (in_window ?W now) h"
  have pr: "prune (checked_sub now ?W) (requests ?w) = ?rs"
    using h(1) tracks_prune(1) [of ?W now h "requests ?w" now] by (simp add: limits_to_def)
  have full: "\<not> length ?rs < m" and w': "limits_to m secs now h w'"
    using is_allowed_window [OF h(1) le_refl assms(2)] assms(5) by (auto simp: recent_def split: if_splits)
  have ms: "ms = retry_after now secs ?rs"
    using pr h(1) assms(2,5) full by (simp add: is_allowed_with_retry_def limits_to_def Let_def)
  have "length ?rs \<le> m"
    unfolding pr [symmetric] using le_trans [OF length_prune_le h(2)] .
  obtain s rest where s: "?rs = s # rest" using full assms(3) by (cases ?rs) auto
  then have "s \<in> set ?rs" by simp
  then have sin: "s \<le> now" "now \<le> s + ?W" "s \<in> set h"
    using w' by (auto simp: in_window_def limits_to_def tracks_def)
  have "s + ?W < later" using retry_after_enough [OF sin(1,2) assms(4), of rest later] assms(6) ms s by simp
  then have out: "\<not> in_window ?W later s" by (simp add: in_window_def)
  have "now \<le> later" using assms(6) by simp
  then have "filter (in_window ?W later) h = filter (in_window ?W later) ?rs"
    by (auto intro!: filter_cong dest: in_window_mono)
  then have "recent secs later h \<le> length rest"
    using out s by (simp add: recent_def)
  with \<open>length ?rs \<le> m\<close> s have "recent secs later h < m" by simp
  with is_allowed_window(1) [OF w' \<open>now \<le> later\<close> assms(2)] show ?thesis by simp
qed


section \<open>Instances\<close>

definition readings_at :: "instant \<Rightarrow> clock_readings" where
  "readings_at n = \<lparr>t_existing = n, t_reclaim = n, t_probe = (\<lambda>_. n), t_limiter = n, t_insert = n\<rparr>"

definition sample_requests :: "(clock_readings \<times> digest) list" where
  "sample_requests = [(readings_at 5, ''a''), (readings_at 1000000005, ''a'')]"

lemmas limiter_eval = is_request_allowed_with_retry_def use_existing_at_def insert_at_def
  is_allowed_with_retry_def current_requests_def prune_def checked_sub_def from_secs_def
  retry_after_def as_millis_def sat_add_def u64_max_def sliding_window_new_def store_new_def
  max_named_client_partitions_def max_client_partitions_def overflows_def Let_def

lemma sample_calls:
  "mw_calls sample_requests (middleware_new 1 2) =
     [(''a'', False, 5, Allowed), (''a'', False, 1000000005, Rejected 1001)]"
  by (simp add: sample_requests_def readings_at_def middleware_new_def limiter_eval)

lemma sample_chronological: "chronological 0 sample_requests"
  by (simp add: sample_requests_def readings_at_def ordered_def)

theorem middleware_exact_window_witness:
  "\<not> recent 2 1000000005 (admissions False ''a'' [(''a'', False, 5, Allowed)]) < 1"
  using middleware_exact_window [OF _ sample_chronological, of 2 1 1] sample_calls
  by (simp add: sample_requests_def)

theorem retry_hint_sufficient_witness:
  "fst (is_allowed_with_retry 2001000005
     (snd (is_allowed_with_retry 1000000005 (window_after 1 2 [5])))) = Allowed"
proof (rule retry_hint_sufficient [where ts = "[5]" and now = 1000000005 and m = 1 and secs = 2])
  show "is_allowed_with_retry 1000000005 (window_after 1 2 [5]) =
      (Rejected 1001, snd (is_allowed_with_retry 1000000005 (window_after 1 2 [5])))"
    by (simp add: window_after_def limiter_eval)
qed (simp_all add: u64_max_def)

end
