(* ===== verification/Sse_Parser.thy ===== *)
theory Sse_Parser
  imports Utf8
begin

text \<open>
  The client's bounded WHATWG event-stream parser (\<open>crates/fastmcp-client/src/sse.rs\<close>): limits,
  the parser record, one definition per method in the order of the file, the invariant every
  method keeps, independence of chunking, and the equivalence of an accepted stream with the
  event-stream algorithm run on the whole decoded stream.
\<close>

section \<open>Limits and parser state\<close>

record sse_limits =
  lim_line_bytes :: nat
  lim_event_bytes :: nat
  lim_keepalive_lines :: nat
  lim_data_lines :: nat

definition with_data_lines :: "nat \<Rightarrow> nat \<Rightarrow> nat \<Rightarrow> nat \<Rightarrow> sse_limits option" where
  "with_data_lines line event keepalive datas =
     (if line = 0 \<or> event = 0 \<or> keepalive = 0 \<or> datas = 0 then None
      else Some \<lparr>lim_line_bytes = line, lim_event_bytes = event,
                 lim_keepalive_lines = keepalive, lim_data_lines = datas\<rparr>)"

definition sse_limits_new :: "nat \<Rightarrow> nat \<Rightarrow> nat \<Rightarrow> sse_limits option" where
  "sse_limits_new line event keepalive = with_data_lines line event keepalive u64_max"

record sse_end_of_stream =
  discarded_pending_event :: bool
  discarded_partial_line :: bool

datatype sse_parse_error =
    LineTooLong nat
  | EventTooLarge nat
  | KeepaliveFlood nat
  | TooManyDataLines nat
  | Poisoned

datatype 'e sse_push_error = ParseRefused sse_parse_error | ConsumerRefused 'e

record sse_parser =
  limits :: sse_limits
  raw_line :: bytes
  pending_cr :: bool
  bom_window_open :: bool
  sse_data :: bytes
  event_raw_bytes :: nat
  event_data_lines :: nat
  keepalive_lines :: nat
  poisoned :: bool

definition sse_new :: "sse_limits \<Rightarrow> sse_parser" where
  "sse_new lim = \<lparr>limits = lim, raw_line = [], pending_cr = False, bom_window_open = True,
     sse_data = [], event_raw_bytes = 0, event_data_lines = 0, keepalive_lines = 0,
     poisoned = False\<rparr>"

definition buffered_bytes :: "sse_parser \<Rightarrow> nat" where
  "buffered_bytes p = length (raw_line p) + length (sse_data p)"

section \<open>Line processing\<close>

abbreviation LF :: byte where "LF \<equiv> CHR 0x0A"
abbreviation CR :: byte where "CR \<equiv> CHR 0x0D"

definition utf8_bom :: bytes where
  "utf8_bom = [CHR 0xEF, CHR 0xBB, CHR 0xBF]"

definition split_once :: "byte \<Rightarrow> bytes \<Rightarrow> (bytes \<times> bytes) option" where
  "split_once c s =
     (case position (\<lambda>x. x = c) s of
        None \<Rightarrow> None
      | Some i \<Rightarrow> Some (take i s, drop (Suc i) s))"

definition strip_space :: "bytes \<Rightarrow> bytes" where
  "strip_space v = (case v of c # cs \<Rightarrow> if c = CHR '' '' then cs else v | [] \<Rightarrow> [])"

definition poison :: "sse_parser \<Rightarrow> sse_parser" where
  "poison p = p\<lparr>raw_line := [], sse_data := [], event_raw_bytes := 0, event_data_lines := 0,
     keepalive_lines := 0, poisoned := True\<rparr>"

definition count_non_dispatching_line :: "sse_parser \<Rightarrow> (sse_parse_error + unit) \<times> sse_parser" where
  "count_non_dispatching_line p =
     (let p' = p\<lparr>keepalive_lines := sat_add (keepalive_lines p) 1\<rparr>
      in if keepalive_lines p' > lim_keepalive_lines (limits p')
         then (Inl (KeepaliveFlood (lim_keepalive_lines (limits p'))), p')
         else (Inr (), p'))"

type_synonym ('e, 'c) accept = "bytes \<Rightarrow> 'c \<Rightarrow> ('e + unit) \<times> 'c"

definition line_field :: "bytes \<Rightarrow> bytes \<times> bytes" where
  "line_field line =
     (case split_once (CHR '':'') line of
        Some (field, value) \<Rightarrow> (field, strip_space value)
      | None \<Rightarrow> (line, []))"

definition append_data :: "bytes \<Rightarrow> nat \<Rightarrow> sse_parser \<Rightarrow> ('e sse_push_error + bool) \<times> sse_parser" where
  "append_data value raw_len p =
     (let decoded_after = sat_add (sat_add (length (sse_data p)) (length value)) 1;
          raw_after = sat_add (event_raw_bytes p) raw_len;
          lines_after = sat_add (event_data_lines p) 1
      in if decoded_after > lim_event_bytes (limits p) \<or> raw_after > lim_event_bytes (limits p)
         then (Inl (ParseRefused (EventTooLarge (lim_event_bytes (limits p)))), poison p)
         else if lines_after > lim_data_lines (limits p)
         then (Inl (ParseRefused (TooManyDataLines (lim_data_lines (limits p)))), poison p)
         else (Inr False, p\<lparr>sse_data := sse_data p @ value @ [LF], event_raw_bytes := raw_after,
                 event_data_lines := lines_after, keepalive_lines := 0\<rparr>))"

definition process_line_with ::
  "('e, 'c) accept \<Rightarrow> bytes \<Rightarrow> nat \<Rightarrow> sse_parser \<Rightarrow> 'c
     \<Rightarrow> ('e sse_push_error + bool) \<times> sse_parser \<times> 'c" where
  "process_line_with accept line raw_len p c =
     (if line = [] then
        (if sse_data p = [] then
           (case count_non_dispatching_line p of
              (Inl e, p') \<Rightarrow> (Inl (ParseRefused e), p', c)
            | (Inr _, p') \<Rightarrow> (Inr False, p', c))
         else
           (let payload = sse_data p;
                payload = (if last payload = LF then butlast payload else payload);
                p1 = p\<lparr>sse_data := [], event_raw_bytes := 0, event_data_lines := 0,
                       keepalive_lines := 0\<rparr>
            in case accept payload c of
                 (Inl e, c') \<Rightarrow> (Inl (ConsumerRefused e), poison p1, c')
               | (Inr _, c') \<Rightarrow> (Inr False, p1, c')))
      else if hd line = CHR '':'' then
        (case count_non_dispatching_line p of
           (Inl e, p') \<Rightarrow> (Inl (ParseRefused e), p', c)
         | (Inr _, p') \<Rightarrow> (Inr True, p', c))
      else
        (let (field, value) = line_field line
         in if field = ''data'' then
              (case append_data value raw_len p of (r, p') \<Rightarrow> (r, p', c))
            else
              (case count_non_dispatching_line p of
                 (Inl e, p') \<Rightarrow> (Inl (ParseRefused e), p', c)
               | (Inr _, p') \<Rightarrow> (Inr False, p', c))))"

definition complete_line_with ::
  "('e, 'c) accept \<Rightarrow> sse_parser \<Rightarrow> 'c \<Rightarrow> ('e sse_push_error + bool) \<times> sse_parser \<times> 'c" where
  "complete_line_with accept p c =
     (let raw = raw_line p;
          raw = (if bom_window_open p \<and> starts_with raw utf8_bom then drop 3 raw else raw);
          p1 = p\<lparr>raw_line := [], bom_window_open := False\<rparr>;
          line = from_utf8_lossy raw
      in if length line > lim_line_bytes (limits p1)
         then (Inl (ParseRefused (LineTooLong (lim_line_bytes (limits p1)))), poison p1, c)
         else (case process_line_with accept line (length raw) p1 c of
                 (Inr activity, p2, c2) \<Rightarrow> (Inr activity, p2, c2)
               | (Inl (ParseRefused e), p2, c2) \<Rightarrow> (Inl (ParseRefused e), poison p2, c2)
               | (Inl (ConsumerRefused e), p2, c2) \<Rightarrow> (Inl (ConsumerRefused e), p2, c2)))"

section \<open>Chunks\<close>

fun push_bytes ::
  "('e, 'c) accept \<Rightarrow> bytes \<Rightarrow> sse_parser \<Rightarrow> 'c \<Rightarrow> bool
     \<Rightarrow> ('e sse_push_error + bool) \<times> sse_parser \<times> 'c" where
  "push_bytes accept [] p c activity = (Inr activity, p, c)"
| "push_bytes accept (b # bs) p c activity =
     (let skip = pending_cr p \<and> b = LF; p = p\<lparr>pending_cr := False\<rparr>
      in if skip then push_bytes accept bs p c activity
         else if b = CR then
           (case complete_line_with accept p c of
              (Inl e, p', c') \<Rightarrow> (Inl e, p', c')
            | (Inr a, p', c') \<Rightarrow>
                push_bytes accept bs (p'\<lparr>pending_cr := True\<rparr>) c' (activity \<or> a))
         else if b = LF then
           (case complete_line_with accept p c of
              (Inl e, p', c') \<Rightarrow> (Inl e, p', c')
            | (Inr a, p', c') \<Rightarrow> push_bytes accept bs p' c' (activity \<or> a))
         else if length (raw_line p) \<ge> lim_line_bytes (limits p)
         then (Inl (ParseRefused (LineTooLong (lim_line_bytes (limits p)))), poison p, c)
         else push_bytes accept bs (p\<lparr>raw_line := raw_line p @ [b]\<rparr>) c activity)"

definition push_with ::
  "('e, 'c) accept \<Rightarrow> bytes \<Rightarrow> sse_parser \<Rightarrow> 'c
     \<Rightarrow> ('e sse_push_error + bool) \<times> sse_parser \<times> 'c" where
  "push_with accept chunk p c =
     (if poisoned p then (Inl (ParseRefused Poisoned), p, c)
      else push_bytes accept chunk p c False)"

text \<open>
  The collector of \<open>push\<close> never refuses; the code marks its refusal \<open>unreachable!\<close>, which
  the model makes the value \<open>None\<close> (a panic).
\<close>

definition collect :: "(unit, bytes list) accept" where
  "collect payload dispatched = (Inr (), dispatched @ [payload])"

definition push :: "bytes \<Rightarrow> sse_parser \<Rightarrow> (sse_parse_error + bytes list) option \<times> sse_parser" where
  "push chunk p =
     (case push_with collect chunk p [] of
        (Inr _, p', dispatched) \<Rightarrow> (Some (Inr dispatched), p')
      | (Inl (ParseRefused e), p', _) \<Rightarrow> (Some (Inl e), p')
      | (Inl (ConsumerRefused _), p', _) \<Rightarrow> (None, p'))"

definition finish :: "sse_parser \<Rightarrow> sse_parse_error + sse_end_of_stream" where
  "finish p =
     (if poisoned p then Inl Poisoned
      else Inr \<lparr>discarded_pending_event = (sse_data p \<noteq> []),
                discarded_partial_line = (raw_line p \<noteq> [])\<rparr>)"

section \<open>The event-stream algorithm on a whole stream\<close>

text \<open>
  The reference: decode the whole stream at once, strip one byte-order mark, cut it into
  terminated lines, and fold the lines into events.  An event is the list of its \<open>data\<close> field
  values joined with line feeds.
\<close>

fun sse_lines :: "bytes \<Rightarrow> bytes \<Rightarrow> bytes list" where
  "sse_lines acc [] = []"
| "sse_lines acc (b # bs) =
     (if b = LF then acc # sse_lines [] bs
      else if b = CR then
        acc # (case bs of [] \<Rightarrow> [] | c # cs \<Rightarrow> sse_lines [] (if c = LF then cs else bs))
      else sse_lines (acc @ [b]) bs)"

fun join_lines :: "bytes list \<Rightarrow> bytes" where
  "join_lines [] = []"
| "join_lines [l] = l"
| "join_lines (l # ls) = l @ LF # join_lines ls"

text \<open>A field: the name up to the first colon, and the value after it without one leading space.\<close>

definition whatwg_field :: "bytes \<Rightarrow> bytes \<times> bytes" where
  "whatwg_field l =
     (takeWhile (\<lambda>c. c \<noteq> CHR '':'') l,
      case dropWhile (\<lambda>c. c \<noteq> CHR '':'') l of
        colon # space # v \<Rightarrow> if space = CHR '' '' then v else space # v
      | _ \<Rightarrow> [])"

fun ref_events :: "bytes list \<Rightarrow> bytes list \<Rightarrow> bytes list" where
  "ref_events fs [] = []"
| "ref_events fs (l # ls) =
     (if l = [] then
        (if fs = [] then ref_events [] ls else join_lines fs # ref_events [] ls)
      else if hd l \<noteq> CHR '':'' \<and> fst (whatwg_field l) = ''data''
      then ref_events (fs @ [snd (whatwg_field l)]) ls
      else ref_events fs ls)"

definition strip_bom :: "bytes \<Rightarrow> bytes" where
  "strip_bom s = (if starts_with s utf8_bom then drop 3 s else s)"

definition whatwg_events :: "bytes \<Rightarrow> bytes list" where
  "whatwg_events s = ref_events [] (sse_lines [] (from_utf8_lossy (strip_bom s)))"

lemma whatwg_field_eq [simp]: "whatwg_field l = line_field l"
proof (cases "position (\<lambda>x. x = CHR '':'') l")
  case None
  then have "\<forall>c \<in> set l. c \<noteq> CHR '':''" by (simp add: position_None_iff)
  then have split: "takeWhile (\<lambda>c. c \<noteq> CHR '':'') l = l" "dropWhile (\<lambda>c. c \<noteq> CHR '':'') l = []" by simp_all
  show ?thesis by (simp add: None whatwg_field_def line_field_def split_once_def split)
next
  case (Some i)
  then obtain xs c ys where l: "l = xs @ c # ys" "length xs = i" "c = CHR '':''" "\<forall>x \<in> set xs. x \<noteq> CHR '':''"
    by (rule position_Some_split)
  then have "takeWhile (\<lambda>c. c \<noteq> CHR '':'') l = xs" "dropWhile (\<lambda>c. c \<noteq> CHR '':'') l = c # ys"
    by (simp_all add: takeWhile_tail)
  with Some l show ?thesis
    by (cases ys) (simp_all add: whatwg_field_def line_field_def split_once_def strip_space_def)
qed

text \<open>Feeding a list of chunks one after the other.\<close>

fun push_all :: "bytes list \<Rightarrow> sse_parser \<Rightarrow> (sse_parse_error + bytes list) option \<times> sse_parser" where
  "push_all [] p = (Some (Inr []), p)"
| "push_all (ch # chs) p =
     (case push ch p of
        (Some (Inr es), p') \<Rightarrow>
          (case push_all chs p' of
             (Some (Inr es'), p'') \<Rightarrow> (Some (Inr (es @ es')), p'')
           | r \<Rightarrow> r)
      | r \<Rightarrow> r)"

section \<open>Invariant\<close>

definition sse_wf :: "sse_parser \<Rightarrow> bool" where
  "sse_wf p \<longleftrightarrow>
     length (raw_line p) \<le> lim_line_bytes (limits p) \<and>
     length (sse_data p) \<le> lim_event_bytes (limits p) \<and>
     event_raw_bytes p \<le> lim_event_bytes (limits p) \<and>
     event_data_lines p \<le> lim_data_lines (limits p) \<and>
     keepalive_lines p \<le> lim_keepalive_lines (limits p) \<and>
     (poisoned p \<longrightarrow> buffered_bytes p = 0)"

lemma poison_simps [simp]:
  "raw_line (poison p) = []" "sse_data (poison p) = []" "event_raw_bytes (poison p) = 0"
  "event_data_lines (poison p) = 0" "keepalive_lines (poison p) = 0" "poisoned (poison p)"
  "limits (poison p) = limits p" "poison (poison p) = poison p"
  by (simp_all add: poison_def)

lemma sse_wf_poison [simp, wf_intros]: "sse_wf (poison p)"
  by (simp add: sse_wf_def buffered_bytes_def)

lemma sse_wf_new [simp, wf_intros]: "sse_wf (sse_new lim)"
  by (simp add: sse_wf_def sse_new_def buffered_bytes_def)

lemma sse_wf_pending_cr [simp]: "sse_wf (p\<lparr>pending_cr := x\<rparr>) = sse_wf p"
  by (simp add: sse_wf_def buffered_bytes_def)

text \<open>
  What one call of a line-level method guarantees: on success the invariant, an unpoisoned
  parser and an empty line buffer; on refusal a poisoned parser.
\<close>

definition line_post ::
  "sse_limits \<Rightarrow> ('e sse_push_error + bool) \<times> sse_parser \<times> 'c \<Rightarrow> bool" where
  "line_post lim r \<longleftrightarrow>
     (case r of
        (Inl e, p', c') \<Rightarrow> limits p' = lim \<and> (\<exists>q. p' = poison q)
      | (Inr a, p', c') \<Rightarrow> limits p' = lim \<and> sse_wf p' \<and> \<not> poisoned p')"

definition process_post ::
  "sse_limits \<Rightarrow> ('e sse_push_error + bool) \<times> sse_parser \<times> 'c \<Rightarrow> bool" where
  "process_post lim r \<longleftrightarrow>
     (case r of
        (Inl (ParseRefused e), p', c') \<Rightarrow> limits p' = lim
      | (Inl (ConsumerRefused e), p', c') \<Rightarrow> limits p' = lim \<and> (\<exists>q. p' = poison q)
      | (Inr a, p', c') \<Rightarrow> limits p' = lim \<and> sse_wf p' \<and> \<not> poisoned p')"

lemma count_post:
  assumes "sse_wf p" and "count_non_dispatching_line p = (r, p')"
  shows "limits p' = limits p \<and> poisoned p' = poisoned p \<and> (is_ok r \<longrightarrow> sse_wf p')"
  using assms
  by (auto simp: count_non_dispatching_line_def sse_wf_def Let_def buffered_bytes_def
      split: if_splits)

lemma append_data_post:
  assumes wf: "sse_wf p" and np: "\<not> poisoned p" and lim: "lim_event_bytes (limits p) < u64_max"
    and r: "append_data v n p = (r, p')"
  shows "case r of Inl e \<Rightarrow> p' = poison p \<and> (\<exists>x. e = ParseRefused x)
         | Inr a \<Rightarrow> limits p' = limits p \<and> sse_wf p' \<and> \<not> poisoned p'"
proof -
  let ?lim = "lim_event_bytes (limits p)"
  have "Suc (length (sse_data p) + length v) \<le> ?lim"
    if "sat_add (sat_add (length (sse_data p)) (length v)) 1 \<le> ?lim"
    using that lim by (auto simp: sat_add_def min_def split: if_splits)
  with wf np r show ?thesis
    by (auto simp: append_data_def sse_wf_def Let_def not_less split: if_splits)
qed

lemma process_line_post:
  assumes wf: "sse_wf p" and np: "\<not> poisoned p" and lim: "lim_event_bytes (limits p) < u64_max"
  shows "process_post (limits p) (process_line_with accept line n p c)"
proof -
  have dispatch: "sse_wf (p\<lparr>sse_data := [], event_raw_bytes := 0, event_data_lines := 0,
      keepalive_lines := 0\<rparr>)"
    using wf np by (simp add: sse_wf_def)
  obtain rc pc where cnt: "count_non_dispatching_line p = (rc, pc)" by force
  obtain ra pa where app: "append_data (snd (line_field line)) n p = (ra :: 'a sse_push_error + bool, pa)"
    by force
  note posts = count_post [OF wf cnt] append_data_post [OF wf np lim app]
  consider "line = []" "sse_data p = []" | "line = []" "sse_data p \<noteq> []"
    | "line \<noteq> []" "hd line = CHR '':''" | "line \<noteq> []" "hd line \<noteq> CHR '':''" by blast
  then show ?thesis
  proof cases
    case 1
    then show ?thesis using posts cnt np
      by (cases rc) (simp_all add: process_line_with_def process_post_def)
  next
    case 2
    then show ?thesis using dispatch np
      by (auto simp: process_line_with_def process_post_def Let_def split: prod.splits sum.splits)
  next
    case 3
    then show ?thesis using posts cnt np
      by (cases rc) (simp_all add: process_line_with_def process_post_def)
  next
    case 4
    then show ?thesis using posts cnt app np
      by (cases rc; cases ra)
        (auto simp: process_line_with_def process_post_def split: prod.splits)
  qed
qed

lemma complete_line_post:
  assumes "sse_wf p" and "\<not> poisoned p" and "lim_event_bytes (limits p) < u64_max"
  shows "line_post (limits p) (complete_line_with accept p c)"
proof -
  define p1 where "p1 = p\<lparr>raw_line := [], bom_window_open := False\<rparr>"
  have p1: "sse_wf p1" "\<not> poisoned p1" "limits p1 = limits p"
    using assms by (simp_all add: p1_def sse_wf_def buffered_bytes_def)
  then have post: "process_post (limits p) (process_line_with accept line n p1 c)" for line n
    using process_line_post [of p1 accept line n c] assms(3) by simp
  have "line_post (limits p)
      (case process_line_with accept line n p1 c of
         (Inr activity, p2, c2) \<Rightarrow> (Inr activity, p2, c2)
       | (Inl (ParseRefused e), p2, c2) \<Rightarrow> (Inl (ParseRefused e), poison p2, c2)
       | (Inl (ConsumerRefused e), p2, c2) \<Rightarrow> (Inl (ConsumerRefused e), p2, c2))" for line n
    using post [of line n]
    by (auto simp: process_post_def line_post_def split: prod.splits sum.splits sse_push_error.splits)
  moreover have "line_post (limits p) (Inl e, poison p1, c)" for e :: "'a sse_push_error"
    using p1 by (auto simp: line_post_def)
  ultimately show ?thesis
    unfolding complete_line_with_def Let_def p1_def [symmetric] by simp
qed

lemma push_bytes_post:
  assumes "sse_wf p" and "\<not> poisoned p" and "lim_event_bytes (limits p) < u64_max"
  shows "line_post (limits p) (push_bytes accept bs p c act)"
  using assms
proof (induction bs arbitrary: p c act)
  case Nil
  then show ?case by (simp add: line_post_def)
next
  case (Cons b bs)
  let ?p = "p\<lparr>pending_cr := False\<rparr>"
  have p: "sse_wf ?p" "\<not> poisoned ?p" "limits ?p = limits p"
    using Cons.prems by simp_all
  have line: "line_post (limits p) (complete_line_with accept ?p c)"
    using complete_line_post [of ?p accept c] p Cons.prems(3) by simp
  have rec: "line_post (limits p) (push_bytes accept bs q c' a)"
    if "sse_wf q" "\<not> poisoned q" "limits q = limits p" for q c' a
    using Cons.IH [OF that(1,2)] that(3) Cons.prems(3) by simp
  have ext: "sse_wf (?p\<lparr>raw_line := raw_line p @ [b]\<rparr>)"
    if "length (raw_line p) < lim_line_bytes (limits p)"
    using that p by (simp add: sse_wf_def)
  obtain r q c' where cl: "complete_line_with accept ?p c = (r, q, c')"
    using prod_cases3 by blast
  have full: "line_post (limits p) (Inl e, poison ?p, c)" for e :: "'a sse_push_error"
    by (auto simp: line_post_def)
  show ?case
  proof (cases r)
    case (Inl e)
    with cl line have "line_post (limits p) (Inl e, q, c')" by simp
    then show ?thesis using Inl cl rec p ext full by (simp add: Let_def)
  next
    case (Inr a)
    with cl line have "sse_wf q" "\<not> poisoned q" "limits q = limits p"
      by (simp_all add: line_post_def)
    then show ?thesis using Inr cl rec p ext full by (simp add: Let_def)
  qed
qed

lemma line_postD:
  assumes "line_post lim (r, p', c')"
  shows "sse_wf p'" "limits p' = lim" "poisoned p' \<longleftrightarrow> \<not> is_ok r"
    "\<not> is_ok r \<Longrightarrow> buffered_bytes p' = 0"
  using assms by (cases r; auto simp: line_post_def buffered_bytes_def)+

section \<open>Chunking\<close>

lemma push_bytes_append:
  "push_bytes accept (xs @ ys) p c act =
     (case push_bytes accept xs p c act of
        (Inl e, p', c') \<Rightarrow> (Inl e, p', c')
      | (Inr a, p', c') \<Rightarrow> push_bytes accept ys p' c' a)"
  by (induction xs arbitrary: p c act) (simp_all add: Let_def split: prod.split sum.split)

lemma push_bytes_activity:
  "push_bytes accept xs p c act =
     (case push_bytes accept xs p c False of
        (Inl e, p', c') \<Rightarrow> (Inl e, p', c')
      | (Inr a, p', c') \<Rightarrow> (Inr (act \<or> a), p', c'))"
proof (induction xs arbitrary: p c act)
  case Nil
  then show ?case by simp
next
  case (Cons x xs)
  have *: "push_bytes accept xs q d (act \<or> a) =
      (case push_bytes accept xs q d a of
        (Inl e, p', c') \<Rightarrow> (Inl e, p', c')
      | (Inr a', p', c') \<Rightarrow> (Inr (act \<or> a'), p', c'))" for q d a
    using Cons.IH [of q d "act \<or> a"] Cons.IH [of q d a]
    by (auto split: prod.splits sum.splits)
  show ?case
    using * [of _ _ False] by (auto simp: Let_def * split: prod.split sum.split)
qed

section \<open>Accepted streams follow the event-stream algorithm\<close>

definition data_buffer :: "bytes list \<Rightarrow> bytes" where
  "data_buffer fs = concat (map (\<lambda>f. f @ [LF]) fs)"

definition skip_lf :: "bool \<Rightarrow> bytes \<Rightarrow> bytes" where
  "skip_lf b bs = (case bs of [] \<Rightarrow> [] | c # cs \<Rightarrow> if b \<and> c = LF then cs else bs)"

definition decode_lines :: "bool \<Rightarrow> bytes list \<Rightarrow> bytes list" where
  "decode_lines first ls =
     (case ls of [] \<Rightarrow> []
      | l # ls' \<Rightarrow> from_utf8_lossy (if first then strip_bom l else l) # map from_utf8_lossy ls')"

lemma data_buffer_simps [simp]:
  "data_buffer [] = []" "data_buffer (f # fs) = f @ LF # data_buffer fs"
  "data_buffer (fs @ gs) = data_buffer fs @ data_buffer gs"
  by (simp_all add: data_buffer_def)

lemma data_buffer_Nil_iff [simp]: "data_buffer fs = [] \<longleftrightarrow> fs = []"
  by (cases fs) simp_all

lemma data_buffer_payload:
  "fs \<noteq> [] \<Longrightarrow> last (data_buffer fs) = LF \<and> butlast (data_buffer fs) = join_lines fs"
  by (induction fs rule: join_lines.induct) (simp_all add: butlast_append)

lemma sse_lines_CR: "sse_lines acc (CR # bs) = acc # sse_lines [] (skip_lf True bs)"
  by (cases bs) (simp_all add: skip_lf_def)

lemma skip_lf_simps [simp]:
  "skip_lf False bs = bs" "skip_lf b [] = []"
  "skip_lf b (c # cs) = (if b \<and> c = LF then cs else c # cs)"
  by (simp_all add: skip_lf_def split: list.splits)

lemma sse_lines_terminator:
  assumes "b = LF \<or> b = CR" and "\<not> (pend \<and> b = LF)"
  shows "sse_lines acc (skip_lf pend (b # bs)) = acc # sse_lines [] (skip_lf (b = CR) bs)"
proof (cases "b = CR")
  case True
  then show ?thesis using sse_lines_CR [of acc bs] by (simp del: sse_lines.simps)
next
  case False
  then show ?thesis using assms by simp
qed

lemma process_line_collect:
  assumes "process_line_with collect line n p ds = (Inr a, p', ds')"
    and "sse_data p = data_buffer fs"
  shows "\<exists>fs'. sse_data p' = data_buffer fs' \<and> raw_line p' = raw_line p
    \<and> bom_window_open p' = bom_window_open p \<and> pending_cr p' = pending_cr p
    \<and> (\<forall>ls. ds' @ ref_events fs' ls = ds @ ref_events fs (line # ls))"
proof -
  consider "line = []" "fs = []" | "line = []" "fs \<noteq> []"
    | "line \<noteq> []" "hd line = CHR '':''"
    | "line \<noteq> []" "hd line \<noteq> CHR '':''" "fst (line_field line) = ''data''"
    | "line \<noteq> []" "hd line \<noteq> CHR '':''" "fst (line_field line) \<noteq> ''data''" by blast
  then show ?thesis
  proof cases
    case 2
    with assms data_buffer_payload [of fs] show ?thesis
      by (intro exI [of _ "[]"]) (auto simp: process_line_with_def Let_def collect_def)
  next
    case 4
    with assms show ?thesis
      by (intro exI [of _ "fs @ [snd (line_field line)]"])
        (auto simp: process_line_with_def append_data_def Let_def split: prod.splits if_splits)
  qed (use assms in \<open>auto simp: process_line_with_def count_non_dispatching_line_def Let_def
      intro!: exI [of _ fs] split: prod.splits if_splits\<close>)
qed

lemma complete_line_collect:
  assumes "complete_line_with collect p ds = (Inr a, p', ds')"
    and "sse_data p = data_buffer fs"
  shows "\<exists>fs'. sse_data p' = data_buffer fs' \<and> raw_line p' = [] \<and> \<not> bom_window_open p'
    \<and> pending_cr p' = pending_cr p
    \<and> (\<forall>ls. ds' @ ref_events fs' ls = ds @ ref_events fs
        (from_utf8_lossy (if bom_window_open p then strip_bom (raw_line p) else raw_line p) # ls))"
proof -
  let ?raw = "if bom_window_open p then strip_bom (raw_line p) else raw_line p"
  let ?p1 = "p\<lparr>raw_line := [], bom_window_open := False\<rparr>"
  have raw: "(if bom_window_open p \<and> starts_with (raw_line p) utf8_bom
      then drop 3 (raw_line p) else raw_line p) = ?raw"
    by (simp add: strip_bom_def)
  from assms(1) have "process_line_with collect (from_utf8_lossy ?raw) (length ?raw) ?p1 ds = (Inr a, p', ds')"
    unfolding complete_line_with_def Let_def raw
    by (auto split: if_splits prod.splits sum.splits sse_push_error.splits)
  from process_line_collect [OF this] assms(2) show ?thesis by auto
qed

lemma push_bytes_collect:
  assumes "push_bytes collect bs p ds act = (Inr a, p', ds')"
    and "sse_data p = data_buffer fs"
  shows "ds' = ds @ ref_events fs
    (decode_lines (bom_window_open p) (sse_lines (raw_line p) (skip_lf (pending_cr p) bs)))"
  using assms
proof (induction bs arbitrary: p ds act fs)
  case Nil
  then show ?case by (simp add: decode_lines_def)
next
  case (Cons b bs)
  let ?p = "p\<lparr>pending_cr := False\<rparr>"
  show ?case
  proof (cases "b = LF \<or> b = CR")
    case False
    with Cons.prems have "push_bytes collect bs (?p\<lparr>raw_line := raw_line p @ [b]\<rparr>) ds act = (Inr a, p', ds')"
      by (auto simp: Let_def split: if_splits)
    from Cons.IH [OF this] Cons.prems(2) False show ?thesis by simp
  next
    case nl: True
    show ?thesis
    proof (cases "pending_cr p \<and> b = LF")
      case True
      with Cons.prems Cons.IH [of ?p ds act fs] show ?thesis by (simp add: Let_def)
    next
      case False
      obtain r q d where cl': "complete_line_with collect ?p ds = (r, q, d)"
        using prod_cases3 by blast
      with nl False Cons.prems(1) obtain a1 where r: "r = Inr a1"
        by (cases r) (auto simp: Let_def)
      note cl = cl' [unfolded r]
      have "q\<lparr>pending_cr := False\<rparr> = q"
        using complete_line_collect [OF cl, of fs] Cons.prems(2) by (cases q) auto
      then have rest: "push_bytes collect bs (q\<lparr>pending_cr := (b = CR)\<rparr>) d (act \<or> a1) = (Inr a, p', ds')"
        using nl False Cons.prems(1) cl by (auto simp: Let_def)
      let ?l = "from_utf8_lossy (if bom_window_open p then strip_bom (raw_line p) else raw_line p)"
      from complete_line_collect [OF cl, of fs] Cons.prems(2) obtain fs' where
        fs': "sse_data q = data_buffer fs'" "raw_line q = []" "\<not> bom_window_open q"
        and ev: "\<And>ls. d @ ref_events fs' ls = ds @ ref_events fs (?l # ls)"
        by auto
      have "ds' = d @ ref_events fs' (map from_utf8_lossy (sse_lines [] (skip_lf (b = CR) bs)))"
        using Cons.IH [OF rest] fs' by (simp add: decode_lines_def split: list.splits)
      also have "\<dots> = ds @ ref_events fs (?l # map from_utf8_lossy (sse_lines [] (skip_lf (b = CR) bs)))"
        by (rule ev)
      also have "?l # map from_utf8_lossy (sse_lines [] (skip_lf (b = CR) bs)) =
          decode_lines (bom_window_open p) (sse_lines (raw_line p) (skip_lf (pending_cr p) (b # bs)))"
        using sse_lines_terminator [OF nl False] by (simp add: decode_lines_def)
      finally show ?thesis .
    qed
  qed
qed

text \<open>Decoding line by line is decoding the whole stream and then cutting it into lines.\<close>

definition is_eol :: "byte \<Rightarrow> bool" where
  "is_eol b \<longleftrightarrow> b = LF \<or> b = CR"

lemma is_eol_LF_CR [simp]: "is_eol LF" "is_eol CR"
  by (simp_all add: is_eol_def)

lemma sse_lines_prefix: "sse_lines acc s = l # ls \<Longrightarrow> \<exists>zs. acc @ s = l @ zs"
proof (induction s arbitrary: acc)
  case (Cons b bs)
  show ?case
  proof (cases "is_eol b")
    case True
    with Cons.prems have "l = acc" by (auto simp: is_eol_def split: if_splits)
    then show ?thesis by simp
  next
    case False
    with Cons.prems Cons.IH [of "acc @ [b]"] show ?thesis by (simp add: is_eol_def)
  qed
qed simp

lemma sse_lines_acc: "sse_lines (a @ acc) s =
    (case sse_lines acc s of [] \<Rightarrow> [] | l # ls \<Rightarrow> (a @ l) # ls)"
proof (induction s arbitrary: acc)
  case (Cons b bs)
  show ?case using Cons.IH [of "acc @ [b]"] by (cases "is_eol b") (auto simp: is_eol_def)
qed simp

lemma sse_lines_no_eol: "\<forall>x \<in> set xs. \<not> is_eol x \<Longrightarrow> sse_lines acc (xs @ ys) = sse_lines (acc @ xs) ys"
  by (induction xs arbitrary: acc) (auto simp: is_eol_def)

lemma lossy_no_eol:
  assumes "\<forall>x \<in> set xs. \<not> is_eol x"
  shows "\<forall>x \<in> set (from_utf8_lossy xs). \<not> is_eol x"
proof -
  have "\<forall>x \<in> set replacement. \<not> is_eol x"
    by (simp add: replacement_def is_eol_def)
  then show ?thesis using assms lossy_set [of xs] by blast
qed

lemma skip_lf_lossy: "from_utf8_lossy (skip_lf pend s) = skip_lf pend (from_utf8_lossy s)"
proof (cases s)
  case (Cons b bs)
  obtain v n where step: "utf8_step (b # bs) = (v, n)" by force
  then have "0 < n" using utf8_step_pos [of b bs] by simp
  show ?thesis
  proof (cases "b = LF")
    case False
    then have "from_utf8_lossy s \<noteq> [] \<and> hd (from_utf8_lossy s) \<noteq> LF"
      using Cons step \<open>0 < n\<close> by (cases n) (auto simp: replacement_def)
    then show ?thesis using Cons False by (cases "from_utf8_lossy s") simp_all
  qed (simp add: Cons)
qed simp

lemma sse_lines_lossy: "map from_utf8_lossy (sse_lines [] s) = sse_lines [] (from_utf8_lossy s)"
proof (induction s rule: length_induct)
  case (1 s)
  show ?case
  proof (cases "\<exists>x \<in> set s. is_eol x")
    case False
    then have "sse_lines [] s = []" "sse_lines [] (from_utf8_lossy s) = []"
      using sse_lines_no_eol [of s "[]" "[]"] sse_lines_no_eol [of "from_utf8_lossy s" "[]" "[]"]
        lossy_no_eol [of s] by simp_all
    then show ?thesis by simp
  next
    case True
    from split_list_first_prop [OF True] obtain xs c ys
      where s: "s = xs @ c # ys" and c: "is_eol c" and xs: "\<forall>x \<in> set xs. \<not> is_eol x"
      by blast
    have nl: "sse_lines [] (zs @ c # ws) = zs # sse_lines [] (skip_lf (c = CR) ws)"
      if "\<forall>x \<in> set zs. \<not> is_eol x" for zs ws
      using sse_lines_no_eol [OF that, of "[]" "c # ws"] sse_lines_terminator [of c False zs ws] c
      by (simp add: is_eol_def)
    have "length (skip_lf (c = CR) ys) < length s"
      using s by (cases ys) simp_all
    then have IH: "map from_utf8_lossy (sse_lines [] (skip_lf (c = CR) ys)) =
        sse_lines [] (from_utf8_lossy (skip_lf (c = CR) ys))"
      using "1" by blast
    have lossy: "from_utf8_lossy s = from_utf8_lossy xs @ c # from_utf8_lossy ys"
      unfolding s using c by (intro from_utf8_lossy_barrier) (auto simp: is_eol_def)
    show ?thesis
      unfolding lossy nl [OF lossy_no_eol [OF xs]]
      unfolding s nl [OF xs] by (simp only: list.map IH skip_lf_lossy)
  qed
qed

lemma starts_with_iff: "starts_with s pre \<longleftrightarrow> (\<exists>t. s = pre @ t)"
  by (metis append_eq_conv_conj append_take_drop_id starts_with_def)

lemma decode_lines_stream:
  "decode_lines True (sse_lines [] s) = sse_lines [] (from_utf8_lossy (strip_bom s))"
proof (cases "starts_with s utf8_bom")
  case True
  then obtain t where s: "s = utf8_bom @ t" by (auto simp: starts_with_iff)
  have strip: "strip_bom (utf8_bom @ l) = l" for l
    by (simp add: strip_bom_def starts_with_def utf8_bom_def)
  have "sse_lines [] s = sse_lines (utf8_bom @ []) t"
    unfolding s by (subst sse_lines_no_eol) (simp_all add: utf8_bom_def is_eol_def)
  also have "\<dots> = (case sse_lines [] t of [] \<Rightarrow> [] | l # ls \<Rightarrow> (utf8_bom @ l) # ls)"
    by (rule sse_lines_acc)
  finally have "decode_lines True (sse_lines [] s) = map from_utf8_lossy (sse_lines [] t)"
    by (simp add: decode_lines_def strip split: list.splits)
  then show ?thesis unfolding s strip by (simp add: sse_lines_lossy)
next
  case False
  have "strip_bom l = l" if "sse_lines [] s = l # ls" for l ls
    using sse_lines_prefix [OF that] False by (auto simp: strip_bom_def starts_with_iff)
  then have "decode_lines True (sse_lines [] s) = map from_utf8_lossy (sse_lines [] s)"
    by (simp add: decode_lines_def split: list.splits)
  then show ?thesis using False by (simp add: strip_bom_def sse_lines_lossy)
qed

section \<open>The streams within the limits\<close>

text \<open>
  The limits as conditions on the whole stream.  The lines are those of the undecoded stream, after the
  byte-order mark.  Of a list of lines read so far, \<open>open_event\<close> is the \<open>data\<close> lines since the last empty
  line, and \<open>idle_lines\<close> (which takes them with the newest first) counts the lines since the last one that carried data or ended an event.
\<close>

fun sse_tail :: "bytes \<Rightarrow> bytes \<Rightarrow> bytes" where
  "sse_tail acc [] = acc"
| "sse_tail acc (b # bs) = (if b = LF \<or> b = CR then sse_tail [] bs else sse_tail (acc @ [b]) bs)"

definition strip_first :: "bool \<Rightarrow> bytes list \<Rightarrow> bytes list" where
  "strip_first first ls =
     (case ls of [] \<Rightarrow> [] | l # ls \<Rightarrow> (if first then strip_bom l else l) # ls)"

definition stream_lines :: "bytes \<Rightarrow> bytes list" where
  "stream_lines s = strip_first True (sse_lines [] s)"

definition data_line :: "bytes \<Rightarrow> bool" where
  "data_line l \<longleftrightarrow> fst (whatwg_field (from_utf8_lossy l)) = ''data''"

definition data_value :: "bytes \<Rightarrow> bytes" where
  "data_value l = snd (whatwg_field (from_utf8_lossy l))"

definition open_event :: "bytes list \<Rightarrow> bytes list" where
  "open_event ls = filter data_line (rev (takeWhile (\<lambda>l. l \<noteq> []) (rev ls)))"

fun idle_lines :: "bytes list \<Rightarrow> nat" where
  "idle_lines [] = 0"
| "idle_lines (l # ls) =
     (if data_line l \<or> l = [] \<and> open_event (rev ls) \<noteq> [] then 0 else Suc (idle_lines ls))"

definition event_fits :: "sse_limits \<Rightarrow> bytes list \<Rightarrow> bool" where
  "event_fits lim ls \<longleftrightarrow>
     sum_list (map (\<lambda>l. length (data_value l) + 1) (open_event ls)) \<le> lim_event_bytes lim \<and>
     sum_list (map length (open_event ls)) \<le> lim_event_bytes lim \<and>
     length (open_event ls) \<le> lim_data_lines lim \<and>
     idle_lines (rev ls) \<le> lim_keepalive_lines lim"

definition within_limits :: "sse_limits \<Rightarrow> bytes \<Rightarrow> bool" where
  "within_limits lim s \<longleftrightarrow>
     list_all (\<lambda>l. length l \<le> lim_line_bytes lim) (sse_tail [] s # sse_lines [] s) \<and>
     list_all (\<lambda>l. length (from_utf8_lossy l) \<le> lim_line_bytes lim) (stream_lines s) \<and>
     list_all (\<lambda>n. event_fits lim (take n (stream_lines s))) [0..<Suc (length (stream_lines s))]"

text \<open>The same condition line by line, after the lines \<open>pre\<close>.\<close>

fun lines_fit :: "sse_limits \<Rightarrow> bytes list \<Rightarrow> bytes list \<Rightarrow> bool" where
  "lines_fit lim pre [] = True"
| "lines_fit lim pre (l # ls) \<longleftrightarrow>
     length (from_utf8_lossy l) \<le> lim_line_bytes lim \<and> event_fits lim (pre @ [l]) \<and>
     lines_fit lim (pre @ [l]) ls"

lemma lines_fit_iff:
  "event_fits lim pre \<Longrightarrow>
   lines_fit lim pre ls \<longleftrightarrow>
     list_all (\<lambda>l. length (from_utf8_lossy l) \<le> lim_line_bytes lim) ls \<and>
     (\<forall>n \<le> length ls. event_fits lim (pre @ take n ls))"
proof (induction ls arbitrary: pre)
  case (Cons l ls)
  have all: "(\<forall>n \<le> Suc k. P n) \<longleftrightarrow> P 0 \<and> (\<forall>n \<le> k. P (Suc n))" for k and P :: "nat \<Rightarrow> bool"
    by (metis Suc_le_mono le0 not0_implies_Suc)
  have "event_fits lim (pre @ [l])" if "\<forall>n \<le> length ls. event_fits lim (pre @ l # take n ls)"
    using that by (metis le0 take_0)
  with Cons.IH [of "pre @ [l]"] Cons.prems show ?case by (auto simp: all)
qed simp

lemma data_line_Nil [simp]: "\<not> data_line []"
  by (simp add: data_line_def line_field_def split_once_def)

lemma open_event_simps [simp]:
  "open_event [] = []"
  "open_event (ls @ [l]) = (if l = [] then [] else if data_line l then open_event ls @ [l] else open_event ls)"
  by (simp_all add: open_event_def)

lemma event_fits_Nil [simp]: "event_fits lim []"
  by (simp add: event_fits_def)

lemma within_limits_lines:
  "within_limits lim s \<longleftrightarrow>
     list_all (\<lambda>l. length l \<le> lim_line_bytes lim) (sse_tail [] s # sse_lines [] s) \<and>
     lines_fit lim [] (stream_lines s)"
  by (auto simp: within_limits_def lines_fit_iff list_all_iff less_Suc_eq_le)

lemma lossy_Nil_iff [simp]: "from_utf8_lossy l = [] \<longleftrightarrow> l = []"
  using utf8_step_pos [of "hd l" "tl l"] by (cases l) (auto simp: replacement_def split: prod.split if_split_asm)

text \<open>The parser has read the lines \<open>pre\<close>, all within the limits.\<close>

definition tracks :: "sse_limits \<Rightarrow> bytes list \<Rightarrow> sse_parser \<Rightarrow> bool" where
  "tracks lim pre p \<longleftrightarrow> limits p = lim \<and> sse_data p = data_buffer (map data_value (open_event pre)) \<and>
     event_raw_bytes p = sum_list (map length (open_event pre)) \<and>
     event_data_lines p = length (open_event pre) \<and> keepalive_lines p = idle_lines (rev pre) \<and>
     event_fits lim pre"

lemma data_buffer_length:
  "length (data_buffer fs) = sum_list (map (\<lambda>f. length f + 1) fs)"
  by (induction fs) simp_all

lemma sat_add_less: "m < u64_max \<Longrightarrow> m < sat_add a b \<longleftrightarrow> m < a + b"
  by (auto simp: sat_add_def)

lemma process_inert_line:
  assumes "l = [] \<and> sse_data p = [] \<or> l \<noteq> [] \<and> \<not> data_line l"
  shows "\<exists>a. process_line_with collect (from_utf8_lossy l) n p ds =
    (case count_non_dispatching_line p of
       (Inl e, p') \<Rightarrow> (Inl (ParseRefused e), p', ds) | (Inr _, p') \<Rightarrow> (Inr a, p', ds))"
  using assms by (auto simp: process_line_with_def data_line_def split: prod.split)

lemma process_data_line:
  assumes "data_line l"
  shows "process_line_with collect (from_utf8_lossy l) n p ds =
    (case append_data (data_value l) n p of (r, p') \<Rightarrow> (r, p', ds))"
proof -
  have "fst (line_field (CHR '':'' # t)) = []" for t
    by (simp add: line_field_def split_once_def)
  then have "from_utf8_lossy l \<noteq> []" "hd (from_utf8_lossy l) \<noteq> CHR '':''"
    using assms by (auto simp: data_line_def simp del: lossy_Nil_iff) (metis data_line_Nil list.collapse assms
        lossy_Nil_iff neq_Nil_conv)+
  with assms show ?thesis
    by (auto simp: process_line_with_def data_line_def data_value_def split: prod.split)
qed

text \<open>One line is taken exactly when the lines read with it are within the limits.\<close>

definition line_outcome ::
  "sse_limits \<Rightarrow> bytes list \<Rightarrow> sse_parser \<Rightarrow> ('e sse_push_error + bool) \<times> sse_parser \<times> 'c \<Rightarrow> bool" where
  "line_outcome lim ls p r \<longleftrightarrow>
     (case r of
        (Inl e, _) \<Rightarrow> \<not> event_fits lim ls
      | (Inr _, p', _) \<Rightarrow> tracks lim ls p' \<and> raw_line p' = raw_line p \<and> pending_cr p' = pending_cr p \<and>
          bom_window_open p' = bom_window_open p)"

lemma process_inert_tracks:
  assumes t: "tracks lim pre p" and lim: "lim_event_bytes lim < u64_max" "lim_keepalive_lines lim < u64_max"
    and l: "l = [] \<and> sse_data p = [] \<or> l \<noteq> [] \<and> \<not> data_line l"
  shows "line_outcome lim (pre @ [l]) p (process_line_with collect (from_utf8_lossy l) (length l) p ds)"
proof -
  note p = t [unfolded tracks_def]
  from l have ev: "open_event (pre @ [l]) = open_event pre" "idle_lines (rev (pre @ [l])) = Suc (idle_lines (rev pre))"
    using p by auto
  let ?k = "Suc (idle_lines (rev pre))"
  have fits: "event_fits lim (pre @ [l]) \<longleftrightarrow> ?k \<le> lim_keepalive_lines lim"
    using p by (simp add: event_fits_def ev del: open_event_simps idle_lines.simps rev_append)
  have sat: "sat_add (keepalive_lines p) 1 = ?k" using p lim(2) by (simp add: event_fits_def sat_add_exact)
  obtain a where a: "process_line_with collect (from_utf8_lossy l) (length l) p ds =
      (case count_non_dispatching_line p of
         (Inl e, p') \<Rightarrow> (Inl (ParseRefused e), p', ds) | (Inr _, p') \<Rightarrow> (Inr a, p', ds))"
    using process_inert_line [OF l, of "length l" ds] by blast
  show ?thesis
  proof (cases "?k \<le> lim_keepalive_lines lim")
    case True
    then show ?thesis
      using p fits unfolding a line_outcome_def tracks_def ev count_non_dispatching_line_def sat Let_def
      by simp
  next
    case False
    then show ?thesis
      using p fits unfolding a line_outcome_def count_non_dispatching_line_def sat Let_def by simp
  qed
qed

lemma process_data_tracks:
  assumes t: "tracks lim pre p" and lim: "lim_event_bytes lim < u64_max" "lim_keepalive_lines lim < u64_max"
    and l: "data_line l"
  shows "line_outcome lim (pre @ [l]) p (process_line_with collect (from_utf8_lossy l) (length l) p ds)"
proof -
  note p = t [unfolded tracks_def]
  from l have ev: "open_event (pre @ [l]) = open_event pre @ [l]" "idle_lines (rev (pre @ [l])) = 0" by auto
  let ?lim = "lim_event_bytes lim" and ?d = "length (sse_data p) + length (data_value l) + 1"
    and ?raw = "event_raw_bytes p + length l" and ?n = "event_data_lines p + 1"
  have old: "length (sse_data p) \<le> ?lim" "event_raw_bytes p \<le> ?lim" "event_data_lines p \<le> length (sse_data p)"
    using p by (simp_all add: event_fits_def data_buffer_length comp_def sum_list_Suc)
  have fits: "event_fits lim (pre @ [l]) \<longleftrightarrow> ?d \<le> ?lim \<and> ?raw \<le> ?lim \<and> ?n \<le> lim_data_lines lim"
    using p by (simp add: event_fits_def ev data_buffer_length comp_def del: open_event_simps rev_append)
  have dec: "sat_add (sat_add (length (sse_data p)) (length (data_value l))) 1 > ?lim \<longleftrightarrow> ?d > ?lim"
    using lim(1) by (auto simp: sat_add_def)
  have raw: "sat_add (event_raw_bytes p) (length l) > ?lim \<longleftrightarrow> ?raw > ?lim"
    using lim(1) by (rule sat_add_less)
  have n: "sat_add (event_data_lines p) 1 = ?n" using old lim(1) by (intro sat_add_exact) simp
  show ?thesis
  proof (cases "?d \<le> ?lim \<and> ?raw \<le> ?lim \<and> ?n \<le> lim_data_lines lim")
    case True
    then have "sat_add (event_raw_bytes p) (length l) = ?raw" using lim(1) by (intro sat_add_exact) simp
    then show ?thesis
      using True p fits dec raw n ev
      by (simp add: process_data_line [OF l] line_outcome_def append_data_def Let_def tracks_def
          del: open_event_simps rev_append)
  next
    case False
    then show ?thesis
      using p fits dec raw n
      by (auto simp: process_data_line [OF l] line_outcome_def append_data_def Let_def)
  qed
qed

lemma process_line_tracks:
  assumes t: "tracks lim pre p" and lim: "lim_event_bytes lim < u64_max" "lim_keepalive_lines lim < u64_max"
  shows "line_outcome lim (pre @ [l]) p (process_line_with collect (from_utf8_lossy l) (length l) p ds)"
proof -
  note p = t [unfolded tracks_def]
  consider "l = [] \<and> sse_data p = [] \<or> l \<noteq> [] \<and> \<not> data_line l"
    | "l = []" "open_event pre \<noteq> []" | "data_line l"
    using p by fastforce
  then show ?thesis
  proof cases
    case 2
    then show ?thesis
      using p by (auto simp: line_outcome_def process_line_with_def collect_def Let_def tracks_def event_fits_def)
  qed (rule process_inert_tracks [OF t lim] process_data_tracks [OF t lim], assumption)+
qed

lemma tracks_update [simp]:
  "tracks lim pre (p\<lparr>raw_line := x\<rparr>) = tracks lim pre p"
  "tracks lim pre (p\<lparr>pending_cr := b\<rparr>) = tracks lim pre p"
  "tracks lim pre (p\<lparr>bom_window_open := b\<rparr>) = tracks lim pre p"
  by (simp_all add: tracks_def)

lemma complete_line_tracks:
  assumes t: "tracks lim pre p" and lim: "lim_event_bytes lim < u64_max" "lim_keepalive_lines lim < u64_max"
    and r: "complete_line_with collect p ds = (r, p', ds')"
  defines "l \<equiv> if bom_window_open p then strip_bom (raw_line p) else raw_line p"
  shows "is_ok r \<longleftrightarrow> lines_fit lim pre [l]"
    and "is_ok r \<Longrightarrow> tracks lim (pre @ [l]) p' \<and> raw_line p' = [] \<and> \<not> bom_window_open p' \<and> pending_cr p' = pending_cr p"
proof -
  let ?p1 = "p\<lparr>raw_line := [], bom_window_open := False\<rparr>"
  have l: "(if bom_window_open p \<and> starts_with (raw_line p) utf8_bom then drop 3 (raw_line p) else raw_line p) = l"
    by (simp add: l_def strip_bom_def)
  obtain q p1 d where q: "process_line_with collect (from_utf8_lossy l) (length l) ?p1 ds = (q, p1, d)"
    using prod_cases3 by blast
  have out: "line_outcome lim (pre @ [l]) ?p1 (q, p1, d)"
    unfolding q [symmetric] by (rule process_line_tracks [OF _ lim]) (simp add: t)
  have "limits p = lim" using t by (simp add: tracks_def)
  then have run: "(r, p', ds') = (if length (from_utf8_lossy l) > lim_line_bytes lim
      then (Inl (ParseRefused (LineTooLong (lim_line_bytes lim))), poison ?p1, ds)
      else (case q of Inr activity \<Rightarrow> (Inr activity, p1, d)
        | Inl (ParseRefused e) \<Rightarrow> (Inl (ParseRefused e), poison p1, d)
        | Inl (ConsumerRefused e) \<Rightarrow> (Inl (ConsumerRefused e), p1, d)))"
    using r q unfolding complete_line_with_def Let_def l by (auto split: sum.split sse_push_error.split)
  show "is_ok r \<longleftrightarrow> lines_fit lim pre [l]"
    and "is_ok r \<Longrightarrow> tracks lim (pre @ [l]) p' \<and> raw_line p' = [] \<and> \<not> bom_window_open p' \<and> pending_cr p' = pending_cr p"
    using run out
    by (auto simp: line_outcome_def tracks_def split: if_split_asm sum.split_asm sse_push_error.split_asm)
qed

text \<open>The line buffer is part of the line or of the unfinished rest it belongs to.\<close>

lemma acc_fits:
  "list_all (\<lambda>l. length l \<le> n) (sse_tail acc s # sse_lines acc s) \<Longrightarrow> length acc \<le> n"
proof (induction s arbitrary: acc)
  case (Cons b bs)
  show ?case
  proof (cases "b = LF \<or> b = CR")
    case False
    then show ?thesis using Cons.IH [of "acc @ [b]"] Cons.prems by simp
  qed (use Cons.prems in auto)
qed simp

lemma strip_first_simps [simp]:
  "strip_first first [] = []" "strip_first False ls = ls"
  "strip_first first (l # ls) = (if first then strip_bom l else l) # ls"
  by (simp_all add: strip_first_def split: list.split)

lemma push_bytes_tracks:
  assumes "tracks lim pre p" and lim: "lim_event_bytes lim < u64_max" "lim_keepalive_lines lim < u64_max"
    and "length (raw_line p) \<le> lim_line_bytes lim" and "pending_cr p \<longrightarrow> raw_line p = []"
  shows "is_ok (fst (push_bytes collect bs p ds act)) \<longleftrightarrow>
    list_all (\<lambda>l. length l \<le> lim_line_bytes lim)
      (sse_tail (raw_line p) bs # sse_lines (raw_line p) (skip_lf (pending_cr p) bs)) \<and>
    lines_fit lim pre (strip_first (bom_window_open p) (sse_lines (raw_line p) (skip_lf (pending_cr p) bs)))"
  using assms(1,4,5)
proof (induction bs arbitrary: pre p ds act)
  case Nil
  then show ?case by (simp add: strip_first_def)
next
  case (Cons b bs)
  let ?p = "p\<lparr>pending_cr := False\<rparr>" and ?L = "lim_line_bytes lim"
  have L: "lim_line_bytes (limits p) = ?L" using Cons.prems(1) by (simp add: tracks_def)
  consider "\<not> (b = LF \<or> b = CR)" | "pending_cr p" "b = LF" | "b = LF \<or> b = CR" "\<not> (pending_cr p \<and> b = LF)"
    by blast
  then show ?case
  proof cases
    case 1
    show ?thesis
    proof (cases "length (raw_line p) \<ge> ?L")
      case True
      then have "\<not> list_all (\<lambda>l. length l \<le> ?L) (sse_tail (raw_line p @ [b]) bs # sse_lines (raw_line p @ [b]) bs)"
        using acc_fits [of ?L "raw_line p @ [b]" bs] by fastforce
      with 1 True L show ?thesis by (auto simp: Let_def)
    next
      case False
      with 1 L Cons.IH [of pre "?p\<lparr>raw_line := raw_line p @ [b]\<rparr>" ds act] Cons.prems show ?thesis
        by (simp add: Let_def)
    qed
  next
    case 2
    with Cons.IH [of pre ?p ds act] Cons.prems show ?thesis by (simp add: Let_def)
  next
    case 3
    obtain r q d where cl: "complete_line_with collect ?p ds = (r, q, d)" using prod_cases3 by blast
    let ?l = "if bom_window_open p then strip_bom (raw_line p) else raw_line p"
    have step: "is_ok r \<longleftrightarrow> lines_fit lim pre [?l]"
      "is_ok r \<Longrightarrow> tracks lim (pre @ [?l]) q \<and> raw_line q = [] \<and> \<not> bom_window_open q \<and> \<not> pending_cr q"
      using complete_line_tracks [OF _ lim cl, of pre] Cons.prems(1) by auto
    have lines: "sse_lines (raw_line p) (skip_lf (pending_cr p) (b # bs)) =
        raw_line p # sse_lines [] (skip_lf (b = CR) bs)"
      by (rule sse_lines_terminator [OF 3])
    have tail: "sse_tail (raw_line p) (b # bs) = sse_tail [] bs" using 3 by simp
    show ?thesis
    proof (cases r)
      case (Inl e)
      then have "fst (push_bytes collect (b # bs) p ds act) = Inl e" using 3 cl by (auto simp: Let_def)
      with Inl step(1) show ?thesis unfolding lines strip_first_simps tail by auto
    next
      case (Inr a)
      have "q\<lparr>pending_cr := False\<rparr> = q" using step(2) Inr by (cases q) simp
      then have "push_bytes collect (b # bs) p ds act =
          push_bytes collect bs (q\<lparr>pending_cr := (b = CR)\<rparr>) d (act \<or> a)"
        using 3 cl Inr by (auto simp: Let_def)
      with Inr step Cons.IH [of "pre @ [?l]" "q\<lparr>pending_cr := (b = CR)\<rparr>" d "act \<or> a"] Cons.prems(2)
      show ?thesis unfolding lines strip_first_simps tail by auto
    qed
  qed
qed

section \<open>Properties\<close>

lemma push_collect_cases:
  assumes "\<not> poisoned p"
  shows "push ch p = (case push_bytes collect ch p [] False of
      (Inr _, p', ds) \<Rightarrow> (Some (Inr ds), p')
    | (Inl (ParseRefused e), p', _) \<Rightarrow> (Some (Inl e), p')
    | (Inl (ConsumerRefused _), p', _) \<Rightarrow> (None, p'))"
  using assms by (simp add: push_def push_with_def)

lemma push_bytes_collect_prefix:
  "push_bytes collect bs p ds act =
     (case push_bytes collect bs p [] act of (r, p', ds') \<Rightarrow> (r, p', ds @ ds'))"
proof -
  have line: "complete_line_with collect q (ds @ ds') =
      (case complete_line_with collect q ds' of (r, p', d) \<Rightarrow> (r, p', ds @ d))" for q ds'
    by (auto simp: complete_line_with_def process_line_with_def collect_def Let_def
        split: prod.splits sum.splits sse_push_error.splits)
  have "push_bytes collect bs p (ds @ ds') act =
     (case push_bytes collect bs p ds' act of (r, p', d) \<Rightarrow> (r, p', ds @ d))" for ds'
    by (induction bs arbitrary: p ds' act)
      (auto simp: Let_def line split: prod.splits sum.splits)
  from this [of "[]"] show ?thesis by simp
qed

lemma process_line_poisoned:
  assumes "process_line_with accept line n p c = (Inr a, p', c')"
  shows "poisoned p' = poisoned p"
proof -
  obtain rc pc where cnt: "count_non_dispatching_line p = (rc, pc)" by force
  then have pc: "poisoned pc = poisoned p"
    by (auto simp: count_non_dispatching_line_def Let_def split: if_split_asm)
  obtain ra pa where app: "append_data (snd (line_field line)) n p = (ra :: 'a sse_push_error + bool, pa)"
    by force
  then have pa: "poisoned pa = poisoned p" if "is_ok ra"
    using that by (auto simp: append_data_def Let_def split: if_split_asm)
  consider "line = []" "sse_data p = []" | "line = []" "sse_data p \<noteq> []"
    | "line \<noteq> []" "hd line = CHR '':''" | "line \<noteq> []" "hd line \<noteq> CHR '':''" by blast
  then show ?thesis
  proof cases
    case 2
    then show ?thesis using assms
      by (auto simp: process_line_with_def Let_def split: prod.split_asm sum.split_asm)
  qed (use assms cnt app pc pa in \<open>auto simp: process_line_with_def Let_def
      split: sum.split_asm prod.split_asm if_split_asm\<close>)
qed

lemma complete_line_poisoned:
  assumes "complete_line_with accept p c = (Inr a, p', c')"
  shows "poisoned p' = poisoned p"
proof -
  obtain line n where
    "process_line_with accept line n (p\<lparr>raw_line := [], bom_window_open := False\<rparr>) c = (Inr a, p', c')"
    using assms unfolding complete_line_with_def Let_def
    by (cases "process_line_with accept
          (from_utf8_lossy (if bom_window_open p \<and> starts_with (raw_line p) utf8_bom
             then drop 3 (raw_line p) else raw_line p))
          (length (if bom_window_open p \<and> starts_with (raw_line p) utf8_bom
             then drop 3 (raw_line p) else raw_line p))
          (p\<lparr>raw_line := [], bom_window_open := False\<rparr>) c")
      (auto split: if_split_asm sum.split_asm sse_push_error.split_asm)
  from process_line_poisoned [OF this] show ?thesis by simp
qed

lemma push_bytes_not_poisoned:
  assumes "push_bytes accept bs p c act = (Inr a, p', c')"
  shows "poisoned p' = poisoned p"
  using assms
proof (induction bs arbitrary: p c act)
  case (Cons b bs)
  obtain r q d where cl: "complete_line_with accept (p\<lparr>pending_cr := False\<rparr>) c = (r, q, d)"
    using prod_cases3 by blast
  show ?case
  proof (cases r)
    case (Inl e)
    with Cons cl show ?thesis by (auto simp: Let_def split: if_split_asm)
  next
    case (Inr x)
    with cl have "poisoned q = poisoned p"
      using complete_line_poisoned [of accept "p\<lparr>pending_cr := False\<rparr>" c x q d] by simp
    with Inr Cons cl show ?thesis by (auto simp: Let_def split: if_split_asm)
  qed
qed simp

lemma push_all_bytes:
  assumes "fst (push_all chs p) = Some (Inr evs)" and "\<not> poisoned p"
  shows "\<exists>a p'. push_bytes collect (concat chs) p [] False = (Inr a, p', evs)"
  using assms
proof (induction chs arbitrary: p evs)
  case (Cons ch chs)
  obtain r q ds where one: "push_bytes collect ch p [] False = (r, q, ds)"
    using prod_cases3 by blast
  from Cons.prems one obtain a where r: "r = Inr a"
    by (cases r) (auto simp: push_collect_cases split: sse_push_error.splits)
  have q: "\<not> poisoned q"
    using push_bytes_not_poisoned [OF one [unfolded r]] Cons.prems(2) by simp
  from Cons.prems one r obtain evs' where rest: "fst (push_all chs q) = Some (Inr evs')" "evs = ds @ evs'"
    by (auto simp: push_collect_cases split: prod.splits option.splits sum.splits)
  from Cons.IH [OF rest(1) q] obtain a' p' where
    "push_bytes collect (concat chs) q [] False = (Inr a', p', evs')" by blast
  then have "push_bytes collect (concat chs) q ds a = (Inr (a \<or> a'), p', ds @ evs')"
    using push_bytes_collect_prefix [of "concat chs" q ds a]
      push_bytes_activity [of collect "concat chs" q "[]" a] by simp
  then show ?case using one r rest by (simp add: push_bytes_append)
qed auto

lemma push_bytes_all:
  assumes "push_bytes collect (concat chs) p [] False = (Inr a, p', evs)" and "\<not> poisoned p"
  shows "fst (push_all chs p) = Some (Inr evs)"
  using assms
proof (induction chs arbitrary: p a p' evs)
  case (Cons ch chs)
  obtain r q ds where one: "push_bytes collect ch p [] False = (r, q, ds)"
    using prod_cases3 by blast
  from Cons.prems one obtain b where r: "r = Inr b"
    by (cases r) (auto simp: push_bytes_append)
  have q: "\<not> poisoned q"
    using push_bytes_not_poisoned [OF one [unfolded r]] Cons.prems(2) by simp
  obtain r' p'' ds' where rest: "push_bytes collect (concat chs) q [] False = (r', p'', ds')"
    using prod_cases3 by blast
  have "push_bytes collect (concat chs) q ds b = (Inr a, p', evs)"
    using Cons.prems(1) one r by (simp add: push_bytes_append)
  then obtain a' where r': "r' = Inr a'" "evs = ds @ ds'"
    using push_bytes_collect_prefix [of "concat chs" q ds b]
      push_bytes_activity [of collect "concat chs" q "[]" b] rest by (cases r') auto
  have "fst (push_all chs q) = Some (Inr ds')"
    using Cons.IH [OF rest [unfolded r'(1)] q] .
  then show ?case using one r r' Cons.prems(2)
    by (cases "push_all chs q") (simp add: push_collect_cases)
qed simp

lemma process_line_refused:
  assumes "process_line_with accept line n p c = (Inl (ConsumerRefused e), p', c')"
  shows "poisoned p'"
  using assms
  by (auto simp: process_line_with_def append_data_def Let_def
      split: if_split_asm prod.split_asm sum.split_asm)

lemma complete_line_refused:
  assumes "complete_line_with accept p c = (Inl e, p', c')"
  shows "poisoned p'"
  using assms
  by (auto simp: complete_line_with_def Let_def dest: process_line_refused
      split: if_split_asm prod.split_asm sum.split_asm sse_push_error.split_asm)

lemma push_bytes_refused:
  assumes "push_bytes accept bs p c act = (Inl e, p', c')"
  shows "poisoned p'"
  using assms
proof (induction bs arbitrary: p c act)
  case (Cons b bs)
  obtain r q d where cl: "complete_line_with accept (p\<lparr>pending_cr := False\<rparr>) c = (r, q, d)"
    using prod_cases3 by blast
  show ?case
  proof (cases r)
    case (Inl e)
    with Cons cl show ?thesis by (auto simp: Let_def dest: complete_line_refused split: if_split_asm)
  next
    case (Inr x)
    with Cons cl show ?thesis by (auto simp: Let_def split: if_split_asm)
  qed
qed simp

lemma process_line_collect_no_refusal:
  "process_line_with collect line n p ds \<noteq> (Inl (ConsumerRefused e), p', ds')"
  by (auto simp: process_line_with_def append_data_def collect_def Let_def
      split: prod.splits sum.splits)

lemma complete_line_collect_no_refusal:
  "complete_line_with collect p ds \<noteq> (Inl (ConsumerRefused e), p', ds')"
  by (auto simp: complete_line_with_def Let_def process_line_collect_no_refusal
      split: prod.splits sum.splits sse_push_error.splits)

lemma push_bytes_collect_no_refusal:
  "push_bytes collect bs p ds act \<noteq> (Inl (ConsumerRefused e), p', ds')"
proof (induction bs arbitrary: p ds act)
  case (Cons b bs)
  obtain r q d where cl: "complete_line_with collect (p\<lparr>pending_cr := False\<rparr>) ds = (r, q, d)"
    using prod_cases3 by blast
  then have "r \<noteq> Inl (ConsumerRefused e)" using complete_line_collect_no_refusal by metis
  with cl Cons.IH show ?case by (cases r) (simp_all add: Let_def)
qed simp

text \<open>
  C1: Whatever the chunking, the payloads the parser dispatches for an accepted stream are
  exactly the events the WHATWG event-stream algorithm assigns to the whole stream, decoded
  once with replacement and stripped of at most one leading byte-order mark.
\<close>

theorem sse_accepted_stream_is_whatwg:
  assumes "fst (push_all chunks (sse_new lim)) = Some (Inr events)"
  shows "events = whatwg_events (concat chunks)"
proof -
  obtain a p' where "push_bytes collect (concat chunks) (sse_new lim) [] False = (Inr a, p', events)"
    using push_all_bytes [OF assms] by (auto simp: sse_new_def)
  from push_bytes_collect [OF this, of "[]"] show ?thesis
    by (simp add: sse_new_def whatwg_events_def decode_lines_stream)
qed

definition sse_example_limits :: sse_limits where
  "sse_example_limits = \<lparr>lim_line_bytes = 64, lim_event_bytes = 64, lim_keepalive_lines = 8,
     lim_data_lines = 8\<rparr>"

lemmas sse_eval = push_def push_with_def complete_line_with_def process_line_with_def
  append_data_def count_non_dispatching_line_def line_field_def split_once_def strip_space_def
  collect_def sse_new_def sse_example_limits_def starts_with_def utf8_bom_def utf8_step.simps
  sat_add_def u64_max_def

lemma sse_example_run:
  "fst (push_all [''data: a'' @ [CR], [LF] @ ''data'', [CR, LF] @ '':x'' @ [LF, LF]]
       (sse_new sse_example_limits)) = Some (Inr [''a'' @ [LF]])"
  by (simp add: sse_eval)

theorem sse_accepted_stream_is_whatwg_witness:
  "[''a'' @ [LF]] =
     whatwg_events (concat [''data: a'' @ [CR], [LF] @ ''data'', [CR, LF] @ '':x'' @ [LF, LF]])"
  by (rule sse_accepted_stream_is_whatwg [OF sse_example_run])

text \<open>
  C15: Cutting a chunk in two changes nothing: the same payloads reach the consumer in the same
  order with the same consumer state, the same refusal or activity flag is reported and the
  parser ends in the same state.  This holds for every consumer, refusing ones included.
\<close>

theorem sse_push_with_append:
  "push_with accept (xs @ ys) p c =
     (case push_with accept xs p c of
        (Inl e, p', c') \<Rightarrow> (Inl e, p', c')
      | (Inr a, p', c') \<Rightarrow>
          (case push_with accept ys p' c' of
             (Inl e, p'', c'') \<Rightarrow> (Inl e, p'', c'')
           | (Inr a', p'', c'') \<Rightarrow> (Inr (a \<or> a'), p'', c'')))"
proof -
  obtain r q d where x: "push_bytes accept xs p c False = (r, q, d)"
    using prod_cases3 by blast
  show ?thesis
  proof (cases r)
    case (Inr a)
    then show ?thesis
      using x push_bytes_activity [of accept ys q d a] push_bytes_not_poisoned [OF x [unfolded Inr]]
      by (simp add: push_with_def push_bytes_append)
  qed (simp add: x push_with_def push_bytes_append)
qed

text \<open>
  C21: Memory bounds.  Whatever bytes arrive and whatever the consumer answers, every push keeps
  the line buffer, the decoded event, the raw event bytes, the data lines and the non-dispatching
  lines within the configured limits, and a parser that refused retains no byte at all.
\<close>

theorem sse_push_keeps_limits:
  assumes "sse_wf p" and "lim_event_bytes (limits p) < u64_max"
    and "push_with accept chunk p c = (r, p', c')"
  shows "sse_wf p' \<and> limits p' = limits p \<and> (poisoned p' \<longleftrightarrow> \<not> is_ok r)
    \<and> (\<not> is_ok r \<longrightarrow> buffered_bytes p' = 0)"
proof (cases "poisoned p")
  case True
  with assms show ?thesis by (auto simp: push_with_def sse_wf_def)
next
  case False
  then have "line_post (limits p) (r, p', c')"
    using push_bytes_post [of p accept chunk c False] assms by (simp add: push_with_def)
  then show ?thesis by (auto dest: line_postD)
qed

theorem sse_push_keeps_limits_witness:
  "\<exists>p'. push_with collect ''data: a'' (sse_new sse_example_limits) [] = (Inr False, p', []) \<and>
        sse_wf p' \<and> buffered_bytes p' = 7"
proof -
  let ?p = "sse_new sse_example_limits"
  have run: "push_with collect ''data: a'' ?p [] = (Inr False, ?p\<lparr>raw_line := ''data: a''\<rparr>, [])"
    by (simp add: sse_eval)
  have "sse_wf (?p\<lparr>raw_line := ''data: a''\<rparr>)"
    using sse_push_keeps_limits [OF sse_wf_new _ run]
    by (simp add: sse_new_def [THEN arg_cong, of limits] sse_example_limits_def u64_max_def)
  with run show ?thesis by (simp add: buffered_bytes_def sse_new_def)
qed

text \<open>
  C2: Exactly the streams within the limits are accepted.  However a stream is cut into chunks, a new parser
  takes all of it if and only if every line, undecoded and decoded, keeps the line limit (the unfinished
  last one undecoded), and after every line the event then open keeps its limits on decoded bytes, raw
  bytes and data lines and the lines since the last data or event keep the limit on idle lines; what it
  dispatches then is exactly the events of the event-stream algorithm.  The limits on event bytes and on
  idle lines are below the largest machine integer, where the counters saturate.
\<close>

theorem sse_accepts_exactly_within_limits:
  assumes "lim_event_bytes lim < u64_max" and "lim_keepalive_lines lim < u64_max"
  shows "fst (push_all chunks (sse_new lim)) = Some (Inr events) \<longleftrightarrow>
    within_limits lim (concat chunks) \<and> events = whatwg_events (concat chunks)"
proof -
  let ?p = "sse_new lim" and ?s = "concat chunks"
  have "tracks lim [] ?p" by (simp add: tracks_def sse_new_def)
  then have ok: "is_ok (fst (push_bytes collect ?s ?p [] False)) \<longleftrightarrow> within_limits lim ?s"
    using push_bytes_tracks [OF _ assms, of "[]" ?p ?s "[]" False]
    by (simp add: within_limits_lines stream_lines_def sse_new_def)
  have "\<exists>a p'. push_bytes collect ?s ?p [] False = (Inr a, p', events) \<and> events = whatwg_events ?s"
    if acc: "fst (push_all chunks ?p) = Some (Inr events)" for events
  proof -
    obtain a p' where run: "push_bytes collect ?s ?p [] False = (Inr a, p', events)"
      using push_all_bytes [OF acc] by (auto simp: sse_new_def)
    from push_bytes_collect [OF run, of "[]"] run show ?thesis
      by (simp add: sse_new_def whatwg_events_def decode_lines_stream)
  qed
  moreover have "\<exists>events. fst (push_all chunks ?p) = Some (Inr events)" if fits: "within_limits lim ?s"
  proof -
    obtain a p' ds where "push_bytes collect ?s ?p [] False = (Inr a, p', ds)"
      using ok fits by (cases "push_bytes collect ?s ?p [] False") (auto simp: is_ok_iff)
    from push_bytes_all [OF this] show ?thesis by (auto simp: sse_new_def)
  qed
  ultimately show ?thesis using ok by (metis fst_conv is_ok.simps(2))
qed

lemmas limits_eval = within_limits_def stream_lines_def strip_first_def strip_bom_def event_fits_def
  open_event_def data_line_def data_value_def upt_rec

theorem sse_accepts_exactly_within_limits_witness:
  "let lim = \<lparr>lim_line_bytes = 6, lim_event_bytes = 6, lim_keepalive_lines = 1, lim_data_lines = 1\<rparr>
   in fst (push_all [''data:x'' @ [LF], [LF] @ ''data'', '':y'' @ [CR, CR]] (sse_new lim)) = Some (Inr [''x'', ''y''])
    \<and> (\<forall>events. fst (push_all [''data:x'' @ [LF], ''data:y'' @ [LF, LF]] (sse_new lim)) \<noteq> Some (Inr events))"
proof -
  let ?lim = "\<lparr>lim_line_bytes = 6, lim_event_bytes = 6, lim_keepalive_lines = 1, lim_data_lines = 1\<rparr>"
  have lim: "lim_event_bytes ?lim < u64_max" "lim_keepalive_lines ?lim < u64_max" by (simp_all add: u64_max_def)
  have "within_limits ?lim (''data:x'' @ LF # LF # ''data:y'' @ [CR, CR])"
    "whatwg_events (''data:x'' @ LF # LF # ''data:y'' @ [CR, CR]) = [''x'', ''y'']"
    "\<not> within_limits ?lim (''data:x'' @ LF # ''data:y'' @ [LF, LF])"
    by (simp_all add: limits_eval whatwg_events_def sse_eval)
  then show ?thesis
    using sse_accepts_exactly_within_limits [OF lim, of "[''data:x'' @ [LF], [LF] @ ''data'', '':y'' @ [CR, CR]]"]
      sse_accepts_exactly_within_limits [OF lim, of "[''data:x'' @ [LF], ''data:y'' @ [LF, LF]]"]
    by (simp add: Let_def)
qed

text \<open>
  Refusal is final.  After any refusal, every later push (by any consumer) reports
  \<open>Poisoned\<close> without calling the consumer or changing the parser, and \<open>finish\<close> reports it too.
\<close>

lemma sse_refusal_is_final:
  assumes "push_with accept chunk p c = (Inl e, p', c')"
  shows "push_with accept' chunk' p' d = (Inl (ParseRefused Poisoned), p', d) \<and>
         finish p' = Inl Poisoned"
proof -
  have "poisoned p'"
  proof (cases "poisoned p")
    case True
    with assms show ?thesis by (simp add: push_with_def)
  next
    case False
    then show ?thesis using push_bytes_refused assms by (simp add: push_with_def)
  qed
  then show ?thesis by (simp add: push_with_def finish_def)
qed

text \<open>
  The \<open>unreachable!\<close> branch of \<open>push\<close> is unreachable: no state and no chunk make it panic.
\<close>

lemma sse_push_never_panics: "fst (push chunk p) \<noteq> None"
  using push_bytes_collect_no_refusal [of chunk p "[]" False]
  by (cases "poisoned p")
    (auto simp: push_collect_cases push_def push_with_def split: prod.splits sum.splits sse_push_error.splits)

end
