(* ===== verification/Modern_Sse.thy ===== *)
theory Modern_Sse
  imports Sse_Parser
begin

text \<open>
  The transport's decoder of request-scoped event streams (\<open>ModernSseDecoder\<close>,
  fastmcp-transport/src/sse.rs): its limits, state and methods in the order of the file, and its
  agreement with the client's parser, which is a separate implementation of the same framing.
\<close>

section \<open>Limits and state\<close>

record modern_sse_limits =
  mlim_line_bytes :: nat
  mlim_event_bytes :: nat
  mlim_keepalive_lines :: nat

definition modern_limits_new :: "nat \<Rightarrow> nat \<Rightarrow> nat \<Rightarrow> modern_sse_limits option" where
  "modern_limits_new line event keepalive =
     (if line = 0 \<or> event = 0 \<or> keepalive = 0 then None
      else Some \<lparr>mlim_line_bytes = line, mlim_event_bytes = event,
                 mlim_keepalive_lines = keepalive\<rparr>)"

datatype modern_sse_parse_error =
    ModernLineTooLong nat
  | ModernEventTooLarge nat
  | ModernKeepaliveFlood nat
  | ModernPoisoned

datatype 'e modern_sse_push_error = ModernParse modern_sse_parse_error | ModernConsumer 'e

record modern_sse_decoder =
  m_limits :: modern_sse_limits
  m_raw_line :: bytes
  m_pending_cr :: bool
  m_bom_window_open :: bool
  m_data :: bytes
  m_event_raw_bytes :: nat
  m_keepalive_lines :: nat
  m_poisoned :: bool

definition modern_new :: "modern_sse_limits \<Rightarrow> modern_sse_decoder" where
  "modern_new lim = \<lparr>m_limits = lim, m_raw_line = [], m_pending_cr = False,
     m_bom_window_open = True, m_data = [], m_event_raw_bytes = 0, m_keepalive_lines = 0,
     m_poisoned = False\<rparr>"

section \<open>Lines\<close>

definition modern_poison :: "modern_sse_decoder \<Rightarrow> modern_sse_decoder" where
  "modern_poison d = d\<lparr>m_raw_line := [], m_data := [], m_event_raw_bytes := 0,
     m_keepalive_lines := 0, m_poisoned := True\<rparr>"

definition poison_push_error ::
  "'e modern_sse_push_error \<Rightarrow> modern_sse_decoder \<Rightarrow> 'e modern_sse_push_error \<times> modern_sse_decoder" where
  "poison_push_error e d =
     (case e of ModernParse x \<Rightarrow> (ModernParse x, modern_poison d)
      | ModernConsumer x \<Rightarrow> (ModernConsumer x, d))"

definition count_inert_line ::
  "modern_sse_decoder \<Rightarrow> ('e modern_sse_push_error + unit) \<times> modern_sse_decoder" where
  "count_inert_line d =
     (let d = d\<lparr>m_keepalive_lines := sat_add (m_keepalive_lines d) 1\<rparr>
      in if m_keepalive_lines d > mlim_keepalive_lines (m_limits d)
         then (Inl (ModernParse (ModernKeepaliveFlood (mlim_keepalive_lines (m_limits d)))), d)
         else (Inr (), d))"

definition modern_append_data ::
  "bytes \<Rightarrow> nat \<Rightarrow> modern_sse_decoder \<Rightarrow> ('e modern_sse_push_error + unit) \<times> modern_sse_decoder" where
  "modern_append_data value raw_len d =
     (let decoded_after = sat_add (sat_add (length (m_data d)) (length value)) 1;
          raw_after = sat_add (m_event_raw_bytes d) raw_len;
          limit = mlim_event_bytes (m_limits d)
      in if decoded_after > limit \<or> raw_after > limit
         then (Inl (ModernParse (ModernEventTooLarge limit)), modern_poison d)
         else (Inr (), d\<lparr>m_data := m_data d @ value @ [LF], m_event_raw_bytes := raw_after,
                 m_keepalive_lines := 0\<rparr>))"

definition modern_process_line ::
  "('e, 'c) accept \<Rightarrow> bytes \<Rightarrow> nat \<Rightarrow> modern_sse_decoder \<Rightarrow> 'c
     \<Rightarrow> ('e modern_sse_push_error + unit) \<times> modern_sse_decoder \<times> 'c" where
  "modern_process_line consume line raw_len d c =
     (if line = [] then
        (if m_data d = [] then (case count_inert_line d of (r, d') \<Rightarrow> (r, d', c))
         else
           (let payload = butlast (m_data d);
                d' = d\<lparr>m_data := [], m_event_raw_bytes := 0, m_keepalive_lines := 0\<rparr>
            in case consume payload c of
                 (Inl e, c') \<Rightarrow> (Inl (ModernConsumer e), d', c')
               | (Inr _, c') \<Rightarrow> (Inr (), d', c')))
      else if hd line = CHR '':'' then (case count_inert_line d of (r, d') \<Rightarrow> (r, d', c))
      else
        (let (field, value) =
           (case split_once (CHR '':'') line of
              Some (field, value) \<Rightarrow> (field, strip_space value)
            | None \<Rightarrow> (line, []))
         in if field \<noteq> ''data'' then (case count_inert_line d of (r, d') \<Rightarrow> (r, d', c))
            else (case modern_append_data value raw_len d of (r, d') \<Rightarrow> (r, d', c))))"

definition modern_complete_line ::
  "('e, 'c) accept \<Rightarrow> modern_sse_decoder \<Rightarrow> 'c
     \<Rightarrow> ('e modern_sse_push_error + unit) \<times> modern_sse_decoder \<times> 'c" where
  "modern_complete_line consume d c =
     (let raw = m_raw_line d;
          raw = (if m_bom_window_open d \<and> starts_with raw utf8_bom then drop 3 raw else raw);
          d = d\<lparr>m_raw_line := [], m_bom_window_open := False\<rparr>;
          line = from_utf8_lossy raw
      in if length line > mlim_line_bytes (m_limits d)
         then (Inl (ModernParse (ModernLineTooLong (mlim_line_bytes (m_limits d)))), modern_poison d, c)
         else modern_process_line consume line (length raw) d c)"

section \<open>Chunks\<close>

fun modern_push_bytes ::
  "('e, 'c) accept \<Rightarrow> bytes \<Rightarrow> modern_sse_decoder \<Rightarrow> 'c
     \<Rightarrow> ('e modern_sse_push_error + unit) \<times> modern_sse_decoder \<times> 'c" where
  "modern_push_bytes consume [] d c = (Inr (), d, c)"
| "modern_push_bytes consume (b # bs) d c =
     (let skip = m_pending_cr d \<and> b = LF; d = d\<lparr>m_pending_cr := False\<rparr>
      in if skip then modern_push_bytes consume bs d c
         else if b = CR then
           (case modern_complete_line consume d c of
              (Inl e, d', c') \<Rightarrow> (case poison_push_error e d' of (e', d'') \<Rightarrow> (Inl e', d'', c'))
            | (Inr _, d', c') \<Rightarrow> modern_push_bytes consume bs (d'\<lparr>m_pending_cr := True\<rparr>) c')
         else if b = LF then
           (case modern_complete_line consume d c of
              (Inl e, d', c') \<Rightarrow> (case poison_push_error e d' of (e', d'') \<Rightarrow> (Inl e', d'', c'))
            | (Inr _, d', c') \<Rightarrow> modern_push_bytes consume bs d' c')
         else if length (m_raw_line d) \<ge> mlim_line_bytes (m_limits d)
         then (Inl (ModernParse (ModernLineTooLong (mlim_line_bytes (m_limits d)))), modern_poison d, c)
         else modern_push_bytes consume bs (d\<lparr>m_raw_line := m_raw_line d @ [b]\<rparr>) c)"

definition modern_push_with ::
  "('e, 'c) accept \<Rightarrow> bytes \<Rightarrow> modern_sse_decoder \<Rightarrow> 'c
     \<Rightarrow> ('e modern_sse_push_error + unit) \<times> modern_sse_decoder \<times> 'c" where
  "modern_push_with consume chunk d c =
     (if m_poisoned d then (Inl (ModernParse ModernPoisoned), d, c)
      else modern_push_bytes consume chunk d c)"

text \<open>
  The consumer of \<open>push\<close> has the empty type as its error; the match on its value has no arm, so
  the model has no result there (\<open>None\<close>).
\<close>

definition modern_push ::
  "bytes \<Rightarrow> modern_sse_decoder \<Rightarrow> (modern_sse_parse_error + bytes list) option \<times> modern_sse_decoder" where
  "modern_push chunk d =
     (case modern_push_with collect chunk d [] of
        (Inr _, d', dispatched) \<Rightarrow> (Some (Inr dispatched), d')
      | (Inl (ModernParse e), d', _) \<Rightarrow> (Some (Inl e), d')
      | (Inl (ModernConsumer _), d', _) \<Rightarrow> (None, d'))"

definition modern_finish :: "modern_sse_decoder \<Rightarrow> modern_sse_parse_error + sse_end_of_stream" where
  "modern_finish d =
     (if m_poisoned d then Inl ModernPoisoned
      else Inr \<lparr>discarded_pending_event = (m_data d \<noteq> []),
                discarded_partial_line = (m_raw_line d \<noteq> [])\<rparr>)"

fun modern_push_all ::
  "bytes list \<Rightarrow> modern_sse_decoder
     \<Rightarrow> (modern_sse_parse_error + bytes list) option \<times> modern_sse_decoder" where
  "modern_push_all [] d = (Some (Inr []), d)"
| "modern_push_all (ch # chs) d =
     (case modern_push ch d of
        (Some (Inr es), d') \<Rightarrow>
          (case modern_push_all chs d' of
             (Some (Inr es'), d'') \<Rightarrow> (Some (Inr (es @ es')), d'')
           | r \<Rightarrow> r)
      | r \<Rightarrow> r)"

section \<open>Agreement with the client's parser\<close>

text \<open>
  The decoder's state is the client parser's state without the count of data lines.  The client's
  limits built by \<open>SseLimits::new\<close> leave the number of data lines unbounded.
\<close>

definition modern_limits_of :: "sse_limits \<Rightarrow> modern_sse_limits" where
  "modern_limits_of l = \<lparr>mlim_line_bytes = lim_line_bytes l, mlim_event_bytes = lim_event_bytes l,
     mlim_keepalive_lines = lim_keepalive_lines l\<rparr>"

definition modern_of :: "sse_parser \<Rightarrow> modern_sse_decoder" where
  "modern_of p = \<lparr>m_limits = modern_limits_of (limits p), m_raw_line = raw_line p,
     m_pending_cr = pending_cr p, m_bom_window_open = bom_window_open p, m_data = sse_data p,
     m_event_raw_bytes = event_raw_bytes p, m_keepalive_lines = keepalive_lines p,
     m_poisoned = poisoned p\<rparr>"

fun modern_error :: "sse_parse_error \<Rightarrow> modern_sse_parse_error option" where
  "modern_error (LineTooLong n) = Some (ModernLineTooLong n)"
| "modern_error (EventTooLarge n) = Some (ModernEventTooLarge n)"
| "modern_error (KeepaliveFlood n) = Some (ModernKeepaliveFlood n)"
| "modern_error (TooManyDataLines n) = None"
| "modern_error Poisoned = Some ModernPoisoned"

text \<open>
  Two outcomes agree when both succeed, both refuse with the same parse error in corresponding
  states, or both pass on the same refusal of the consumer.  In the last case the client's parser is
  poisoned while the decoder stays usable, with the refused event dropped.
\<close>

fun agree ::
  "('e sse_push_error + bool) \<times> sse_parser \<times> 'c
     \<Rightarrow> ('e modern_sse_push_error + unit) \<times> modern_sse_decoder \<times> 'c \<Rightarrow> bool" where
  "agree (Inr _, p, c) (Inr _, d, c') \<longleftrightarrow> d = modern_of p \<and> c' = c"
| "agree (Inl (ParseRefused e), p, c) (Inl (ModernParse e'), d, c') \<longleftrightarrow>
     modern_error e = Some e' \<and> d = modern_of p \<and> c' = c"
| "agree (Inl (ConsumerRefused e), p, c) (Inl (ModernConsumer e'), d, c') \<longleftrightarrow>
     e' = e \<and> m_data d = [] \<and> \<not> m_poisoned d \<and> poisoned p \<and> c' = c"
| "agree _ _ \<longleftrightarrow> False"

lemma modern_of_sels [simp]:
  "m_limits (modern_of p) = modern_limits_of (limits p)" "m_raw_line (modern_of p) = raw_line p"
  "m_pending_cr (modern_of p) = pending_cr p" "m_bom_window_open (modern_of p) = bom_window_open p"
  "m_data (modern_of p) = sse_data p" "m_event_raw_bytes (modern_of p) = event_raw_bytes p"
  "m_keepalive_lines (modern_of p) = keepalive_lines p" "m_poisoned (modern_of p) = poisoned p"
  "mlim_line_bytes (modern_limits_of l) = lim_line_bytes l"
  "mlim_event_bytes (modern_limits_of l) = lim_event_bytes l"
  "mlim_keepalive_lines (modern_limits_of l) = lim_keepalive_lines l"
  by (simp_all add: modern_of_def modern_limits_of_def)

lemma modern_of_updates [simp]:
  "(modern_of p)\<lparr>m_raw_line := x\<rparr> = modern_of (p\<lparr>raw_line := x\<rparr>)"
  "(modern_of p)\<lparr>m_pending_cr := b\<rparr> = modern_of (p\<lparr>pending_cr := b\<rparr>)"
  "(modern_of p)\<lparr>m_bom_window_open := b\<rparr> = modern_of (p\<lparr>bom_window_open := b\<rparr>)"
  "(modern_of p)\<lparr>m_data := x\<rparr> = modern_of (p\<lparr>sse_data := x\<rparr>)"
  "(modern_of p)\<lparr>m_event_raw_bytes := n\<rparr> = modern_of (p\<lparr>event_raw_bytes := n\<rparr>)"
  "(modern_of p)\<lparr>m_keepalive_lines := n\<rparr> = modern_of (p\<lparr>keepalive_lines := n\<rparr>)"
  by (simp_all add: modern_of_def)

lemma modern_of_data_lines [simp]: "modern_of (p\<lparr>event_data_lines := n\<rparr>) = modern_of p"
  by (simp add: modern_of_def)

lemma modern_poison_of [simp]: "modern_poison (modern_of p) = modern_of (poison p)"
  by (simp add: modern_poison_def poison_def modern_of_def)

text \<open>
  What the agreement needs of a client parser: its data lines are not bounded, and a pending event
  ends with the line feed of its last data line.
\<close>

definition unbounded_lines :: "sse_parser \<Rightarrow> bool" where
  "unbounded_lines p \<longleftrightarrow> lim_data_lines (limits p) = u64_max \<and>
     (sse_data p \<noteq> [] \<longrightarrow> last (sse_data p) = LF)"

definition poison_outcome ::
  "('e modern_sse_push_error + unit) \<times> modern_sse_decoder \<times> 'c
     \<Rightarrow> ('e modern_sse_push_error + unit) \<times> modern_sse_decoder \<times> 'c" where
  "poison_outcome r =
     (case r of (Inl e, d, c) \<Rightarrow> (case poison_push_error e d of (e', d') \<Rightarrow> (Inl e', d', c))
      | (Inr _, d, c) \<Rightarrow> (Inr (), d, c))"

lemma unbounded_lines_simps [simp]:
  "unbounded_lines (p\<lparr>pending_cr := b\<rparr>) = unbounded_lines p"
  "unbounded_lines (p\<lparr>raw_line := x\<rparr>) = unbounded_lines p"
  "unbounded_lines (p\<lparr>bom_window_open := b\<rparr>) = unbounded_lines p"
  "unbounded_lines (p\<lparr>keepalive_lines := n\<rparr>) = unbounded_lines p"
  by (simp_all add: unbounded_lines_def)

lemma sat_add_not_above [simp]: "\<not> u64_max < sat_add a b"
  by (simp add: sat_add_def)

text \<open>The state after a line the client's parser accepts or refuses, before the poisoning.\<close>

definition line_agree ::
  "('e sse_push_error + bool) \<times> sse_parser \<times> 'c
     \<Rightarrow> ('e modern_sse_push_error + unit) \<times> modern_sse_decoder \<times> 'c \<Rightarrow> bool" where
  "line_agree r m \<longleftrightarrow>
     agree (case r of (Inl (ParseRefused e), p, c) \<Rightarrow> (Inl (ParseRefused e), poison p, c) | _ \<Rightarrow> r)
       (poison_outcome m) \<and>
     (case r of (Inr _, p, c) \<Rightarrow> unbounded_lines p | _ \<Rightarrow> True)"

lemma count_agree:
  assumes "unbounded_lines p" and "\<not> poisoned p"
  shows "line_agree
    (case count_non_dispatching_line p of
       (Inl e, p') \<Rightarrow> (Inl (ParseRefused e), p', c) | (Inr _, p') \<Rightarrow> (Inr a, p', c))
    (case count_inert_line (modern_of p) of (r, d') \<Rightarrow> (r, d', c))"
  using assms
  by (simp add: count_non_dispatching_line_def count_inert_line_def line_agree_def
      poison_outcome_def poison_push_error_def Let_def)

lemma append_agree:
  assumes "unbounded_lines p"
  shows "line_agree (case append_data v n p of (r, p') \<Rightarrow> (r, p', c))
    (case modern_append_data v n (modern_of p) of (r, d') \<Rightarrow> (r, d', c))"
  using assms
  by (simp add: append_data_def modern_append_data_def line_agree_def poison_outcome_def
      poison_push_error_def Let_def unbounded_lines_def)

lemma dispatch_agree:
  assumes "unbounded_lines p" and "\<not> poisoned p" and "sse_data p \<noteq> []"
  shows "line_agree (process_line_with accept [] n p c)
    (modern_process_line accept [] n (modern_of p) c)"
proof -
  have last: "last (sse_data p) = LF" using assms by (simp add: unbounded_lines_def)
  obtain r c' where acc: "accept (butlast (sse_data p)) c = (r, c')" by force
  show ?thesis using assms last acc
    by (cases r) (simp_all add: process_line_with_def modern_process_line_def line_agree_def
      poison_outcome_def poison_push_error_def Let_def unbounded_lines_def)
qed

lemma process_agree:
  assumes wf: "unbounded_lines p" and np: "\<not> poisoned p"
  shows "line_agree (process_line_with accept line n p c)
    (modern_process_line accept line n (modern_of p) c)"
proof -
  note counts = count_agree [OF wf np, of c] and app = append_agree [OF wf, of c _ n]
  consider "line = []" "sse_data p = []" | "line = []" "sse_data p \<noteq> []"
    | "line \<noteq> []" "hd line = CHR '':''" | "line \<noteq> []" "hd line \<noteq> CHR '':''" by blast
  then show ?thesis
  proof cases
    case 2
    then show ?thesis using dispatch_agree [OF wf np] by simp
  next
    case 4
    obtain f v where fv: "line_field line = (f, v)" by force
    have "(case split_once (CHR '':'') line of
        Some (field, value) \<Rightarrow> (field, strip_space value) | None \<Rightarrow> (line, [])) = (f, v)"
      using fv unfolding line_field_def .
    then show ?thesis
      using 4 fv by (simp add: process_line_with_def modern_process_line_def counts app)
  qed (simp_all add: process_line_with_def modern_process_line_def counts)
qed

lemma complete_agree:
  assumes "unbounded_lines p" and "\<not> poisoned p"
  shows "agree (complete_line_with accept p c)
      (poison_outcome (modern_complete_line accept (modern_of p) c)) \<and>
    (case complete_line_with accept p c of (Inr _, p', _) \<Rightarrow> unbounded_lines p' | _ \<Rightarrow> True)"
proof -
  define raw where "raw = (if bom_window_open p \<and> starts_with (raw_line p) utf8_bom
      then drop 3 (raw_line p) else raw_line p)"
  let ?p = "p\<lparr>raw_line := [], bom_window_open := False\<rparr>"
  have line: "line_agree (process_line_with accept (from_utf8_lossy raw) (length raw) ?p c)
      (modern_process_line accept (from_utf8_lossy raw) (length raw) (modern_of ?p) c)"
    using process_agree [of ?p] assms by simp
  obtain r q d where pl: "process_line_with accept (from_utf8_lossy raw) (length raw) ?p c = (r, q, d)"
    using prod_cases3 by blast
  show ?thesis
  proof (cases "length (from_utf8_lossy raw) > lim_line_bytes (limits p)")
    case True
    then show ?thesis
      by (simp add: complete_line_with_def modern_complete_line_def raw_def Let_def
          poison_outcome_def poison_push_error_def)
  next
    case False
    then have eqs: "complete_line_with accept p c =
        (case (r, q, d) of (Inl (ParseRefused e), p', c') \<Rightarrow> (Inl (ParseRefused e), poison p', c')
         | x \<Rightarrow> x)"
      "modern_complete_line accept (modern_of p) c =
        modern_process_line accept (from_utf8_lossy raw) (length raw) (modern_of ?p) c"
      using pl
      unfolding complete_line_with_def modern_complete_line_def Let_def modern_of_sels raw_def [symmetric]
      by (simp_all split: sum.split sse_push_error.split)
    from line show ?thesis unfolding eqs pl line_agree_def
      by (cases r rule: sum.exhaust) (auto split: sse_push_error.splits)
  qed
qed

lemma push_bytes_agree:
  assumes "unbounded_lines p" and "\<not> poisoned p"
  shows "agree (push_bytes accept bs p c act) (modern_push_bytes accept bs (modern_of p) c) \<and>
    (case push_bytes accept bs p c act of (Inr _, p', _) \<Rightarrow> unbounded_lines p' | _ \<Rightarrow> True)"
  using assms
proof (induction bs arbitrary: p c act)
  case (Cons b bs)
  let ?p = "p\<lparr>pending_cr := False\<rparr>"
  obtain r q d where cl: "complete_line_with accept ?p c = (r, q, d)"
    using prod_cases3 by blast
  obtain r' q' d' where mcl: "modern_complete_line accept (modern_of ?p) c = (r', q', d')"
    using prod_cases3 by blast
  have cagree: "agree (r, q, d) (poison_outcome (r', q', d'))"
    and cwf: "case (r, q, d) of (Inr _, p', _) \<Rightarrow> unbounded_lines p' | _ \<Rightarrow> True"
    using complete_agree [of ?p accept c] Cons.prems cl mcl by simp_all
  show ?case
  proof (cases r)
    case (Inl e)
    with cagree obtain e' where "r' = Inl e'"
      by (cases r'; cases e) (simp_all add: poison_outcome_def)
    with Inl cagree Cons cl mcl show ?thesis
      by (simp add: Let_def poison_outcome_def split: prod.splits)
  next
    case (Inr a)
    with cagree have r': "r' = Inr ()" "q' = modern_of q" "d' = d"
      by (cases r'; auto simp: poison_outcome_def poison_push_error_def
          split: modern_sse_push_error.splits)+
    have q: "unbounded_lines q" "\<not> poisoned q"
      using cwf Inr complete_line_poisoned [of accept ?p c a q d] cl Cons.prems by simp_all
    have IH: "agree (push_bytes accept bs (q\<lparr>pending_cr := x\<rparr>) d y)
          (modern_push_bytes accept bs (modern_of (q\<lparr>pending_cr := x\<rparr>)) d) \<and>
        (case push_bytes accept bs (q\<lparr>pending_cr := x\<rparr>) d y of
           (Inr _, p', _) \<Rightarrow> unbounded_lines p' | _ \<Rightarrow> True)"
      "agree (push_bytes accept bs q d y) (modern_push_bytes accept bs (modern_of q) d) \<and>
        (case push_bytes accept bs q d y of (Inr _, p', _) \<Rightarrow> unbounded_lines p' | _ \<Rightarrow> True)" for x y
      using Cons.IH q by simp_all
    show ?thesis
      using Inr r' cl mcl Cons.prems IH Cons.IH [of ?p c act]
        Cons.IH [of "?p\<lparr>raw_line := raw_line p @ [b]\<rparr>" c act]
      by (simp add: Let_def)
  qed
qed simp

lemma modern_push_accepts:
  assumes "unbounded_lines p" and "push chunk p = (Some (Inr es), p')"
  shows "modern_push chunk (modern_of p) = (Some (Inr es), modern_of p') \<and> unbounded_lines p'"
proof -
  have np: "\<not> poisoned p" using assms(2) by (auto simp: push_def push_with_def)
  obtain r q d where run: "push_bytes collect chunk p [] False = (r, q, d)"
    using prod_cases3 by blast
  obtain r' q' d' where mrun: "modern_push_bytes collect chunk (modern_of p) [] = (r', q', d')"
    using prod_cases3 by blast
  from assms(2) run np obtain a where r: "r = Inr a" "d = es" "q = p'"
    by (cases r) (auto simp: push_collect_cases split: sse_push_error.splits)
  from push_bytes_agree [OF assms(1) np, of collect chunk "[]" False] run mrun r
  have "r' = Inr () \<and> q' = modern_of p' \<and> d' = es \<and> unbounded_lines p'"
    by (cases r') simp_all
  with mrun np show ?thesis by (simp add: modern_push_def modern_push_with_def)
qed

lemma modern_push_all_accepts:
  assumes "unbounded_lines p" and "fst (push_all chs p) = Some (Inr es)"
  shows "fst (modern_push_all chs (modern_of p)) = Some (Inr es)"
  using assms
proof (induction chs arbitrary: p es)
  case (Cons ch chs)
  obtain es1 p1 where one: "push ch p = (Some (Inr es1), p1)"
    using Cons.prems(2) by (auto split: prod.splits option.splits sum.splits)
  obtain es2 where rest: "fst (push_all chs p1) = Some (Inr es2)" "es = es1 @ es2"
    using Cons.prems(2) one by (auto split: prod.splits option.splits sum.splits)
  note m = modern_push_accepts [OF Cons.prems(1) one]
  have "fst (modern_push_all chs (modern_of p1)) = Some (Inr es2)"
    using Cons.IH rest(1) m by blast
  then show ?case using m rest(2)
    by (cases "modern_push_all chs (modern_of p1)") simp
qed simp

text \<open>
  C12: The transport's decoder and the client's parser, two implementations of event-stream framing,
  agree on every chunk from every pair of corresponding states when the client's number of data
  lines is unbounded, as \<open>SseLimits::new\<close> leaves it.  They accept the same chunks, hand the same
  payloads to the consumer in the same order, and refuse with the same error in corresponding
  states.  Only when the consumer itself refuses an event do they part: the client's parser is
  poisoned, the decoder drops the event and stays usable.
\<close>

theorem modern_decoder_agrees:
  assumes "unbounded_lines p"
  shows "agree (push_with accept chunk p c) (modern_push_with accept chunk (modern_of p) c)"
  using push_bytes_agree [OF assms, of accept chunk c False]
  by (simp add: push_with_def modern_push_with_def)

theorem modern_decoder_agrees_witness:
  "agree (push_with collect (''data: a'' @ [CR, LF, LF]) (sse_new
       \<lparr>lim_line_bytes = 9, lim_event_bytes = 9, lim_keepalive_lines = 9, lim_data_lines = u64_max\<rparr>) [])
     (modern_push_with collect (''data: a'' @ [CR, LF, LF])
       (modern_new \<lparr>mlim_line_bytes = 9, mlim_event_bytes = 9, mlim_keepalive_lines = 9\<rparr>) [])"
proof -
  let ?p = "sse_new
     \<lparr>lim_line_bytes = 9, lim_event_bytes = 9, lim_keepalive_lines = 9, lim_data_lines = u64_max\<rparr>"
  have "modern_of ?p =
      modern_new \<lparr>mlim_line_bytes = 9, mlim_event_bytes = 9, mlim_keepalive_lines = 9\<rparr>"
    by (simp add: modern_of_def modern_limits_of_def modern_new_def sse_new_def)
  then show ?thesis
    using modern_decoder_agrees [of ?p collect "''data: a'' @ [CR, LF, LF]" "[]"]
    by (simp add: unbounded_lines_def sse_new_def)
qed

end
