(* ===== verification/Sse_Wire.thy ===== *)
theory Sse_Wire
  imports Sse_Parser
begin

text \<open>
  The legacy event-stream wire of the transport (fastmcp-transport/src/sse.rs): events and their
  frames, the writer that commits frames, and the reader.

  The budget of a call (\<open>Cx\<close>) is the list of the answers its checkpoints will give; when the list is
  used up the budget lasts.  The output of a writer keeps the bytes it has accepted and the answers
  its next \<open>write\<close> and \<open>flush\<close> calls will give; when they are used up a write takes the whole buffer
  and a flush succeeds.  The input of a reader is the unread part of its buffer and the answers of
  the reads to come; when they are used up the input is at its end.
\<close>

section \<open>Budget and errors\<close>

datatype cancel_kind = DeadlineKind | TimeoutKind | OtherKind

datatype error_kind =
  DeadlineExceeded | CancelTimeout | CancelledError | PollQuotaExhausted | CostQuotaExhausted
  | OtherError

datatype checkpoint = Within | Exhausted "cancel_kind option" error_kind

type_synonym cx = "checkpoint list"

datatype io_error = WriteZero | InvalidData | InvalidInput bytes | AlreadyExists | OtherIo

text \<open>The errors of the codec, without the parse errors they wrap.\<close>

datatype codec_error = JsonError | InvalidMessage | MessageTooLarge nat

datatype transport_error =
    Io io_error
  | Closed
  | Codec codec_error
  | Timeout
  | ReceiveDeadlineExceeded
  | ControlFrameTooLarge nat nat
  | Cancelled

definition budget_error :: "cancel_kind option \<Rightarrow> error_kind \<Rightarrow> transport_error" where
  "budget_error reason kind =
     (case reason of
        Some DeadlineKind \<Rightarrow> Timeout
      | Some TimeoutKind \<Rightarrow> Timeout
      | Some _ \<Rightarrow> Cancelled
      | None \<Rightarrow> (case kind of DeadlineExceeded \<Rightarrow> Timeout | CancelTimeout \<Rightarrow> Timeout | _ \<Rightarrow> Cancelled))"

fun sse_checkpoint :: "cx \<Rightarrow> (transport_error + unit) \<times> cx" where
  "sse_checkpoint [] = (Inr (), [])"
| "sse_checkpoint (Within # cx) = (Inr (), cx)"
| "sse_checkpoint (Exhausted reason kind # cx) = (Inl (budget_error reason kind), cx)"

section \<open>Committing a frame\<close>

datatype write_answer = Wrote nat | WriteInterrupted | WriteFailed
datatype flush_answer = Flushed | FlushInterrupted | FlushFailed

record sse_out =
  out_accepted :: bytes
  out_writes :: "write_answer list"
  out_flushes :: "flush_answer list"

definition out_write :: "bytes \<Rightarrow> sse_out \<Rightarrow> write_answer \<times> sse_out" where
  "out_write bs w =
     (case out_writes w of
        [] \<Rightarrow> (Wrote (length bs), w\<lparr>out_accepted := out_accepted w @ bs\<rparr>)
      | a # as \<Rightarrow>
          (a, w\<lparr>out_writes := as,
                out_accepted := out_accepted w @ (case a of Wrote n \<Rightarrow> take n bs | _ \<Rightarrow> [])\<rparr>))"

definition out_flush :: "sse_out \<Rightarrow> flush_answer \<times> sse_out" where
  "out_flush w =
     (case out_flushes w of [] \<Rightarrow> (Flushed, w) | a # as \<Rightarrow> (a, w\<lparr>out_flushes := as\<rparr>))"

text \<open>The write loop of \<open>sse_commit_frame\<close>; it returns \<open>wrote_any\<close>, and \<open>closed\<close> at the end.\<close>

function commit_write ::
  "cx \<Rightarrow> sse_out \<Rightarrow> bool \<Rightarrow> bool \<Rightarrow> bytes \<Rightarrow> (transport_error + bool) \<times> cx \<times> sse_out \<times> bool" where
  "commit_write cx w closed wrote_any bs =
     (if bs = [] then (Inr wrote_any, cx, w, closed)
      else (case sse_checkpoint cx of
        (Inl e, cx') \<Rightarrow> (Inl e, cx', w, closed \<or> wrote_any)
      | (Inr _, cx') \<Rightarrow>
          (case out_write bs w of
             (Wrote n, w') \<Rightarrow>
               (if n = 0 then (Inl (Io WriteZero), cx', w', True)
                else if n > length bs then (Inl (Io InvalidData), cx', w', True)
                else commit_write cx' w' closed True (drop n bs))
           | (WriteInterrupted, w') \<Rightarrow> commit_write cx' w' closed wrote_any bs
           | (WriteFailed, w') \<Rightarrow> (Inl (Io OtherIo), cx', w', True))))"
  by pat_completeness auto

termination
  by (relation "measure (\<lambda>(cx, w, closed, wrote_any, bs). length (out_writes w) + length bs)")
    (auto simp: out_write_def split: list.split_asm write_answer.split_asm)

function commit_flush ::
  "cx \<Rightarrow> sse_out \<Rightarrow> bool \<Rightarrow> bool \<Rightarrow> (transport_error + unit) \<times> cx \<times> sse_out \<times> bool" where
  "commit_flush cx w closed wrote_any =
     (case sse_checkpoint cx of
        (Inl e, cx') \<Rightarrow> (Inl e, cx', w, closed \<or> wrote_any)
      | (Inr _, cx') \<Rightarrow>
          (case out_flush w of
             (Flushed, w') \<Rightarrow> (Inr (), cx', w', closed)
           | (FlushInterrupted, w') \<Rightarrow> commit_flush cx' w' closed wrote_any
           | (FlushFailed, w') \<Rightarrow> (Inl (Io OtherIo), cx', w', True)))"
  by pat_completeness auto

termination
  by (relation "measure (\<lambda>(cx, w, closed, wrote_any). length (out_flushes w))")
    (auto simp: out_flush_def split: list.split_asm)

declare commit_write.simps [simp del]
declare commit_flush.simps [simp del]

definition sse_commit_frame ::
  "cx \<Rightarrow> sse_out \<Rightarrow> bool \<Rightarrow> bytes \<Rightarrow> (transport_error + unit) \<times> cx \<times> sse_out \<times> bool" where
  "sse_commit_frame cx w closed bs =
     (case commit_write cx w closed False bs of
        (Inl e, cx', w', closed') \<Rightarrow> (Inl e, cx', w', closed')
      | (Inr wrote_any, cx', w', closed') \<Rightarrow> commit_flush cx' w' closed' wrote_any)"

section \<open>Events\<close>

definition max_sse_line_size :: nat where
  "max_sse_line_size = 64 * 1024"

definition sse_data_line_wire_overhead :: nat where
  "sse_data_line_wire_overhead = length (''data: '' @ [LF])"

definition max_sse_message_size :: nat where
  "max_sse_message_size = max_sse_line_size - sse_data_line_wire_overhead"

datatype sse_event_type = Endpoint | Message

fun as_str :: "sse_event_type \<Rightarrow> bytes" where
  "as_str Endpoint = ''endpoint''"
| "as_str Message = ''message''"

definition event_type_from_str :: "bytes \<Rightarrow> sse_event_type option" where
  "event_type_from_str s =
     (if s = ''endpoint'' then Some Endpoint else if s = ''message'' then Some Message else None)"

record sse_event =
  ev_type :: sse_event_type
  ev_data :: bytes
  ev_id :: "bytes option"
  ev_retry :: "nat option"

definition endpoint_event :: "bytes \<Rightarrow> sse_event" where
  "endpoint_event url = \<lparr>ev_type = Endpoint, ev_data = url, ev_id = None, ev_retry = None\<rparr>"

definition message_event :: "bytes \<Rightarrow> sse_event" where
  "message_event d = \<lparr>ev_type = Message, ev_data = d, ev_id = None, ev_retry = None\<rparr>"

definition with_id :: "bytes \<Rightarrow> sse_event \<Rightarrow> sse_event" where
  "with_id i ev = ev\<lparr>ev_id := Some i\<rparr>"

definition with_retry :: "nat \<Rightarrow> sse_event \<Rightarrow> sse_event" where
  "with_retry ms ev = ev\<lparr>ev_retry := Some ms\<rparr>"

text \<open>\<open>str::split('\n')\<close>, and the lines of a payload without the carriage return of a CRLF.\<close>

fun split_lf :: "bytes \<Rightarrow> bytes list" where
  "split_lf [] = [[]]"
| "split_lf (c # cs) =
     (if c = LF then [] # split_lf cs
      else (case split_lf cs of l # ls \<Rightarrow> (c # l) # ls | [] \<Rightarrow> [[c]]))"

definition strip_cr :: "bytes \<Rightarrow> bytes" where
  "strip_cr l = (case strip_suffix l [CR] of Some l' \<Rightarrow> l' | None \<Rightarrow> l)"

definition payload_lines :: "bytes \<Rightarrow> bytes list" where
  "payload_lines d = map strip_cr (split_lf d)"

fun has_invalid_sse_data_characters :: "bytes \<Rightarrow> bool" where
  "has_invalid_sse_data_characters [] = False"
| "has_invalid_sse_data_characters (b # bs) =
     ((if b = CHR 0x00 then True
       else if b = CR then (case bs of [] \<Rightarrow> True | c # _ \<Rightarrow> c \<noteq> LF)
       else False) \<or> has_invalid_sse_data_characters bs)"

definition has_control :: "bytes \<Rightarrow> bool" where
  "has_control bs = list_ex (\<lambda>b. b = CR \<or> b = LF \<or> b = CHR 0x00) bs"

definition invalid_sse_field :: "bytes \<Rightarrow> transport_error" where
  "invalid_sse_field field = Io (InvalidInput field)"

fun validate_lines :: "bytes list \<Rightarrow> transport_error + unit" where
  "validate_lines [] = Inr ()"
| "validate_lines (l # ls) =
     (if sat_add (length l) sse_data_line_wire_overhead > max_sse_line_size
      then Inl (Codec (MessageTooLarge (length l))) else validate_lines ls)"

definition validate_id :: "bytes option \<Rightarrow> transport_error + unit" where
  "validate_id i =
     (case i of None \<Rightarrow> Inr ()
      | Some i \<Rightarrow>
          if has_control i then Inl (invalid_sse_field ''event ID'')
          else if sat_add (length i) (length (''id: '' @ [LF])) > max_sse_line_size
          then Inl (Codec (MessageTooLarge (length i)))
          else Inr ())"

definition validate_event :: "sse_event \<Rightarrow> transport_error + unit" where
  "validate_event ev =
     (if length (ev_data ev) > max_sse_message_size
      then Inl (Codec (MessageTooLarge (length (ev_data ev))))
      else if has_invalid_sse_data_characters (ev_data ev)
      then Inl (invalid_sse_field ''event data'')
      else case validate_lines (payload_lines (ev_data ev)) of
        Inl e \<Rightarrow> Inl e
      | Inr _ \<Rightarrow>
          if ev_type ev = Endpoint \<and> has_control (ev_data ev)
          then Inl (invalid_sse_field ''endpoint data'')
          else validate_id (ev_id ev))"

definition event_lines :: "sse_event \<Rightarrow> bytes list" where
  "event_lines ev =
     [''event: '' @ as_str (ev_type ev)]
     @ (case ev_id ev of Some i \<Rightarrow> [''id: '' @ i] | None \<Rightarrow> [])
     @ (case ev_retry ev of Some r \<Rightarrow> [''retry: '' @ show_nat r] | None \<Rightarrow> [])
     @ map (\<lambda>l. ''data: '' @ l) (payload_lines (ev_data ev))
     @ [[]]"

definition to_bytes :: "sse_event \<Rightarrow> transport_error + bytes" where
  "to_bytes ev =
     (case validate_event ev of Inl e \<Rightarrow> Inl e
      | Inr _ \<Rightarrow> Inr (concat (map (\<lambda>l. l @ [LF]) (event_lines ev))))"

section \<open>The writer\<close>

record sse_writer =
  wr_out :: sse_out
  wr_event_counter :: nat
  wr_closed :: bool

definition writer_new :: "sse_out \<Rightarrow> sse_writer" where
  "writer_new out = \<lparr>wr_out = out, wr_event_counter = 0, wr_closed = False\<rparr>"

definition writer_commit ::
  "cx \<Rightarrow> bytes \<Rightarrow> sse_writer \<Rightarrow> (transport_error + unit) \<times> cx \<times> sse_writer" where
  "writer_commit cx bs w =
     (case sse_commit_frame cx (wr_out w) (wr_closed w) bs of
        (r, cx, out, closed) \<Rightarrow> (r, cx, w\<lparr>wr_out := out, wr_closed := closed\<rparr>))"

definition write_event ::
  "cx \<Rightarrow> sse_event \<Rightarrow> sse_writer \<Rightarrow> (transport_error + unit) \<times> cx \<times> sse_writer" where
  "write_event cx ev w =
     (if wr_closed w then (Inl Closed, cx, w)
      else case sse_checkpoint cx of
        (Inl e, cx) \<Rightarrow> (Inl e, cx, w)
      | (Inr _, cx) \<Rightarrow>
          (case to_bytes ev of
             Inl e \<Rightarrow> (Inl e, cx, w)
           | Inr bs \<Rightarrow> writer_commit cx bs w))"

definition write_endpoint ::
  "cx \<Rightarrow> bytes \<Rightarrow> sse_writer \<Rightarrow> (transport_error + unit) \<times> cx \<times> sse_writer" where
  "write_endpoint cx url w = write_event cx (endpoint_event url) w"

text \<open>\<open>encode\<close> is the codec's encoder of requests and responses, which ends a message with LF.\<close>

definition write_message ::
  "('m \<Rightarrow> transport_error + bytes) \<Rightarrow> cx \<Rightarrow> 'm \<Rightarrow> sse_writer
     \<Rightarrow> (transport_error + unit) \<times> cx \<times> sse_writer" where
  "write_message encode cx m w =
     (if wr_closed w then (Inl Closed, cx, w)
      else case sse_checkpoint cx of
        (Inl e, cx) \<Rightarrow> (Inl e, cx, w)
      | (Inr _, cx) \<Rightarrow>
          (case encode m of
             Inl e \<Rightarrow> (Inl e, cx, w)
           | Inr encoded \<Rightarrow>
               if encoded = [] \<or> last encoded \<noteq> LF then (Inl (Io InvalidData), cx, w)
               else if \<not> utf8_valid (butlast encoded) then (Inl (Io InvalidData), cx, w)
               else (case checked_add (wr_event_counter w) 1 of
                  None \<Rightarrow> (Inl (invalid_sse_field ''event ID counter''), cx, w)
                | Some next_event_id \<Rightarrow>
                    (case write_event cx
                        (with_id (show_nat next_event_id) (message_event (butlast encoded))) w of
                       (Inl e, cx, w) \<Rightarrow> (Inl e, cx, w)
                     | (Inr _, cx, w) \<Rightarrow> (Inr (), cx, w\<lparr>wr_event_counter := next_event_id\<rparr>)))))"

definition write_comment ::
  "cx \<Rightarrow> bytes \<Rightarrow> sse_writer \<Rightarrow> (transport_error + unit) \<times> cx \<times> sse_writer" where
  "write_comment cx comment w =
     (if wr_closed w then (Inl Closed, cx, w)
      else case sse_checkpoint cx of
        (Inl e, cx) \<Rightarrow> (Inl e, cx, w)
      | (Inr _, cx) \<Rightarrow>
          if has_control comment then (Inl (invalid_sse_field ''comment''), cx, w)
          else if sat_add (length comment) (length ('': '' @ [LF])) > max_sse_line_size
          then (Inl (Codec (MessageTooLarge (length comment))), cx, w)
          else writer_commit cx ('': '' @ comment @ [LF]) w)"

definition keep_alive :: "cx \<Rightarrow> sse_writer \<Rightarrow> (transport_error + unit) \<times> cx \<times> sse_writer" where
  "keep_alive cx w = write_comment cx ''keep-alive'' w"

definition writer_close :: "cx \<Rightarrow> sse_writer \<Rightarrow> (transport_error + unit) \<times> cx \<times> sse_writer" where
  "writer_close cx w =
     (if wr_closed w then (Inr (), cx, w)
      else case sse_checkpoint cx of
        (Inl e, cx) \<Rightarrow> (Inl e, cx, w)
      | (Inr _, cx) \<Rightarrow>
          (case out_flush (wr_out w) of
             (Flushed, out) \<Rightarrow> (Inr (), cx, w\<lparr>wr_closed := True, wr_out := out\<rparr>)
           | (_, out) \<Rightarrow> (Inl (Io OtherIo), cx, w\<lparr>wr_closed := True, wr_out := out\<rparr>)))"

section \<open>The reader\<close>

datatype read_answer = Chunk bytes | ReadInterrupted | ReadFailed

record sse_reader =
  rd_buffer :: bytes
  rd_reads :: "read_answer list"
  rd_line_buffer :: bytes
  rd_max_line_size :: nat
  rd_terminal :: bool
  rd_discard_lf_after_cr :: bool
  rd_last_event_id :: "bytes option"
  rd_reconnection_time :: "nat option"

definition reader_new :: "read_answer list \<Rightarrow> sse_reader" where
  "reader_new reads = \<lparr>rd_buffer = [], rd_reads = reads, rd_line_buffer = [],
     rd_max_line_size = max_sse_line_size, rd_terminal = False, rd_discard_lf_after_cr = False,
     rd_last_event_id = None, rd_reconnection_time = None\<rparr>"

text \<open>\<open>BufReader::fill_buf\<close>: the unread bytes, or what one read of the source gives.\<close>

definition fill_buf :: "sse_reader \<Rightarrow> read_answer \<times> sse_reader" where
  "fill_buf r =
     (if rd_buffer r \<noteq> [] then (Chunk (rd_buffer r), r)
      else case rd_reads r of
        [] \<Rightarrow> (Chunk [], r)
      | Chunk bs # as \<Rightarrow> (Chunk bs, r\<lparr>rd_buffer := bs, rd_reads := as\<rparr>)
      | a # as \<Rightarrow> (a, r\<lparr>rd_reads := as\<rparr>))"

definition consume :: "nat \<Rightarrow> sse_reader \<Rightarrow> sse_reader" where
  "consume n r = r\<lparr>rd_buffer := drop n (rd_buffer r)\<rparr>"

fun answer_size :: "read_answer \<Rightarrow> nat" where
  "answer_size (Chunk bs) = Suc (length bs)"
| "answer_size ReadInterrupted = 1"
| "answer_size ReadFailed = 1"

definition input_size :: "sse_reader \<Rightarrow> nat" where
  "input_size r = length (rd_buffer r) + sum_list (map answer_size (rd_reads r))"

lemma fill_buf_size:
  assumes "fill_buf r = (a, r')"
  shows "case a of Chunk bs \<Rightarrow> input_size r' \<le> input_size r \<and> rd_buffer r' = bs
      | _ \<Rightarrow> input_size r' < input_size r"
  using assms
  by (auto simp: fill_buf_def input_size_def split: if_split_asm list.split_asm read_answer.split_asm)

lemma input_size_consume:
  "0 < n \<Longrightarrow> rd_buffer r \<noteq> [] \<Longrightarrow> input_size (consume n r) < input_size r"
  by (cases "rd_buffer r") (simp_all add: input_size_def consume_def)

lemma input_size_updates [simp]:
  "input_size (r\<lparr>rd_discard_lf_after_cr := b\<rparr>) = input_size r"
  "input_size (r\<lparr>rd_line_buffer := l\<rparr>) = input_size r"
  "input_size (r\<lparr>rd_terminal := b\<rparr>) = input_size r"
  "input_size (r\<lparr>rd_last_event_id := i\<rparr>) = input_size r"
  "input_size (r\<lparr>rd_reconnection_time := t\<rparr>) = input_size r"
  by (simp_all add: input_size_def)

text \<open>
  \<open>read_line_bounded\<close>, with \<open>total_read\<close> and \<open>consumed_input\<close> as they are in its loop.
\<close>

function read_line_bounded ::
  "cx \<Rightarrow> nat \<Rightarrow> bool \<Rightarrow> sse_reader \<Rightarrow> (transport_error + nat) \<times> cx \<times> bool \<times> sse_reader" where
  "read_line_bounded cx total_read consumed r =
     (case sse_checkpoint cx of
        (Inl e, cx) \<Rightarrow> (Inl e, cx, consumed, r)
      | (Inr _, cx) \<Rightarrow>
          (case fill_buf r of
             (ReadInterrupted, r) \<Rightarrow> read_line_bounded cx total_read consumed r
           | (ReadFailed, r) \<Rightarrow> (Inl (Io OtherIo), cx, consumed, r)
           | (Chunk available, r) \<Rightarrow>
               if available = [] then (Inr total_read, cx, consumed, r)
               else if rd_discard_lf_after_cr r \<and> hd available = LF
               then read_line_bounded cx total_read True (consume 1 (r\<lparr>rd_discard_lf_after_cr := False\<rparr>))
               else
                 (let r = r\<lparr>rd_discard_lf_after_cr := False\<rparr>;
                      delimiter = position (\<lambda>b. b = CR \<or> b = LF) available;
                      content_bytes = (case delimiter of Some i \<Rightarrow> i | None \<Rightarrow> length available);
                      bytes_to_consume = content_bytes + (if delimiter = None then 0 else 1)
                  in if sat_add (length (rd_line_buffer r)) bytes_to_consume > rd_max_line_size r
                     then (Inl (Io InvalidData), cx, consumed, r\<lparr>rd_line_buffer := []\<rparr>)
                     else
                       (let r = consume bytes_to_consume
                              (r\<lparr>rd_line_buffer := rd_line_buffer r @ take content_bytes available\<rparr>)
                        in (case delimiter of
                              Some i \<Rightarrow> (Inr (total_read + bytes_to_consume), cx, True,
                                r\<lparr>rd_discard_lf_after_cr := (available ! i = CR)\<rparr>)
                            | None \<Rightarrow>
                                read_line_bounded cx (total_read + bytes_to_consume) True r)))))"
  by pat_completeness auto

termination
proof (relation "measure (\<lambda>(cx, total_read, consumed, r). input_size r)", goal_cases)
  case 1
  show ?case by simp
next
  case (2 cx total_read consumed r x cx' u b r' available)
  then show ?case
    using fill_buf_size [of r "Chunk available" r']
      input_size_consume [of 1 "r'\<lparr>rd_discard_lf_after_cr := False\<rparr>"] by auto
next
  case (3 cx total_read consumed r x cx' u b r' available)
  then show ?case
    using fill_buf_size [of r "Chunk available" r']
    by (cases available) (auto simp: input_size_def consume_def)
next
  case (4 cx total_read consumed r x cx' u b r')
  then show ?case using fill_buf_size [of r ReadInterrupted r'] by simp
qed

declare read_line_bounded.simps [simp del]

text \<open>One round of the loop, by what the source answers.\<close>

definition is_delim :: "byte \<Rightarrow> bool" where
  "is_delim b \<longleftrightarrow> b = CR \<or> b = LF"

lemma read_line_refused:
  "sse_checkpoint cx = (Inl e, cx1) \<Longrightarrow> read_line_bounded cx t c r = (Inl e, cx1, c, r)"
  by (simp add: read_line_bounded.simps [of cx])

lemma read_line_no_chunk:
  assumes "sse_checkpoint cx = (Inr u, cx1)"
  shows "fill_buf r = (ReadInterrupted, r1) \<Longrightarrow>
      read_line_bounded cx t c r = read_line_bounded cx1 t c r1"
    and "fill_buf r = (ReadFailed, r1) \<Longrightarrow> read_line_bounded cx t c r = (Inl (Io OtherIo), cx1, c, r1)"
    and "fill_buf r = (Chunk [], r1) \<Longrightarrow> read_line_bounded cx t c r = (Inr t, cx1, c, r1)"
  using assms by (simp_all add: read_line_bounded.simps [of cx])

lemma read_line_skip:
  assumes "sse_checkpoint cx = (Inr u, cx1)" and "fill_buf r = (Chunk (LF # av), r1)"
    and "rd_discard_lf_after_cr r1"
  shows "read_line_bounded cx t c r =
    read_line_bounded cx1 t True (consume 1 (r1\<lparr>rd_discard_lf_after_cr := False\<rparr>))"
  using assms by (simp add: read_line_bounded.simps [of cx])

lemma read_line_chunk:
  assumes "sse_checkpoint cx = (Inr u, cx1)" and "fill_buf r = (Chunk av, r1)" and "av \<noteq> []"
    and "\<not> (rd_discard_lf_after_cr r1 \<and> hd av = LF)"
  shows "position is_delim av = None \<Longrightarrow> read_line_bounded cx t c r =
      (if sat_add (length (rd_line_buffer r1)) (length av) > rd_max_line_size r1
       then (Inl (Io InvalidData), cx1, c, r1\<lparr>rd_discard_lf_after_cr := False, rd_line_buffer := []\<rparr>)
       else read_line_bounded cx1 (t + length av) True (consume (length av)
         (r1\<lparr>rd_discard_lf_after_cr := False, rd_line_buffer := rd_line_buffer r1 @ av\<rparr>)))"
    and "position is_delim av = Some i \<Longrightarrow> read_line_bounded cx t c r =
      (if sat_add (length (rd_line_buffer r1)) (Suc i) > rd_max_line_size r1
       then (Inl (Io InvalidData), cx1, c, r1\<lparr>rd_discard_lf_after_cr := False, rd_line_buffer := []\<rparr>)
       else (Inr (t + Suc i), cx1, True, (consume (Suc i)
         (r1\<lparr>rd_discard_lf_after_cr := False, rd_line_buffer := rd_line_buffer r1 @ take i av\<rparr>))
           \<lparr>rd_discard_lf_after_cr := (av ! i = CR)\<rparr>))"
  using assms unfolding is_delim_def [abs_def]
  by (auto simp: read_line_bounded.simps [of cx] Let_def)

lemma fill_buf_consume_size:
  assumes "fill_buf r = (Chunk av, r1)" and "av \<noteq> []" and "0 < n"
  shows "input_size (consume n r1) < input_size r"
  using fill_buf_size [OF assms(1)] input_size_consume [of n r1] assms(2,3) by simp

text \<open>A line that is read, an empty one included, shortens the input.\<close>

lemma read_line_size:
  assumes "read_line_bounded cx t c r = (Inr n, cx', c', r')"
  shows "input_size r' \<le> input_size r \<and> t \<le> n \<and> (t < n \<longrightarrow> input_size r' < input_size r)"
  using assms
proof (induction "input_size r" arbitrary: cx t c r rule: less_induct)
  case less
  obtain a cx1 where cp': "sse_checkpoint cx = (a, cx1)" by force
  with less.prems obtain u where a: "a = Inr u"
    by (cases a) (simp_all add: read_line_refused)
  note cp = cp' [unfolded a]
  have rec: ?case if "read_line_bounded cx2 t2 c2 r2 = (Inr n, cx', c', r')"
    "input_size r2 < input_size r" "t \<le> t2" for cx2 t2 c2 r2
    using less.hyps [OF that(2,1)] that by auto
  obtain ans r1 where fb: "fill_buf r = (ans, r1)" by force
  note size = fill_buf_size [OF fb]
  show ?case
  proof (cases ans)
    case ReadInterrupted
    then show ?thesis
      using rec [of cx1 t c r1] less.prems read_line_no_chunk(1) [OF cp] fb size by simp
  next
    case ReadFailed
    with less.prems fb show ?thesis by (simp add: read_line_no_chunk(2) [OF cp])
  next
    case (Chunk av)
    note fb = fb [unfolded Chunk] and cons = fill_buf_consume_size [OF fb [unfolded Chunk]]
    consider "av = []" | xs where "av = LF # xs" "rd_discard_lf_after_cr r1"
      | "av \<noteq> []" "\<not> (rd_discard_lf_after_cr r1 \<and> hd av = LF)" "position is_delim av = None"
      | i where "av \<noteq> []" "\<not> (rd_discard_lf_after_cr r1 \<and> hd av = LF)" "position is_delim av = Some i"
      by (cases av; cases "position is_delim av") auto
    then show ?thesis
    proof cases
      case 1
      with less.prems fb size Chunk show ?thesis by (auto simp: read_line_no_chunk(3) [OF cp])
    next
      case 2
      have "input_size (consume 1 (r1\<lparr>rd_discard_lf_after_cr := False\<rparr>)) < input_size r"
        using cons [of 1] 2 by (simp add: input_size_def consume_def)
      from rec [OF _ this] less.prems read_line_skip [OF cp fb [unfolded 2(1)] 2(2)]
      show ?thesis by simp
    next
      case 3
      let ?r = "consume (length av)
         (r1\<lparr>rd_discard_lf_after_cr := False, rd_line_buffer := rd_line_buffer r1 @ av\<rparr>)"
      have "input_size ?r < input_size r"
        using cons [of "length av"] 3 by (simp add: input_size_def consume_def)
      from rec [OF _ this] less.prems read_line_chunk(1) [OF cp fb 3] show ?thesis
        by (simp split: if_split_asm)
    next
      case 4
      have "input_size r' = input_size (consume (Suc i) r1)" "n = t + Suc i"
        using less.prems read_line_chunk(2) [OF cp fb 4]
        by (auto simp: input_size_def consume_def split: if_split_asm)
      with cons [of "Suc i"] 4 show ?thesis by simp
    qed
  qed
qed

text \<open>
  The fields of the event block being read, as the local variables of \<open>read_event\<close> keep them.
\<close>

record sse_block =
  blk_event_type :: "sse_event_type option"
  blk_unknown_event :: bool
  blk_data_lines :: "bytes list"
  blk_total_data_size :: nat

definition empty_block :: sse_block where
  "empty_block = \<lparr>blk_event_type = None, blk_unknown_event = False, blk_data_lines = [],
     blk_total_data_size = 0\<rparr>"

definition event_field :: "bytes \<Rightarrow> sse_block \<Rightarrow> sse_block" where
  "event_field value b =
     (if value = [] then b\<lparr>blk_event_type := None, blk_unknown_event := False\<rparr>
      else case event_type_from_str value of
        Some t \<Rightarrow> b\<lparr>blk_event_type := Some t, blk_unknown_event := False\<rparr>
      | None \<Rightarrow> b\<lparr>blk_event_type := None, blk_unknown_event := True\<rparr>)"

definition data_field :: "bytes \<Rightarrow> sse_block \<Rightarrow> transport_error + sse_block" where
  "data_field value b =
     (let separator_size = (if blk_data_lines b = [] then 0 else 1);
          total = sat_add (sat_add (blk_total_data_size b) separator_size) (length value)
      in if total > max_sse_message_size then Inl (Io InvalidData)
         else Inr (b\<lparr>blk_total_data_size := total, blk_data_lines := blk_data_lines b @ [value]\<rparr>))"

definition id_field :: "bytes \<Rightarrow> sse_reader \<Rightarrow> sse_reader" where
  "id_field value r = (if CHR 0x00 \<in> set value then r else r\<lparr>rd_last_event_id := Some value\<rparr>)"

definition retry_field :: "bytes \<Rightarrow> sse_reader \<Rightarrow> sse_reader" where
  "retry_field value r =
     (if value \<noteq> [] \<and> list_all (\<lambda>c. 48 \<le> code c \<and> code c \<le> 57) value \<and> read_nat value \<le> u64_max
      then r\<lparr>rd_reconnection_time := Some (read_nat value)\<rparr> else r)"

text \<open>A complete line that is neither empty nor a comment.\<close>

definition reader_field ::
  "bytes \<Rightarrow> sse_block \<Rightarrow> sse_reader \<Rightarrow> (transport_error + sse_block) \<times> sse_reader" where
  "reader_field line b r =
     (let (field, raw_value) =
            (case split_once (CHR '':'') line of Some fv \<Rightarrow> fv | None \<Rightarrow> (line, []));
          value = strip_space raw_value
      in if field = ''event'' then (Inr (event_field value b), r)
         else if field = ''data'' then
           (case data_field value b of
              Inl e \<Rightarrow> (Inl e, r\<lparr>rd_terminal := True\<rparr>) | Inr b' \<Rightarrow> (Inr b', r))
         else if field = ''id'' then (Inr b, id_field value r)
         else if field = ''retry'' then (Inr b, retry_field value r)
         else (Inr b, r))"

lemma reader_field_size: "reader_field line b r = (x, r') \<Longrightarrow> input_size r' = input_size r"
  by (auto simp: reader_field_def id_field_def retry_field_def Let_def
      split: prod.split_asm sum.split_asm if_split_asm)

definition block_event :: "sse_block \<Rightarrow> sse_reader \<Rightarrow> sse_event" where
  "block_event b r =
     \<lparr>ev_type = (case blk_event_type b of Some t \<Rightarrow> t | None \<Rightarrow> Message),
      ev_data = join_lines (blk_data_lines b), ev_id = rd_last_event_id r,
      ev_retry = rd_reconnection_time r\<rparr>"

definition is_budget_error :: "transport_error \<Rightarrow> bool" where
  "is_budget_error e \<longleftrightarrow> e = Cancelled \<or> e = Timeout"

function read_event_loop ::
  "cx \<Rightarrow> sse_block \<Rightarrow> bool \<Rightarrow> sse_reader \<Rightarrow> (transport_error + sse_event option) \<times> cx \<times> sse_reader" where
  "read_event_loop cx b consumed r =
     (case read_line_bounded cx 0 consumed (r\<lparr>rd_line_buffer := []\<rparr>) of
        (Inl e, cx, consumed, r) \<Rightarrow>
          (Inl e, cx,
            if consumed \<or> \<not> is_budget_error e then r\<lparr>rd_terminal := True\<rparr> else r)
      | (Inr bytes_read, cx, consumed, r) \<Rightarrow>
          if bytes_read = 0 then (Inr None, cx, r\<lparr>rd_terminal := True\<rparr>)
          else (case sse_checkpoint cx of
            (Inl e, cx) \<Rightarrow> (Inl e, cx, r\<lparr>rd_terminal := True\<rparr>)
          | (Inr _, cx) \<Rightarrow>
              (let line = rd_line_buffer r
               in if \<not> utf8_valid line then (Inl (Io InvalidData), cx, r\<lparr>rd_terminal := True\<rparr>)
                  else if line = [] then
                    (if blk_data_lines b \<noteq> [] \<and> \<not> blk_unknown_event b
                     then (Inr (Some (block_event b r)), cx, r)
                     else read_event_loop cx empty_block consumed r)
                  else if hd line = CHR '':'' then read_event_loop cx b consumed r
                  else (case reader_field line b r of
                    (Inl e, r) \<Rightarrow> (Inl e, cx, r)
                  | (Inr b, r) \<Rightarrow> read_event_loop cx b consumed r))))"
  by pat_completeness auto

termination
proof (relation "measure (\<lambda>(cx, b, consumed, r). input_size r)", goal_cases)
  case 1
  show ?case by simp
qed (auto dest!: sym [where t = "read_line_bounded _ _ _ _"] sym [where t = "reader_field _ _ _"]
    dest!: read_line_size reader_field_size)

declare read_event_loop.simps [simp del]

definition read_event :: "cx \<Rightarrow> sse_reader \<Rightarrow> (transport_error + sse_event option) \<times> cx \<times> sse_reader" where
  "read_event cx r =
     (if rd_terminal r then (Inl Closed, cx, r)
      else case sse_checkpoint cx of
        (Inl e, cx) \<Rightarrow> (Inl e, cx, r)
      | (Inr _, cx) \<Rightarrow> read_event_loop cx empty_block False r)"

text \<open>What one line does to the event block.\<close>

definition line_step ::
  "bytes \<Rightarrow> sse_block \<Rightarrow> sse_reader \<Rightarrow> (transport_error + sse_event + sse_block) \<times> sse_reader" where
  "line_step line b r =
     (if \<not> utf8_valid line then (Inl (Io InvalidData), r\<lparr>rd_terminal := True\<rparr>)
      else if line = [] then
        (if blk_data_lines b \<noteq> [] \<and> \<not> blk_unknown_event b then (Inr (Inl (block_event b r)), r)
         else (Inr (Inr empty_block), r))
      else if hd line = CHR '':'' then (Inr (Inr b), r)
      else (case reader_field line b r of (Inl e, r) \<Rightarrow> (Inl e, r) | (Inr b, r) \<Rightarrow> (Inr (Inr b), r)))"

lemma read_event_round:
  assumes "read_line_bounded cx 0 c (r\<lparr>rd_line_buffer := []\<rparr>) = (Inr n, cx1, c1, r1)" and "n \<noteq> 0"
    and "sse_checkpoint cx1 = (Inr u, cx2)"
  shows "read_event_loop cx b c r =
    (case line_step (rd_line_buffer r1) b r1 of
       (Inl e, r2) \<Rightarrow> (Inl e, cx2, r2)
     | (Inr (Inl ev), r2) \<Rightarrow> (Inr (Some ev), cx2, r2)
     | (Inr (Inr b'), r2) \<Rightarrow> read_event_loop cx2 b' c1 r2)"
proof -
  obtain z r2 where fld: "reader_field (rd_line_buffer r1) b r1 = (z, r2)" by force
  then show ?thesis using assms
    by (cases z) (simp_all add: read_event_loop.simps [of cx] line_step_def Let_def)
qed

lemma line_step_size: "line_step line b r = (x, r') \<Longrightarrow> input_size r' = input_size r"
  by (auto simp: line_step_def dest: reader_field_size
      split: if_split_asm prod.split_asm sum.split_asm)

text \<open>An event that is read shortens the input.\<close>

lemma read_event_loop_size:
  assumes "read_event_loop cx b c r = (Inr (Some ev), cx', r')"
  shows "input_size r' < input_size r"
  using assms
proof (induction "input_size r" arbitrary: cx b c r rule: less_induct)
  case less
  let ?r = "r\<lparr>rd_line_buffer := []\<rparr>"
  obtain x cx1 c1 r1 where rl': "read_line_bounded cx 0 c ?r = (x, cx1, c1, r1)"
    using prod_cases4 by blast
  with less.prems obtain n where x: "x = Inr n" "n \<noteq> 0"
    by (cases x) (auto simp: read_event_loop.simps [of cx] split: if_split_asm)
  note rl = rl' [unfolded x(1)]
  obtain y cx2 where cp': "sse_checkpoint cx1 = (y, cx2)" by force
  with less.prems rl x obtain u where y: "y = Inr u"
    by (cases y) (auto simp: read_event_loop.simps [of cx])
  obtain z r2 where ls: "line_step (rd_line_buffer r1) b r1 = (z, r2)" by force
  have lt: "input_size r2 < input_size r"
    using read_line_size [OF rl] x(2) line_step_size [OF ls] by simp
  from less.prems [unfolded read_event_round [OF rl x(2) cp' [unfolded y]] ls]
  consider "r' = r2" | b' where "read_event_loop cx2 b' c1 r2 = (Inr (Some ev), cx', r')"
    by (auto split: sum.split_asm)
  then show ?case
    using lt less.hyps [OF lt] by cases (simp, fastforce)
qed

lemma read_event_size:
  "read_event cx r = (Inr (Some ev), cx', r') \<Longrightarrow> input_size r' < input_size r"
  by (auto simp: read_event_def dest: read_event_loop_size
      split: if_split_asm prod.split_asm sum.split_asm)

text \<open>\<open>decode\<close> is the codec's decoder of one complete message.\<close>

function read_message ::
  "(bytes \<Rightarrow> transport_error + 'm) \<Rightarrow> cx \<Rightarrow> sse_reader
     \<Rightarrow> (transport_error + 'm option) \<times> cx \<times> sse_reader" where
  "read_message decode cx r =
     (case read_event cx r of
        (Inl e, cx, r) \<Rightarrow> (Inl e, cx, r)
      | (Inr None, cx, r) \<Rightarrow> (Inr None, cx, r)
      | (Inr (Some ev), cx, r) \<Rightarrow>
          if ev_type ev = Message then
            (case decode (ev_data ev) of Inl e \<Rightarrow> (Inl e, cx, r) | Inr m \<Rightarrow> (Inr (Some m), cx, r))
          else read_message decode cx r)"
  by pat_completeness auto

termination
  by (relation "measure (\<lambda>(decode, cx, r). input_size r)")
    (auto dest!: sym [where t = "read_event _ _"] dest: read_event_size)

function read_endpoint ::
  "cx \<Rightarrow> sse_reader \<Rightarrow> (transport_error + bytes option) \<times> cx \<times> sse_reader" where
  "read_endpoint cx r =
     (case read_event cx r of
        (Inl e, cx, r) \<Rightarrow> (Inl e, cx, r)
      | (Inr None, cx, r) \<Rightarrow> (Inr None, cx, r)
      | (Inr (Some ev), cx, r) \<Rightarrow>
          if ev_type ev = Endpoint then (Inr (Some (ev_data ev)), cx, r)
          else read_endpoint cx r)"
  by pat_completeness auto

termination
  by (relation "measure (\<lambda>(cx, r). input_size r)")
    (auto dest!: sym [where t = "read_event _ _"] dest: read_event_size)

declare read_message.simps [simp del]
declare read_endpoint.simps [simp del]

end
