(* ===== verification/Sse_Wire_Laws.thy ===== *)
theory Sse_Wire_Laws
  imports Sse_Wire
begin

text \<open>
  The laws of the legacy event-stream wire: what a frame consists of, what the writer has put on the
  wire after any sequence of calls, and that the reader gives back the events that were written.
\<close>

section \<open>The lines of a frame\<close>

lemma split_lf_not_Nil [simp]: "split_lf d \<noteq> []"
  by (induction d) (auto split: list.split)

lemma join_split_lf [simp]: "join_lines (split_lf d) = d"
proof (induction d)
  case (Cons c cs)
  obtain l ls where "split_lf cs = l # ls" by (cases "split_lf cs") auto
  with Cons show ?case by (cases ls) auto
qed simp

lemma split_lf_no_LF: "l \<in> set (split_lf d) \<Longrightarrow> LF \<notin> set l"
proof (induction d arbitrary: l)
  case (Cons c cs)
  obtain k ks where "split_lf cs = k # ks" by (cases "split_lf cs") auto
  with Cons show ?case by (auto split: if_split_asm)
qed simp

lemma utf8_valid_join:
  "ls \<noteq> [] \<Longrightarrow> utf8_valid (join_lines ls) \<longleftrightarrow> (\<forall>l \<in> set ls. utf8_valid l)"
  by (induction ls rule: join_lines.induct) (simp_all add: utf8_valid_barrier)

lemma strip_cr_eq: "strip_cr l = (if l \<noteq> [] \<and> last l = CR then butlast l else l)"
  by (simp add: strip_cr_def strip_suffix_single)

lemma strip_cr_Nil [simp]: "strip_cr [] = []"
  by (simp add: strip_cr_eq)

lemma strip_cr_Cons: "strip_cr (c # l) = (if l = [] \<and> c = CR then [] else c # strip_cr l)"
  by (simp add: strip_cr_eq)

lemma strip_cr_valid: "utf8_valid l \<Longrightarrow> utf8_valid (strip_cr l)"
  by (cases l rule: rev_cases) (auto simp: strip_cr_eq utf8_valid_barrier [of CR _ "[]"])

lemma strip_cr_length: "length (strip_cr l) \<le> length l"
  by (simp add: strip_cr_eq)

lemma strip_cr_set: "set (strip_cr l) \<subseteq> set l"
  by (auto simp: strip_cr_eq dest: in_set_butlastD)

lemma payload_lines_no_CR:
  "\<not> has_invalid_sse_data_characters d \<Longrightarrow> l \<in> set (payload_lines d) \<Longrightarrow> CR \<notin> set l"
proof (induction d arbitrary: l)
  case (Cons c cs)
  obtain k ks where k: "split_lf cs = k # ks" by (cases "split_lf cs") auto
  have IH: "CR \<notin> set (strip_cr k)" "\<And>l. l \<in> set ks \<Longrightarrow> CR \<notin> set (strip_cr l)"
    using Cons k by (auto simp: payload_lines_def)
  have "k = []" if "c = CR" using that Cons.prems(1) k by (cases cs) (auto split: if_split_asm)
  then show ?case
    using Cons.prems(2) k IH by (auto simp: payload_lines_def strip_cr_Cons split: if_split_asm)
qed (simp add: payload_lines_def strip_cr_eq)

lemma length_join_lines: "length (join_lines ls) = sum_list (map length ls) + (length ls - 1)"
  by (induction ls rule: join_lines.induct) simp_all

lemma payload_lines_length: "length (join_lines (payload_lines d)) \<le> length d"
proof -
  have "sum_list (map length (payload_lines d)) \<le> sum_list (map length (split_lf d))"
    unfolding payload_lines_def by (simp add: o_def strip_cr_length sum_list_mono)
  then have "length (join_lines (payload_lines d)) \<le> length (join_lines (split_lf d))"
    unfolding length_join_lines by (simp add: payload_lines_def)
  then show ?thesis by simp
qed

lemma show_nat_length: "n < 10 ^ k \<Longrightarrow> 0 < k \<Longrightarrow> length (show_nat n) \<le> k"
proof (induction k arbitrary: n)
  case (Suc k)
  show ?case
  proof (cases "n < 10")
    case False
    then have "n div 10 < 10 ^ k" "0 < k" using Suc.prems by (auto intro: gr0I)
    with Suc.IH [of "n div 10"] False show ?thesis by (simp add: show_nat.simps [of n])
  qed (simp add: show_nat.simps [of n])
qed simp

text \<open>A line that can be written, read and decoded as it stands.\<close>

definition wire_line :: "bytes \<Rightarrow> bool" where
  "wire_line l \<longleftrightarrow> utf8_valid l \<and> (\<forall>b \<in> set l. \<not> is_eol b) \<and> Suc (length l) \<le> max_sse_line_size"

lemma wire_line_Nil [simp]: "wire_line []"
  by (simp add: wire_line_def max_sse_line_size_def)

text \<open>
  What the type \<open>String\<close> and the width of \<open>u64\<close> guarantee of an event: valid UTF-8 and a bounded
  retry interval.
\<close>

definition typed_event :: "sse_event \<Rightarrow> bool" where
  "typed_event ev \<longleftrightarrow> utf8_valid (ev_data ev) \<and>
     (case ev_id ev of Some i \<Rightarrow> utf8_valid i | None \<Rightarrow> True) \<and>
     (case ev_retry ev of Some t \<Rightarrow> t \<le> u64_max | None \<Rightarrow> True)"

lemma utf8_valid_ascii_prefix: "list_all (\<lambda>c. code c < 128) xs \<Longrightarrow> utf8_valid (xs @ ys) = utf8_valid ys"
  by (induction xs) (simp_all del: utf8_valid.simps(2))

lemma wire_line_prefix:
  assumes "list_all (\<lambda>c. code c < 128 \<and> \<not> is_eol c) xs" and "utf8_valid ys"
    and "\<forall>b \<in> set ys. \<not> is_eol b" and "Suc (length xs + length ys) \<le> max_sse_line_size"
  shows "wire_line (xs @ ys)"
  using assms by (auto simp: wire_line_def utf8_valid_ascii_prefix list_all_iff)

lemma validate_lines_ok:
  "validate_lines ls = Inr u \<Longrightarrow> l \<in> set ls \<Longrightarrow> Suc (length l + 6) \<le> max_sse_line_size"
  by (induction ls) (auto simp: sse_data_line_wire_overhead_def max_sse_line_size_def sat_add_def
      u64_max_def split: if_split_asm)

lemma show_nat_wire_line:
  assumes "n \<le> u64_max"
  shows "utf8_valid (show_nat n)" "\<forall>b \<in> set (show_nat n). \<not> is_eol b" "length (show_nat n) \<le> 20"
proof -
  have "list_all (\<lambda>c. code c < 128) (show_nat n)"
    by (auto simp: list_all_iff dest: show_nat_digits)
  from utf8_valid_ascii_prefix [OF this, of "[]"] show "utf8_valid (show_nat n)" by simp
  show "\<forall>b \<in> set (show_nat n). \<not> is_eol b"
    by (auto simp: is_eol_def dest: show_nat_digits)
  show "length (show_nat n) \<le> 20"
    using assms by (intro show_nat_length) (simp_all add: u64_max_def)
qed

lemma event_lines_wire:
  assumes ok: "validate_event ev = Inr u" and typed: "typed_event ev"
  shows "list_all wire_line (event_lines ev)"
proof -
  have d: "\<not> has_invalid_sse_data_characters (ev_data ev)"
    "validate_lines (payload_lines (ev_data ev)) = Inr ()" "validate_id (ev_id ev) = Inr ()"
    using ok by (auto simp: validate_event_def split: if_split_asm sum.split_asm)
  have "utf8_valid l" if "l \<in> set (split_lf (ev_data ev))" for l
    using utf8_valid_join [of "split_lf (ev_data ev)"] typed that by (simp add: typed_event_def)
  then have data: "wire_line (''data: '' @ l)" if "l \<in> set (payload_lines (ev_data ev))" for l
    using that payload_lines_no_CR [OF d(1) that] validate_lines_ok [OF d(2) that] strip_cr_set
    by (intro wire_line_prefix)
      (auto simp: is_eol_def payload_lines_def dest: split_lf_no_LF intro: strip_cr_valid)
  have ty: "wire_line (''event: '' @ as_str (ev_type ev))"
    by (cases "ev_type ev")
      (simp_all add: wire_line_def is_eol_def max_sse_line_size_def del: utf8_valid.simps(2))
  have "wire_line (''id: '' @ i)" if "ev_id ev = Some i" for i
    using that d(3) typed
    by (intro wire_line_prefix) (auto simp: validate_id_def typed_event_def is_eol_def has_control_def
        list_ex_iff sat_add_def u64_max_def max_sse_line_size_def split: if_split_asm)
  moreover have "wire_line (''retry: '' @ show_nat t)" if "ev_retry ev = Some t" for t
    using that typed show_nat_wire_line [of t]
    by (intro wire_line_prefix) (auto simp: typed_event_def is_eol_def max_sse_line_size_def)
  ultimately show ?thesis
    using ty data by (auto simp: event_lines_def list_all_iff split: option.split)
qed

section \<open>Committing a frame\<close>

lemma out_write_accepts:
  assumes "out_write bs w = (a, w')"
  shows "out_accepted w' = out_accepted w @ (case a of Wrote n \<Rightarrow> take n bs | _ \<Rightarrow> [])"
  using assms by (auto simp: out_write_def split: list.split_asm)

lemma commit_write_spec:
  assumes "commit_write cx w closed wrote bs = (r, cx', w', closed')"
  shows "\<exists>sent rest. bs = sent @ rest \<and> out_accepted w' = out_accepted w @ sent \<and>
    (case r of Inr wrote' \<Rightarrow> rest = [] \<and> closed' = closed \<and> wrote' = (wrote \<or> bs \<noteq> [])
     | Inl e \<Rightarrow> closed' \<or> sent = [] \<and> \<not> wrote \<and> closed' = closed)"
  using assms
proof (induction cx w closed wrote bs rule: commit_write.induct)
  case (1 cx w closed wrote bs)
  note prems = "1.prems" [unfolded commit_write.simps [of cx w closed wrote bs]]
  obtain x cx1 where cp: "sse_checkpoint cx = (x, cx1)" by force
  obtain a w1 where ow: "out_write bs w = (a, w1)" by force
  note acc = out_write_accepts [OF ow]
  consider "bs = [] \<or> \<not> is_ok x" | u n where "bs \<noteq> []" "x = Inr u" "a = Wrote n"
    | u where "bs \<noteq> []" "x = Inr u" "a = WriteInterrupted" | u where "bs \<noteq> []" "x = Inr u" "a = WriteFailed"
    by (cases x; cases a) auto
  then show ?case
  proof cases
    case 1
    then show ?thesis using prems cp by (cases x) (auto split: if_split_asm)
  next
    case 2
    show ?thesis
    proof (cases "n = 0 \<or> n > length bs")
      case True
      then show ?thesis using prems cp ow acc 2
        by (intro exI [of _ "take n bs"] exI [of _ "drop n bs"]) (auto split: if_split_asm)
    next
      case False
      with prems cp ow 2 have "commit_write cx1 w1 closed True (drop n bs) = (r, cx', w', closed')"
        by simp
      from "1.IH"(1) [OF 2(1) cp [symmetric] 2(2) ow [symmetric] 2(3) _ _ this] False
      obtain sent rest where "drop n bs = sent @ rest" "out_accepted w' = out_accepted w1 @ sent"
        "case r of Inr wrote' \<Rightarrow> rest = [] \<and> closed' = closed \<and> wrote'
         | Inl e \<Rightarrow> closed'" by (cases r) auto
      moreover have "bs = take n bs @ drop n bs" by simp
      ultimately show ?thesis using acc 2
        by (intro exI [of _ "take n bs @ sent"] exI [of _ rest]) (cases r; simp)
    qed
  next
    case 3
    with prems cp ow have "commit_write cx1 w1 closed wrote bs = (r, cx', w', closed')" by simp
    from "1.IH"(2) [OF 3(1) cp [symmetric] 3(2) ow [symmetric] 3(3) this] acc 3
    show ?thesis by simp
  next
    case 4
    then show ?thesis using prems cp ow acc by auto
  qed
qed

lemma commit_flush_spec:
  assumes "commit_flush cx w closed wrote = (r, cx', w', closed')"
  shows "out_accepted w' = out_accepted w \<and>
    (case r of Inr _ \<Rightarrow> closed' = closed | Inl e \<Rightarrow> closed' \<or> \<not> wrote \<and> closed' = closed)"
  using assms
proof (induction cx w closed wrote rule: commit_flush.induct)
  case (1 cx w closed wrote)
  note prems = "1.prems" [unfolded commit_flush.simps [of cx w closed wrote]]
  obtain x cx1 where cp: "sse_checkpoint cx = (x, cx1)" by force
  obtain a w1 where ow: "out_flush w = (a, w1)" by force
  have acc: "out_accepted w1 = out_accepted w"
    using ow by (auto simp: out_flush_def split: list.split_asm)
  show ?case
  proof (cases x)
    case (Inr u)
    then show ?thesis
      using prems cp ow acc "1.IH" [OF cp [symmetric] Inr ow [symmetric]]
      by (cases a) auto
  qed (use prems cp in auto)
qed

lemma commit_frame_spec:
  assumes "sse_commit_frame cx w closed bs = (r, cx', w', closed')" and "bs \<noteq> []"
  shows "\<exists>sent rest. bs = sent @ rest \<and> out_accepted w' = out_accepted w @ sent \<and>
    (case r of Inr _ \<Rightarrow> rest = [] \<and> closed' = closed
     | Inl e \<Rightarrow> closed' \<or> sent = [] \<and> closed' = closed)"
proof -
  obtain x cx1 w1 c1 where cw: "commit_write cx w closed False bs = (x, cx1, w1, c1)"
    using prod_cases4 by blast
  from commit_write_spec [OF this] obtain sent rest where sp: "bs = sent @ rest"
    "out_accepted w1 = out_accepted w @ sent"
    "case x of Inr wrote' \<Rightarrow> rest = [] \<and> c1 = closed \<and> wrote' = (bs \<noteq> [])
     | Inl e \<Rightarrow> c1 \<or> sent = [] \<and> c1 = closed" by (cases x) auto
  show ?thesis
  proof (cases x)
    case (Inl e)
    with sp cw assms(1) show ?thesis
      by (intro exI [of _ sent] exI [of _ rest]) (auto simp: sse_commit_frame_def)
  next
    case (Inr wrote)
    with cw assms(1) have "commit_flush cx1 w1 c1 wrote = (r, cx', w', closed')"
      by (simp add: sse_commit_frame_def)
    from commit_flush_spec [OF this] sp Inr assms(2) show ?thesis
      by (intro exI [of _ bs] exI [of _ "[]"]) (cases r; simp)
  qed
qed

section \<open>The writer\<close>

text \<open>What a call puts on the wire when it succeeds.\<close>

datatype wire_item = EventItem sse_event | CommentItem bytes

fun item_lines :: "wire_item \<Rightarrow> bytes list" where
  "item_lines (EventItem ev) = event_lines ev"
| "item_lines (CommentItem c) = ['': '' @ c]"

definition item_bytes :: "wire_item \<Rightarrow> bytes" where
  "item_bytes i = data_buffer (item_lines i)"

fun valid_item :: "wire_item \<Rightarrow> bool" where
  "valid_item (EventItem ev) = (typed_event ev \<and> is_ok (validate_event ev))"
| "valid_item (CommentItem c) =
     (utf8_valid c \<and> \<not> has_control c \<and> length c + 3 \<le> max_sse_line_size)"

datatype 'm writer_op =
    WriteEvent cx sse_event
  | WriteMessage cx 'm
  | WriteComment cx bytes
  | CloseWriter cx

fun writer_step ::
  "('m \<Rightarrow> transport_error + bytes) \<Rightarrow> 'm writer_op \<Rightarrow> sse_writer
     \<Rightarrow> (transport_error + unit) \<times> cx \<times> sse_writer" where
  "writer_step encode (WriteEvent cx ev) w = write_event cx ev w"
| "writer_step encode (WriteMessage cx m) w = write_message encode cx m w"
| "writer_step encode (WriteComment cx c) w = write_comment cx c w"
| "writer_step encode (CloseWriter cx) w = writer_close cx w"

fun op_item :: "('m \<Rightarrow> transport_error + bytes) \<Rightarrow> 'm writer_op \<Rightarrow> sse_writer \<Rightarrow> wire_item option" where
  "op_item encode (WriteEvent cx ev) w = Some (EventItem ev)"
| "op_item encode (WriteMessage cx m) w =
     (case encode m of Inl e \<Rightarrow> None
      | Inr encoded \<Rightarrow> Some (EventItem
          (with_id (show_nat (Suc (wr_event_counter w))) (message_event (butlast encoded)))))"
| "op_item encode (WriteComment cx c) w = Some (CommentItem c)"
| "op_item encode (CloseWriter cx) w = None"

text \<open>The arguments of type \<open>String\<close> and \<open>&str\<close> are valid UTF-8.\<close>

fun typed_op :: "'m writer_op \<Rightarrow> bool" where
  "typed_op (WriteEvent cx ev) = typed_event ev"
| "typed_op (WriteMessage cx m) = True"
| "typed_op (WriteComment cx c) = utf8_valid c"
| "typed_op (CloseWriter cx) = True"

text \<open>A writer with the items of its successful calls, in order.\<close>

type_synonym wire_state = "sse_writer \<times> wire_item list"

definition wire_step ::
  "('m \<Rightarrow> transport_error + bytes) \<Rightarrow> 'm writer_op \<Rightarrow> wire_state \<Rightarrow> wire_state" where
  "wire_step encode a s =
     (case writer_step encode a (fst s) of
        (Inl e, _, w) \<Rightarrow> (w, snd s)
      | (Inr _, _, w) \<Rightarrow> (w, snd s @ (case op_item encode a (fst s) of None \<Rightarrow> [] | Some i \<Rightarrow> [i])))"

definition wire_inv :: "wire_state \<Rightarrow> bool" where
  "wire_inv s \<longleftrightarrow> list_all valid_item (snd s) \<and>
     (\<exists>tail rest. out_accepted (wr_out (fst s)) = concat (map item_bytes (snd s)) @ tail \<and>
        (tail \<noteq> [] \<longrightarrow> wr_closed (fst s) \<and> (\<exists>i. valid_item i \<and> item_bytes i = tail @ rest)))"

lemma event_lines_not_Nil [simp]: "event_lines ev \<noteq> []"
  by (simp add: event_lines_def)

lemma to_bytes_item:
  "to_bytes ev = Inr bs \<longleftrightarrow> is_ok (validate_event ev) \<and> bs = item_bytes (EventItem ev)"
  by (auto simp: to_bytes_def item_bytes_def data_buffer_def split: sum.split)

lemma item_bytes_not_Nil [simp]: "item_bytes i \<noteq> []"
  by (cases i) (simp_all add: item_bytes_def)

text \<open>A call that commits one item, or does nothing.\<close>

definition commits ::
  "wire_item \<Rightarrow> sse_writer \<Rightarrow> (transport_error + unit) \<times> cx \<times> sse_writer \<Rightarrow> bool" where
  "commits i w r \<longleftrightarrow>
     (case r of
        (Inr _, _, w') \<Rightarrow> valid_item i \<and> \<not> wr_closed w \<and> \<not> wr_closed w' \<and>
          out_accepted (wr_out w') = out_accepted (wr_out w) @ item_bytes i
      | (Inl e, _, w') \<Rightarrow>
          out_accepted (wr_out w') = out_accepted (wr_out w) \<and> wr_closed w' = wr_closed w \<or>
          valid_item i \<and> \<not> wr_closed w \<and> wr_closed w' \<and>
            (\<exists>sent rest. item_bytes i = sent @ rest \<and>
               out_accepted (wr_out w') = out_accepted (wr_out w) @ sent))"

lemma writer_commit_commits:
  assumes "valid_item i" and "\<not> wr_closed w" and "bs = item_bytes i"
  shows "commits i w (writer_commit cx bs w)"
proof -
  obtain r cx' out closed where c: "sse_commit_frame cx (wr_out w) (wr_closed w) bs = (r, cx', out, closed)"
    using prod_cases4 by blast
  then have "writer_commit cx bs w = (r, cx', w\<lparr>wr_out := out, wr_closed := closed\<rparr>)"
    by (simp only: writer_commit_def prod.case)
  with commit_frame_spec [OF c] assms show ?thesis
    by (cases r) (auto simp: commits_def)
qed

lemma commits_nothing [simp]: "commits i w (Inl e, cx, w)"
  by (simp add: commits_def)

lemma write_event_commits:
  assumes "typed_event ev"
  shows "commits (EventItem ev) w (write_event cx ev w)"
proof -
  obtain x cx1 where cp: "sse_checkpoint cx = (x, cx1)" by force
  have "commits (EventItem ev) w (writer_commit cx1 bs w)" if "to_bytes ev = Inr bs" "\<not> wr_closed w" for bs
    using that(1) [unfolded to_bytes_item] that(2) assms by (intro writer_commit_commits) simp_all
  with cp show ?thesis
    by (cases x; cases "to_bytes ev") (auto simp: write_event_def)
qed

lemma write_comment_commits:
  assumes "utf8_valid c"
  shows "commits (CommentItem c) w (write_comment cx c w)"
proof -
  obtain x cx1 where "sse_checkpoint cx = (x, cx1)" by force
  with assms show ?thesis
    by (cases x) (auto simp: write_comment_def item_bytes_def sat_add_def max_sse_line_size_def
        u64_max_def intro!: writer_commit_commits)
qed

lemma write_message_commits:
  assumes "encode m = Inr encoded"
  shows "commits (EventItem (with_id (show_nat (Suc (wr_event_counter w)))
      (message_event (butlast encoded)))) w (write_message encode cx m w)"
proof -
  let ?ev = "with_id (show_nat (Suc (wr_event_counter w))) (message_event (butlast encoded))"
  obtain x cx1 where cp: "sse_checkpoint cx = (x, cx1)" by force
  obtain r cx2 w' where we: "write_event cx1 ?ev w = (r, cx2, w')" using prod_cases3 by blast
  have "commits (EventItem ?ev) w (r, cx2, w')"
    if "utf8_valid (butlast encoded)" "Suc (wr_event_counter w) \<le> u64_max"
  proof -
    have "typed_event ?ev"
      using that show_nat_wire_line(1) [OF that(2)]
      by (simp add: typed_event_def with_id_def message_event_def)
    from write_event_commits [OF this, of w cx1] show ?thesis unfolding we .
  qed
  then show ?thesis
    by (cases x; cases r)
      (auto simp: write_message_def cp assms checked_add_def we commits_def)
qed

lemma commits_wire_inv:
  assumes "wire_inv (w, items)" and "commits i w (r, cx, w')"
  shows "wire_inv (w', case r of Inl e \<Rightarrow> items | Inr _ \<Rightarrow> items @ [i])"
proof -
  from assms(1) obtain tail rest where inv: "list_all valid_item items"
    "out_accepted (wr_out w) = concat (map item_bytes items) @ tail"
    "tail \<noteq> [] \<longrightarrow> wr_closed w \<and> (\<exists>i. valid_item i \<and> item_bytes i = tail @ rest)"
    unfolding wire_inv_def by auto
  show ?thesis
  proof (cases r)
    case (Inr u)
    with assms(2) inv show ?thesis by (auto simp: commits_def wire_inv_def)
  next
    case (Inl e)
    then consider "out_accepted (wr_out w') = out_accepted (wr_out w)" "wr_closed w' = wr_closed w"
      | sent rest' where "valid_item i" "\<not> wr_closed w" "wr_closed w'" "item_bytes i = sent @ rest'"
        "out_accepted (wr_out w') = out_accepted (wr_out w) @ sent"
      using assms(2) by (auto simp: commits_def)
    then show ?thesis
    proof cases
      case 1
      with Inl inv show ?thesis
        unfolding wire_inv_def by (intro conjI exI [of _ tail] exI [of _ rest]) auto
    next
      case 2
      with Inl inv show ?thesis
        unfolding wire_inv_def by (intro conjI exI [of _ sent] exI [of _ rest']) auto
    qed
  qed
qed

lemma wire_step_inv:
  assumes "wire_inv s" and "typed_op a"
  shows "wire_inv (wire_step encode a s)"
proof -
  obtain w items where s: "s = (w, items)" by force
  note inv = assms(1) [unfolded s]
  obtain r cx' w' where st: "writer_step encode a w = (r, cx', w')" using prod_cases3 by blast
  have item: ?thesis if "op_item encode a w = Some i" "commits i w (r, cx', w')" for i
    using commits_wire_inv [OF inv that(2)] that(1) st
    by (cases r) (simp_all add: wire_step_def s)
  show ?thesis
  proof (cases a)
    case (WriteMessage cx m)
    show ?thesis
    proof (cases "encode m")
      case (Inl e)
      have "w' = w \<and> \<not> is_ok r"
        using st Inl by (auto simp: WriteMessage write_message_def split: if_split_asm prod.split_asm sum.split_asm)
      with inv st show ?thesis by (cases r) (simp_all add: wire_step_def s)
    qed (use item st write_message_commits [of encode m _ w cx] in \<open>simp add: WriteMessage\<close>)
  next
    case (CloseWriter cx)
    have "out_accepted (wr_out w') = out_accepted (wr_out w)" "wr_closed w \<longrightarrow> wr_closed w'"
      using st by (auto simp: CloseWriter writer_close_def out_flush_def
          split: if_split_asm prod.split_asm sum.split_asm list.split_asm flush_answer.split_asm)
    with inv have "wire_inv (w', items)" unfolding wire_inv_def by auto
    with st show ?thesis by (cases r) (simp_all add: wire_step_def s CloseWriter)
  next
    case (WriteEvent cx ev)
    then show ?thesis using item st write_event_commits [of ev w cx] assms(2) by simp
  next
    case (WriteComment cx c)
    then show ?thesis using item st write_comment_commits [of c w cx] assms(2) by simp
  qed
qed

interpretation writer_machine: guarded_machine wire_inv "\<lambda>a s. typed_op a" "wire_step encode" for encode
  by unfold_locales (rule wire_step_inv)

lemma wire_inv_new [simp]:
  "out_accepted out = [] \<Longrightarrow> wire_inv (writer_new out, [])"
  by (simp add: wire_inv_def writer_new_def)

lemma admissible_typed: "admissible (\<lambda>a s. typed_op a) step as s \<longleftrightarrow> list_all typed_op as"
  by (induction as arbitrary: s) simp_all

end
