(* ===== verification/Sse_Reader_Laws.thy ===== *)
theory Sse_Reader_Laws
  imports Sse_Wire_Laws
begin

text \<open>
  The reader of the legacy event-stream wire gives back what the writer put there, whatever the sizes
  of the reads that deliver it.
\<close>

section \<open>Lines\<close>

text \<open>A source that delivers bytes until its end, possibly with interruptions.\<close>

fun live_answer :: "read_answer \<Rightarrow> bool" where
  "live_answer (Chunk bs) = (bs \<noteq> [])"
| "live_answer ReadInterrupted = True"
| "live_answer ReadFailed = False"

fun answer_bytes :: "read_answer \<Rightarrow> bytes" where
  "answer_bytes (Chunk bs) = bs"
| "answer_bytes ReadInterrupted = []"
| "answer_bytes ReadFailed = []"

definition pending :: "sse_reader \<Rightarrow> bytes" where
  "pending r = rd_buffer r @ concat (map answer_bytes (rd_reads r))"

text \<open>The reader stands at the start of a line with \<open>s\<close> still to come.\<close>

definition ready :: "bytes \<Rightarrow> sse_reader \<Rightarrow> bool" where
  "ready s r \<longleftrightarrow> pending r = s \<and> list_all live_answer (rd_reads r) \<and>
     \<not> rd_discard_lf_after_cr r \<and> \<not> rd_terminal r \<and> rd_max_line_size r = max_sse_line_size"

lemma is_delim_eol: "is_delim = is_eol"
  by (auto simp: fun_eq_iff is_delim_def is_eol_def)

lemma fill_buf_pending:
  assumes "list_all live_answer (rd_reads r)" and "fill_buf r = (a, r1)"
  shows "\<exists>buf reads. r1 = r\<lparr>rd_buffer := buf, rd_reads := reads\<rparr> \<and> pending r1 = pending r \<and>
    list_all live_answer reads \<and>
    (case a of Chunk av \<Rightarrow> rd_buffer r1 = av \<and> (av = [] \<longrightarrow> pending r = [])
     | ReadInterrupted \<Rightarrow> input_size r1 < input_size r | ReadFailed \<Rightarrow> False)"
proof (cases "rd_buffer r")
  case Nil
  show ?thesis
  proof (cases "rd_reads r")
    case Nil
    with assms \<open>rd_buffer r = []\<close> show ?thesis
      by (intro exI [of _ "[]"]) (auto simp: fill_buf_def pending_def)
  next
    case (Cons x xs)
    with assms \<open>rd_buffer r = []\<close> show ?thesis
      by (intro exI [of _ "rd_buffer r1"] exI [of _ "rd_reads r1"])
        (cases x; cases r; auto simp: fill_buf_def pending_def input_size_def)
  qed
next
  case (Cons b bs)
  with assms show ?thesis
    by (intro exI [of _ "rd_buffer r"] exI [of _ "rd_reads r"]) (auto simp: fill_buf_def)
qed

lemma first_eol_unique:
  assumes "xs @ y # zs = l @ LF # rest" and "is_eol y"
    and "\<forall>b \<in> set xs. \<not> is_eol b" and "\<forall>b \<in> set l. \<not> is_eol b"
  shows "xs = l \<and> y = LF \<and> zs = rest"
  using assms
proof (induction xs arbitrary: l)
  case Nil
  then show ?case by (cases l) simp_all
next
  case (Cons x xs)
  then show ?case by (cases l) auto
qed

lemma no_eol_prefix:
  assumes "xs @ ys = l @ LF # rest" and "\<forall>b \<in> set xs. \<not> is_eol b"
  shows "\<exists>l'. l = xs @ l' \<and> ys = l' @ LF # rest"
  using assms
proof (induction xs arbitrary: l)
  case (Cons x xs)
  then show ?case by (cases l) auto
qed simp

lemma read_line_pending:
  assumes "list_all live_answer (rd_reads r)" and "pending r = l @ LF # rest"
    and "\<forall>b \<in> set l. \<not> is_eol b" and "\<not> rd_discard_lf_after_cr r"
    and "length (rd_line_buffer r) + Suc (length l) \<le> rd_max_line_size r"
  shows "\<exists>buf reads c'. read_line_bounded [] t c r = (Inr (t + Suc (length l)), [], True,
      r\<lparr>rd_buffer := buf, rd_reads := reads, rd_line_buffer := rd_line_buffer r @ l\<rparr>) \<and>
    buf @ concat (map answer_bytes reads) = rest \<and> list_all live_answer reads"
  using assms
proof (induction "input_size r" arbitrary: r l t c rule: less_induct)
  case less
  obtain a r1 where fb: "fill_buf r = (a, r1)" by force
  from fill_buf_pending [OF less.prems(1) fb] obtain buf reads where
    r1: "r1 = r\<lparr>rd_buffer := buf, rd_reads := reads\<rparr>" "pending r1 = pending r"
    "list_all live_answer reads"
    and a: "case a of Chunk av \<Rightarrow> rd_buffer r1 = av \<and> (av = [] \<longrightarrow> pending r = [])
     | ReadInterrupted \<Rightarrow> input_size r1 < input_size r | ReadFailed \<Rightarrow> False" by blast
  have cp: "sse_checkpoint [] = (Inr (), [])" by simp
  show ?case
  proof (cases a)
    case ReadInterrupted
    with a less.prems r1 show ?thesis
      using less.hyps [of r1 l t c] read_line_no_chunk(1) [OF cp, of r r1 t c] fb by simp
  next
    case (Chunk av)
    with a less.prems(2) have av: "rd_buffer r1 = av" "av \<noteq> []" by auto
    have skip: "\<not> (rd_discard_lf_after_cr r1 \<and> hd av = LF)" using less.prems(4) r1(1) by simp
    have split: "av @ concat (map answer_bytes reads) = l @ LF # rest"
      using r1 av less.prems(2) by (simp add: pending_def)
    note chunk = read_line_chunk [OF cp fb [unfolded Chunk] av(2) skip, unfolded is_delim_eol]
    show ?thesis
    proof (cases "position is_eol av")
      case None
      then obtain l' where l': "l = av @ l'" "concat (map answer_bytes reads) = l' @ LF # rest"
        using no_eol_prefix [OF split] by (auto simp: position_None_iff)
      let ?r = "consume (length av)
         (r1\<lparr>rd_discard_lf_after_cr := False, rd_line_buffer := rd_line_buffer r1 @ av\<rparr>)"
      have "input_size ?r < input_size r"
        using fill_buf_consume_size [OF fb [unfolded Chunk] av(2), of "length av"] av
        by (simp add: input_size_def consume_def)
      note hyp = less.hyps [OF this, of l' "t + length av" True]
      have req: "?r = r\<lparr>rd_buffer := [], rd_reads := reads, rd_line_buffer := rd_line_buffer r @ av\<rparr>"
        using r1(1) av less.prems(4) by (cases r) (simp add: consume_def)
      have room: "length (rd_line_buffer r1) + length av \<le> rd_max_line_size r1"
        using less.prems(5) l'(1) r1(1) by simp
      then have "read_line_bounded [] t c r = read_line_bounded [] (t + length av) True ?r"
        using chunk(1) [OF None, of t c] sat_add_le_sum [of "length (rd_line_buffer r1)" "length av"]
        by simp
      with hyp [unfolded req] show ?thesis
        using less.prems r1(3) l' by (simp add: req pending_def add.assoc)
    next
      case (Some i)
      then obtain xs y zs where xs: "av = xs @ y # zs" "length xs = i" "is_eol y" "\<forall>b \<in> set xs. \<not> is_eol b"
        by (rule position_Some_split)
      have u: "xs = l \<and> y = LF \<and> zs @ concat (map answer_bytes reads) = rest"
        using first_eol_unique [OF _ xs(3,4) less.prems(3)] split xs(1) by simp
      have nth: "av ! i = LF" using xs(1,2) u by (simp add: nth_append)
      show ?thesis
        using chunk(2) [OF Some, of t c, unfolded nth] less.prems(4,5) r1 av xs u
          sat_add_le_sum [of "length (rd_line_buffer r1)" "Suc i"]
        by (intro exI [of _ zs] exI [of _ reads]) (cases r; simp add: consume_def)
    qed
  qed (use a in simp)
qed

text \<open>The end of the input.\<close>

lemma read_line_end:
  assumes "list_all live_answer (rd_reads r)" and "pending r = []"
  shows "\<exists>buf reads. read_line_bounded [] t c r = (Inr t, [], c, r\<lparr>rd_buffer := buf, rd_reads := reads\<rparr>)"
  using assms
proof (induction "input_size r" arbitrary: r rule: less_induct)
  case less
  obtain a r1 where fb: "fill_buf r = (a, r1)" by force
  from fill_buf_pending [OF less.prems(1) fb] obtain buf reads where
    r1: "r1 = r\<lparr>rd_buffer := buf, rd_reads := reads\<rparr>" "pending r1 = pending r"
    "list_all live_answer reads"
    and a: "case a of Chunk av \<Rightarrow> rd_buffer r1 = av \<and> (av = [] \<longrightarrow> pending r = [])
     | ReadInterrupted \<Rightarrow> input_size r1 < input_size r | ReadFailed \<Rightarrow> False" by blast
  have cp: "sse_checkpoint [] = (Inr (), [])" by simp
  show ?case
  proof (cases a)
    case (Chunk av)
    then have "pending r1 = av @ concat (map answer_bytes (rd_reads r1))"
      using a by (simp add: pending_def)
    then have "av = []" using r1(2) less.prems(2) by simp
    then show ?thesis
      using read_line_no_chunk(3) [OF cp, of r r1 t c] fb Chunk r1(1) by auto
  next
    case ReadInterrupted
    with a less.hyps [of r1] r1 less.prems(2) read_line_no_chunk(1) [OF cp, of r r1 t c] fb
    show ?thesis by simp
  qed (use a in simp)
qed

section \<open>Event blocks\<close>

text \<open>One line of the wire, as \<open>read_event\<close> processes it.\<close>

lemma ready_updates [simp]:
  "ready s (r\<lparr>rd_line_buffer := l\<rparr>) = ready s r" "ready s (r\<lparr>rd_last_event_id := i\<rparr>) = ready s r"
  "ready s (r\<lparr>rd_reconnection_time := n\<rparr>) = ready s r"
  by (simp_all add: ready_def pending_def)

lemma read_event_loop_line:
  assumes "ready (l @ LF # rest) r" and "wire_line l"
  shows "\<exists>r1. ready rest r1 \<and> rd_last_event_id r1 = rd_last_event_id r \<and>
    rd_reconnection_time r1 = rd_reconnection_time r \<and>
    read_event_loop [] b c r =
      (case line_step l b r1 of
         (Inl e, r2) \<Rightarrow> (Inl e, [], r2)
       | (Inr (Inl ev), r2) \<Rightarrow> (Inr (Some ev), [], r2)
       | (Inr (Inr b'), r2) \<Rightarrow> read_event_loop [] b' True r2)"
proof -
  let ?r = "r\<lparr>rd_line_buffer := []\<rparr>"
  from assms have pre: "list_all live_answer (rd_reads ?r)" "pending ?r = l @ LF # rest"
    "\<forall>b \<in> set l. \<not> is_eol b" "\<not> rd_discard_lf_after_cr ?r"
    "length (rd_line_buffer ?r) + Suc (length l) \<le> rd_max_line_size ?r"
    by (simp_all add: ready_def wire_line_def pending_def)
  from read_line_pending [OF this, of 0 c] obtain buf reads where
    rl: "read_line_bounded [] 0 c ?r = (Inr (Suc (length l)), [], True,
      r\<lparr>rd_buffer := buf, rd_reads := reads, rd_line_buffer := l\<rparr>)"
    and rest: "buf @ concat (map answer_bytes reads) = rest" "list_all live_answer reads"
    by auto
  let ?r1 = "r\<lparr>rd_buffer := buf, rd_reads := reads, rd_line_buffer := l\<rparr>"
  have "ready rest ?r1" using assms(1) rest by (simp add: ready_def pending_def)
  then show ?thesis
    using read_event_round [OF rl, of _ "[]" b] by (intro exI [of _ ?r1]) simp
qed

lemma read_event_field:
  assumes "ready (l @ LF # rest) r" and "wire_line l"
    and "\<And>r1. line_step l b r1 = (Inr (Inr b'), upd r1)"
  obtains r1 where "ready rest r1" "rd_last_event_id r1 = rd_last_event_id r"
    "rd_reconnection_time r1 = rd_reconnection_time r"
    "read_event_loop [] b c r = read_event_loop [] b' True (upd r1)"
  using read_event_loop_line [OF assms(1,2), of b c] assms(3) by auto

lemma read_event_end:
  assumes "ready [] r"
  shows "\<exists>r'. read_event [] r = (Inr None, [], r')"
proof -
  from assms read_line_end [of "r\<lparr>rd_line_buffer := []\<rparr>" 0 False]
  show ?thesis
    by (auto simp: read_event_def read_event_loop.simps [of "[]"] ready_def pending_def)
qed

lemma split_once_ascii:
  "split_once (CHR '':'') (''event: '' @ v) = Some (''event'', CHR '' '' # v)"
  "split_once (CHR '':'') (''data: '' @ v) = Some (''data'', CHR '' '' # v)"
  "split_once (CHR '':'') (''id: '' @ v) = Some (''id'', CHR '' '' # v)"
  "split_once (CHR '':'') (''retry: '' @ v) = Some (''retry'', CHR '' '' # v)"
  by (simp_all add: split_once_def)

lemma line_step_fields:
  "utf8_valid (''event: '' @ as_str t) \<Longrightarrow> line_step (''event: '' @ as_str t) b r =
     (Inr (Inr (b\<lparr>blk_event_type := Some t, blk_unknown_event := False\<rparr>)), r)"
  "utf8_valid (''data: '' @ v) \<Longrightarrow> line_step (''data: '' @ v) b r =
     (case data_field v b of Inl e \<Rightarrow> (Inl e, r\<lparr>rd_terminal := True\<rparr>) | Inr b' \<Rightarrow> (Inr (Inr b'), r))"
  "utf8_valid (''id: '' @ i) \<Longrightarrow> CHR 0x00 \<notin> set i \<Longrightarrow>
     line_step (''id: '' @ i) b r = (Inr (Inr b), r\<lparr>rd_last_event_id := Some i\<rparr>)"
  unfolding line_step_def reader_field_def split_once_ascii
  by (cases t; simp add: strip_space_def event_field_def event_type_from_str_def id_field_def
      split: sum.split)+

lemma line_step_retry:
  assumes "utf8_valid (''retry: '' @ show_nat t)" and "t \<le> u64_max"
  shows "line_step (''retry: '' @ show_nat t) b r = (Inr (Inr b), r\<lparr>rd_reconnection_time := Some t\<rparr>)"
proof -
  have "list_all (\<lambda>c. 48 \<le> code c \<and> code c \<le> 57) (show_nat t)"
    unfolding list_all_iff
  proof
    fix c assume "c \<in> set (show_nat t)"
    then show "48 \<le> code c \<and> code c \<le> 57" using show_nat_digits [of c t] by linarith
  qed
  moreover have "show_nat t \<noteq> []" by (simp add: show_nat.simps [of t])
  ultimately show ?thesis
    using assms unfolding line_step_def reader_field_def split_once_ascii
    by (simp add: strip_space_def retry_field_def)
qed

lemma join_lines_snoc:
  "length (join_lines (ds @ [v])) = length (join_lines ds) + (if ds = [] then 0 else 1) + length v"
  by (cases ds) (simp_all add: length_join_lines)

lemma join_lines_prefix: "length (join_lines ds) \<le> length (join_lines (ds @ ls))"
  by (auto simp: length_join_lines)

lemma data_field_ok:
  assumes "blk_total_data_size b = length (join_lines (blk_data_lines b))"
    and "length (join_lines (blk_data_lines b @ [v])) \<le> max_sse_message_size"
  shows "data_field v b = Inr (b\<lparr>blk_total_data_size := length (join_lines (blk_data_lines b @ [v])),
    blk_data_lines := blk_data_lines b @ [v]\<rparr>)"
proof -
  have "max_sse_message_size \<le> u64_max"
    by (simp add: max_sse_message_size_def max_sse_line_size_def sse_data_line_wire_overhead_def u64_max_def)
  then show ?thesis
    using assms unfolding join_lines_snoc data_field_def Let_def
    by (simp add: sat_add_exact)
qed

text \<open>The data lines of an event and the blank line that ends it.\<close>

lemma read_data_lines:
  assumes "ready (data_buffer (map (\<lambda>l. ''data: '' @ l) ls) @ LF # rest) r"
    and "list_all (\<lambda>l. wire_line (''data: '' @ l)) ls"
    and "length (join_lines (blk_data_lines b @ ls)) \<le> max_sse_message_size"
    and "blk_total_data_size b = length (join_lines (blk_data_lines b))"
    and "\<not> blk_unknown_event b" and "blk_data_lines b @ ls \<noteq> []"
  shows "\<exists>r'. ready rest r' \<and> rd_last_event_id r' = rd_last_event_id r \<and>
    rd_reconnection_time r' = rd_reconnection_time r \<and>
    read_event_loop [] b c r = (Inr (Some
      \<lparr>ev_type = (case blk_event_type b of Some t \<Rightarrow> t | None \<Rightarrow> Message),
       ev_data = join_lines (blk_data_lines b @ ls), ev_id = rd_last_event_id r,
       ev_retry = rd_reconnection_time r\<rparr>), [], r')"
  using assms
proof (induction ls arbitrary: b c r)
  case Nil
  then have "ready ([] @ LF # rest) r" by simp
  from read_event_loop_line [OF this wire_line_Nil, of b c] Nil show ?case
    by (auto simp: line_step_def block_event_def)
next
  case (Cons l ls)
  let ?b = "b\<lparr>blk_total_data_size := length (join_lines (blk_data_lines b @ [l])),
    blk_data_lines := blk_data_lines b @ [l]\<rparr>"
  have "length (join_lines (blk_data_lines b @ [l])) \<le> max_sse_message_size"
    using Cons.prems(3) join_lines_prefix [of "blk_data_lines b @ [l]" ls] by simp
  note df = data_field_ok [OF Cons.prems(4) this]
  have "ready ((''data: '' @ l) @ LF # data_buffer (map (\<lambda>l. ''data: '' @ l) ls) @ LF # rest) r"
    "wire_line (''data: '' @ l)" using Cons.prems(1,2) by simp_all
  from read_event_loop_line [OF this, of b c] obtain r1 where
    r1: "ready (data_buffer (map (\<lambda>l. ''data: '' @ l) ls) @ LF # rest) r1"
      "rd_last_event_id r1 = rd_last_event_id r" "rd_reconnection_time r1 = rd_reconnection_time r"
      "read_event_loop [] b c r = read_event_loop [] ?b True r1"
    using line_step_fields(2) [of l b] df \<open>wire_line (''data: '' @ l)\<close>
    by (auto simp: wire_line_def)
  from Cons.IH [OF r1(1), of ?b True] Cons.prems r1 show ?case by simp
qed

section \<open>Events and streams\<close>

text \<open>
  The event a reader reports for an event on the wire: CRLF in the payload has become LF, and an
  absent id or retry interval is the last one received before.
\<close>

definition or_else :: "'a option \<Rightarrow> 'a option \<Rightarrow> 'a option" where
  "or_else x y = (case x of Some v \<Rightarrow> Some v | None \<Rightarrow> y)"

definition delivered_event :: "bytes option \<Rightarrow> nat option \<Rightarrow> sse_event \<Rightarrow> sse_event" where
  "delivered_event i t ev =
     ev\<lparr>ev_data := join_lines (payload_lines (ev_data ev)), ev_id := or_else (ev_id ev) i,
        ev_retry := or_else (ev_retry ev) t\<rparr>"

fun delivered :: "bytes option \<Rightarrow> nat option \<Rightarrow> wire_item list \<Rightarrow> sse_event list" where
  "delivered i t [] = []"
| "delivered i t (CommentItem c # items) = delivered i t items"
| "delivered i t (EventItem ev # items) =
     delivered_event i t ev # delivered (or_else (ev_id ev) i) (or_else (ev_retry ev) t) items"

lemma payload_lines_not_Nil [simp]: "payload_lines d \<noteq> []"
  by (simp add: payload_lines_def)

text \<open>The lines of an event in front of its data.\<close>

lemma read_event_head:
  assumes "ready (data_buffer (map (\<lambda>i. ''id: '' @ i) (case ev_id ev of Some i \<Rightarrow> [i] | None \<Rightarrow> []) @
      map (\<lambda>t. ''retry: '' @ show_nat t) (case ev_retry ev of Some t \<Rightarrow> [t] | None \<Rightarrow> [])) @ rest) r"
    and "case ev_id ev of Some i \<Rightarrow> wire_line (''id: '' @ i) \<and> CHR 0x00 \<notin> set i | None \<Rightarrow> True"
    and "case ev_retry ev of Some t \<Rightarrow> wire_line (''retry: '' @ show_nat t) \<and> t \<le> u64_max | None \<Rightarrow> True"
  shows "\<exists>r' c'. ready rest r' \<and> rd_last_event_id r' = or_else (ev_id ev) (rd_last_event_id r) \<and>
    rd_reconnection_time r' = or_else (ev_retry ev) (rd_reconnection_time r) \<and>
    read_event_loop [] b c r = read_event_loop [] b c' r'"
proof -
  let ?rest = "data_buffer (map (\<lambda>t. ''retry: '' @ show_nat t) (case ev_retry ev of Some t \<Rightarrow> [t] | None \<Rightarrow> [])) @ rest"
  have "\<exists>r1 c1. ready ?rest r1 \<and> rd_last_event_id r1 = or_else (ev_id ev) (rd_last_event_id r) \<and>
    rd_reconnection_time r1 = rd_reconnection_time r \<and>
    read_event_loop [] b c r = read_event_loop [] b c1 r1"
  proof (cases "ev_id ev")
    case (Some i)
    then have "ready ((''id: '' @ i) @ LF # ?rest) r" "wire_line (''id: '' @ i)" "CHR 0x00 \<notin> set i"
      using assms(1,2) by simp_all
    then obtain r1 where "ready ?rest r1" "rd_last_event_id r1 = rd_last_event_id r"
      "rd_reconnection_time r1 = rd_reconnection_time r"
      "read_event_loop [] b c r = read_event_loop [] b True (r1\<lparr>rd_last_event_id := Some i\<rparr>)"
      using read_event_field [OF _ _ line_step_fields(3) [of i b], of ?rest r c]
      unfolding wire_line_def by blast
    then show ?thesis using Some
      by (intro exI [of _ "r1\<lparr>rd_last_event_id := Some i\<rparr>"] exI [of _ True]) (simp add: or_else_def)
  qed (use assms(1) in \<open>auto simp: or_else_def\<close>)
  then obtain r1 c1 where r1: "ready ?rest r1" "rd_last_event_id r1 = or_else (ev_id ev) (rd_last_event_id r)"
    "rd_reconnection_time r1 = rd_reconnection_time r"
    "read_event_loop [] b c r = read_event_loop [] b c1 r1" by blast
  show ?thesis
  proof (cases "ev_retry ev")
    case (Some t)
    then have "ready ((''retry: '' @ show_nat t) @ LF # rest) r1" "wire_line (''retry: '' @ show_nat t)"
      "t \<le> u64_max" using assms(3) r1(1) by simp_all
    then obtain r2 where "ready rest r2" "rd_last_event_id r2 = rd_last_event_id r1"
      "rd_reconnection_time r2 = rd_reconnection_time r1"
      "read_event_loop [] b c1 r1 = read_event_loop [] b True (r2\<lparr>rd_reconnection_time := Some t\<rparr>)"
      using read_event_field [OF _ _ line_step_retry [of t b], of rest r1 c1]
      unfolding wire_line_def by blast
    then show ?thesis using Some r1
      by (intro exI [of _ "r2\<lparr>rd_reconnection_time := Some t\<rparr>"] exI [of _ True]) (simp add: or_else_def)
  qed (use r1 in \<open>auto simp: or_else_def\<close>)
qed

lemma event_lines_alt:
  "event_lines ev = (''event: '' @ as_str (ev_type ev)) #
     (map (\<lambda>i. ''id: '' @ i) (case ev_id ev of Some i \<Rightarrow> [i] | None \<Rightarrow> []) @
      map (\<lambda>t. ''retry: '' @ show_nat t) (case ev_retry ev of Some t \<Rightarrow> [t] | None \<Rightarrow> [])) @
     map (\<lambda>l. ''data: '' @ l) (payload_lines (ev_data ev)) @ [[]]"
  by (simp add: event_lines_def split: option.split)

lemma read_event_loop_event:
  assumes valid: "valid_item (EventItem ev)" and r: "ready (item_bytes (EventItem ev) @ rest) r"
  shows "\<exists>r'. ready rest r' \<and> rd_last_event_id r' = or_else (ev_id ev) (rd_last_event_id r) \<and>
    rd_reconnection_time r' = or_else (ev_retry ev) (rd_reconnection_time r) \<and>
    read_event_loop [] empty_block c r =
      (Inr (Some (delivered_event (rd_last_event_id r) (rd_reconnection_time r) ev)), [], r')"
proof -
  from valid obtain u where ok: "validate_event ev = Inr u" "typed_event ev"
    by (auto simp: is_ok_iff)
  note wire = event_lines_wire [OF ok]
  let ?data = "data_buffer (map (\<lambda>l. ''data: '' @ l) (payload_lines (ev_data ev))) @ LF # rest"
  let ?b = "empty_block\<lparr>blk_event_type := Some (ev_type ev), blk_unknown_event := False\<rparr>"
  have ty: "wire_line (''event: '' @ as_str (ev_type ev))" using wire by (simp add: event_lines_alt)
  have idr: "case ev_id ev of Some i \<Rightarrow> wire_line (''id: '' @ i) \<and> CHR 0x00 \<notin> set i | None \<Rightarrow> True"
    "case ev_retry ev of Some t \<Rightarrow> wire_line (''retry: '' @ show_nat t) \<and> t \<le> u64_max | None \<Rightarrow> True"
    using wire ok by (auto simp: event_lines_alt typed_event_def validate_event_def validate_id_def
        has_control_def list_ex_iff split: option.splits if_split_asm sum.split_asm)
  let ?head = "data_buffer (map (\<lambda>i. ''id: '' @ i) (case ev_id ev of Some i \<Rightarrow> [i] | None \<Rightarrow> []) @
      map (\<lambda>t. ''retry: '' @ show_nat t) (case ev_retry ev of Some t \<Rightarrow> [t] | None \<Rightarrow> []))"
  have "item_bytes (EventItem ev) @ rest = (''event: '' @ as_str (ev_type ev)) @ LF # ?head @ ?data"
    by (simp only: item_bytes_def item_lines.simps event_lines_alt data_buffer_simps append_assoc
        append_Cons append_Nil)
  with r have "ready ((''event: '' @ as_str (ev_type ev)) @ LF # ?head @ ?data) r" by (simp only:)
  then obtain r1 where r1: "ready (?head @ ?data) r1"
    "rd_last_event_id r1 = rd_last_event_id r" "rd_reconnection_time r1 = rd_reconnection_time r"
    "read_event_loop [] empty_block c r = read_event_loop [] ?b True r1"
    using read_event_field [OF _ ty line_step_fields(1) [of "ev_type ev" empty_block], of _ r c] ty
    unfolding wire_line_def by blast
  from read_event_head [OF r1(1) idr, of ?b True] obtain r2 c2 where
    r2: "ready ?data r2" "rd_last_event_id r2 = or_else (ev_id ev) (rd_last_event_id r)"
    "rd_reconnection_time r2 = or_else (ev_retry ev) (rd_reconnection_time r)"
    "read_event_loop [] empty_block c r = read_event_loop [] ?b c2 r2"
    using r1(2-4) by auto
  have "length (join_lines (payload_lines (ev_data ev))) \<le> max_sse_message_size"
    using payload_lines_length [of "ev_data ev"] ok(1)
    by (auto simp: validate_event_def split: if_split_asm)
  with read_data_lines [OF r2(1), of ?b c2] wire r2 show ?thesis
    by (auto simp: empty_block_def event_lines_alt list_all_iff delivered_event_def)
qed

text \<open>Reading until the end of the stream or an error, with a budget that lasts.\<close>

function drain_events :: "sse_reader \<Rightarrow> sse_event list \<times> transport_error option" where
  "drain_events r =
     (case read_event [] r of
        (Inl e, _, _) \<Rightarrow> ([], Some e)
      | (Inr None, _, _) \<Rightarrow> ([], None)
      | (Inr (Some ev), _, r') \<Rightarrow> (case drain_events r' of (evs, e) \<Rightarrow> (ev # evs, e)))"
  by pat_completeness auto

termination
  by (relation "measure input_size") (auto dest!: sym [where t = "read_event _ _"] dest: read_event_size)

declare drain_events.simps [simp del]

abbreviation items_bytes :: "wire_item list \<Rightarrow> bytes" where
  "items_bytes items \<equiv> concat (map item_bytes items)"

text \<open>What the next call finds: the next event with the items behind it, or the end.\<close>

definition next_found ::
  "wire_item list \<Rightarrow> sse_reader \<Rightarrow> (transport_error + sse_event option) \<times> cx \<times> sse_reader \<Rightarrow> bool" where
  "next_found items r res \<longleftrightarrow>
     (case res of
        (Inr None, _, _) \<Rightarrow> delivered (rd_last_event_id r) (rd_reconnection_time r) items = []
      | (Inr (Some ev), _, r') \<Rightarrow>
          (\<exists>items'. length items' < length items \<and> list_all valid_item items' \<and>
             ready (items_bytes items') r' \<and>
             delivered (rd_last_event_id r) (rd_reconnection_time r) items =
               ev # delivered (rd_last_event_id r') (rd_reconnection_time r') items')
      | (Inl e, _, _) \<Rightarrow> False)"

lemma comment_wire_line: "valid_item (CommentItem c) \<Longrightarrow> wire_line ('': '' @ c)"
  by (rule wire_line_prefix) (auto simp: is_eol_def has_control_def list_ex_iff)

lemma line_step_comment:
  "utf8_valid ('': '' @ c) \<Longrightarrow> line_step ('': '' @ c) b r = (Inr (Inr b), r)"
  by (simp add: line_step_def)

lemma read_event_loop_items:
  assumes "list_all valid_item items" and "ready (items_bytes items) r"
  shows "next_found items r (read_event_loop [] empty_block c r)"
  using assms
proof (induction items arbitrary: r c)
  case Nil
  then show ?case
    using read_line_end [of "r\<lparr>rd_line_buffer := []\<rparr>" 0 c]
    by (auto simp: next_found_def read_event_loop.simps [of "[]"] ready_def pending_def)
next
  case (Cons i items)
  show ?case
  proof (cases i)
    case (EventItem ev)
    with Cons.prems have "valid_item (EventItem ev)" "ready (item_bytes (EventItem ev) @ items_bytes items) r"
      by simp_all
    from read_event_loop_event [OF this, of c] EventItem Cons.prems(1) show ?thesis
      by (auto simp: next_found_def intro!: exI [of _ items])
  next
    case (CommentItem cm)
    note wire = comment_wire_line [of cm]
    from Cons.prems CommentItem have "ready (('': '' @ cm) @ LF # items_bytes items) r" "valid_item (CommentItem cm)"
      by (simp_all add: item_bytes_def [of "CommentItem cm"])
    then obtain r1 where r1: "ready (items_bytes items) r1" "rd_last_event_id r1 = rd_last_event_id r"
      "rd_reconnection_time r1 = rd_reconnection_time r"
      "read_event_loop [] empty_block c r = read_event_loop [] empty_block True r1"
      using read_event_field [OF _ wire line_step_comment [of cm empty_block], of _ r c] wire
      unfolding wire_line_def by blast
    have "next_found items r1 (read_event_loop [] empty_block True r1)"
      using Cons.IH [OF _ r1(1)] Cons.prems(1) by simp
    then show ?thesis unfolding r1(4) next_found_def CommentItem delivered.simps r1(2,3)
      by (auto split: prod.splits sum.splits option.splits intro: less_SucI)
  qed
qed

lemma drain_items:
  assumes "list_all valid_item items" and "ready (items_bytes items) r"
  shows "drain_events r = (delivered (rd_last_event_id r) (rd_reconnection_time r) items, None)"
  using assms
proof (induction "length items" arbitrary: items r rule: less_induct)
  case less
  obtain x cx r' where run: "read_event_loop [] empty_block False r = (x, cx, r')"
    using prod_cases3 by blast
  have nt: "\<not> rd_terminal r" using less.prems(2) by (simp add: ready_def)
  then have re: "read_event [] r = (x, cx, r')" by (simp add: read_event_def run)
  note nf = read_event_loop_items [OF less.prems, of False, unfolded run next_found_def]
  show ?case
  proof (cases x)
    case (Inr o')
    show ?thesis
    proof (cases o')
      case None
      with nf Inr re show ?thesis by (simp add: drain_events.simps [of r])
    next
      case (Some ev)
      with nf Inr obtain items' where it: "length items' < length items" "list_all valid_item items'"
        "ready (items_bytes items') r'" "delivered (rd_last_event_id r) (rd_reconnection_time r) items =
               ev # delivered (rd_last_event_id r') (rd_reconnection_time r') items'" by auto
      from less.hyps [OF it(1-3)] it(4) Inr Some re show ?thesis
        by (simp add: drain_events.simps [of r])
    qed
  qed (use nf in simp)
qed

section \<open>Properties\<close>

text \<open>
  C10: Frames are atomic on the wire.  After any sequence of calls of a new writer, with any budgets
  and any partial, interrupted or failing writes and flushes, the output has accepted exactly the
  frames of the calls that succeeded, in order, followed by nothing or by the beginning of one more
  frame; in the latter case the writer is closed, so that no later frame can be appended to the
  broken one.
\<close>

theorem writer_output_is_frames:
  assumes "out_accepted out = []" and "list_all typed_op ops"
    and "fold (wire_step encode) ops (writer_new out, []) = (w, items)"
  shows "\<exists>tail rest. list_all valid_item items \<and>
    out_accepted (wr_out w) = concat (map item_bytes items) @ tail \<and>
    (tail \<noteq> [] \<longrightarrow> wr_closed w \<and> (\<exists>i. valid_item i \<and> item_bytes i = tail @ rest))"
  using writer_machine.run_keeps [OF wire_inv_new [OF assms(1)], of encode ops] assms(2,3)
  by (auto simp: wire_inv_def admissible_typed)

lemmas writer_eval = wire_step_def write_message_def write_comment_def write_event_def
  writer_commit_def sse_commit_frame_def commit_write.simps commit_flush.simps out_write_def
  out_flush_def to_bytes_def validate_event_def validate_id_def event_lines_def payload_lines_def
  strip_cr_eq has_control_def max_sse_message_size_def max_sse_line_size_def
  sse_data_line_wire_overhead_def with_id_def message_event_def show_nat.simps digit_char_def
  checked_add_def sat_add_def u64_max_def writer_new_def typed_event_def

definition example_out :: sse_out where
  "example_out = \<lparr>out_accepted = [], out_writes = [Wrote 9, WriteInterrupted], out_flushes = []\<rparr>"

definition example_ops :: "bytes writer_op list" where
  "example_ops = [WriteMessage [] ''{}'', WriteComment [Exhausted None DeadlineExceeded] ''x'',
     WriteComment [] ''x'']"

lemma example_writer_run:
  "fold (wire_step (\<lambda>m. Inr (m @ [LF]))) example_ops (writer_new example_out, []) =
     (\<lparr>wr_out = \<lparr>out_accepted = ''event: message'' @ [LF] @ ''id: 1'' @ [LF] @ ''data: {}'' @ [LF, LF] @
          '': x'' @ [LF], out_writes = [], out_flushes = []\<rparr>,
       wr_event_counter = 1, wr_closed = False\<rparr>,
      [EventItem (with_id ''1'' (message_event ''{}'')), CommentItem ''x''])"
proof -
  have "show_nat 1 = ''1''" by code_simp
  then show ?thesis
    by (simp add: example_ops_def example_out_def writer_eval del: utf8_valid.simps(2))
qed

theorem writer_output_is_frames_witness:
  "\<exists>tail. ''event: message'' @ [LF] @ ''id: 1'' @ [LF] @ ''data: {}'' @ [LF, LF] @ '': x'' @ [LF] =
     item_bytes (EventItem (with_id ''1'' (message_event ''{}''))) @ item_bytes (CommentItem ''x'') @ tail"
  using writer_output_is_frames [OF _ _ example_writer_run]
  by (auto simp: example_out_def example_ops_def)

text \<open>
  C11: What is written is what is read.  When a new writer is still open after any sequence of calls,
  and a new reader receives the accepted bytes in reads of any sizes, possibly interrupted, then the
  reader reports exactly the events of the successful calls, in order, and then the end of the
  stream.  Each event has its type and its payload (a CRLF in the payload has become LF); its id and
  retry interval are its own or, where it has none, the last ones received.  Comments are not
  reported, refused and failed calls leave no trace.
\<close>

theorem reader_receives_written_events:
  assumes "out_accepted out = []" and "list_all typed_op ops"
    and "fold (wire_step encode) ops (writer_new out, []) = (w, items)" and "\<not> wr_closed w"
    and "list_all live_answer reads"
    and "concat (map answer_bytes reads) = out_accepted (wr_out w)"
  shows "drain_events (reader_new reads) = (delivered None None items, None)"
proof -
  have "wire_inv (w, items)"
    using writer_machine.run_keeps [OF wire_inv_new [OF assms(1)], of encode ops] assms(2,3)
    by (simp add: admissible_typed)
  then have "list_all valid_item items" "out_accepted (wr_out w) = items_bytes items"
    using assms(4) by (auto simp: wire_inv_def)
  moreover have "ready (out_accepted (wr_out w)) (reader_new reads)"
    using assms(5,6) by (simp add: ready_def pending_def reader_new_def)
  ultimately show ?thesis
    using drain_items [of items "reader_new reads"] by (simp add: reader_new_def)
qed

theorem reader_receives_written_events_witness:
  "drain_events (reader_new [Chunk ''event: me'', ReadInterrupted, Chunk (''ssage'' @ [LF] @ ''id: 1'' @ [LF] @
     ''data: {}'' @ [LF, LF] @ '': x''), Chunk [LF]]) =
   ([\<lparr>ev_type = Message, ev_data = ''{}'', ev_id = Some ''1'', ev_retry = None\<rparr>], None)"
  using reader_receives_written_events [OF _ _ example_writer_run, of
      "[Chunk ''event: me'', ReadInterrupted, Chunk (''ssage'' @ [LF] @ ''id: 1'' @ [LF] @
     ''data: {}'' @ [LF, LF] @ '': x''), Chunk [LF]]"]
  by (simp add: example_out_def example_ops_def delivered_event_def or_else_def with_id_def
      message_event_def payload_lines_def strip_cr_eq)

text \<open>
  C38: A truncated id is kept.  When the connection ends inside an \<open>id\<close> line, the reader reports the
  end of the stream and no event, but it has taken the unterminated line for a complete one: the part
  of the id that arrived becomes the last event id.
\<close>

theorem truncated_id_is_kept:
  assumes "utf8_valid i" and "\<not> has_control i" and "length i + 4 \<le> max_sse_line_size"
  shows "\<exists>r'. read_event [] (reader_new [Chunk (''id: '' @ i)]) = (Inr None, [], r') \<and>
    rd_last_event_id r' = Some i"
proof -
  let ?l = "''id: '' @ i" and ?r = "reader_new [Chunk (''id: '' @ i)]"
  let ?r1 = "?r\<lparr>rd_reads := [], rd_line_buffer := ?l\<rparr>"
  have delim: "position is_delim ?l = None"
    using assms(2) by (auto simp: position_None_iff is_delim_def has_control_def list_ex_iff)
  have fill: "fill_buf ?r = (Chunk ?l, ?r\<lparr>rd_buffer := ?l, rd_reads := []\<rparr>)"
    by (simp add: fill_buf_def reader_new_def)
  have "sat_add 0 (length ?l) \<le> max_sse_line_size"
    using assms(3) by (simp add: sat_add_def)
  then have "read_line_bounded [] 0 False ?r = read_line_bounded [] (length ?l) True ?r1"
    using read_line_chunk(1) [OF _ fill _ _ delim, of "[]" _ "[]" 0 False]
    by (simp add: reader_new_def consume_def)
  moreover have "read_line_bounded [] (length ?l) True ?r1 = (Inr (length ?l), [], True, ?r1)"
    by (rule read_line_no_chunk(3) [of _ "()"]) (simp_all add: fill_buf_def reader_new_def)
  ultimately have rl: "read_line_bounded [] 0 False (?r\<lparr>rd_line_buffer := []\<rparr>) = (Inr (length ?l), [], True, ?r1)"
    by (simp add: reader_new_def)
  have step: "line_step ?l empty_block ?r1 = (Inr (Inr empty_block), ?r1\<lparr>rd_last_event_id := Some i\<rparr>)"
    using assms(1,2) by (intro line_step_fields(3))
      (auto simp: utf8_valid_ascii_prefix has_control_def list_ex_iff)
  have "read_event_loop [] empty_block False ?r =
      read_event_loop [] empty_block True (?r1\<lparr>rd_last_event_id := Some i\<rparr>)"
    using read_event_round [OF rl, of "()" "[]" empty_block] step by simp
  also have "\<dots> = (Inr None, [], ?r1\<lparr>rd_last_event_id := Some i, rd_line_buffer := [], rd_terminal := True\<rparr>)"
    using read_line_no_chunk(3) [of "[]" "()" "[]"]
    by (simp add: read_event_loop.simps [of "[]"] fill_buf_def reader_new_def)
  finally show ?thesis by (simp add: read_event_def reader_new_def)
qed

theorem truncated_id_is_kept_witness:
  "\<exists>r'. read_event [] (reader_new [Chunk ''id: 4'']) = (Inr None, [], r') \<and>
    rd_last_event_id r' = Some ''4''"
  using truncated_id_is_kept [of "''4''"] by (simp add: has_control_def max_sse_line_size_def)

end
