(* ===== verification/Sse_Delivery.thy ===== *)
theory Sse_Delivery
  imports Modern_Sse Sse_Reader_Laws
begin

text \<open>
  The frames of the transport's writer in the client's event-stream parser and in the transport's
  decoder: every frame that fits the limits is accepted and yields its payload.
\<close>

section \<open>One line\<close>

lemma push_content:
  assumes "\<forall>b \<in> set l. \<not> is_eol b" and "\<not> pending_cr p"
    and "length (raw_line p) + length l \<le> lim_line_bytes (limits p)"
  shows "push_bytes accept (l @ rest) p c act =
    push_bytes accept rest (p\<lparr>raw_line := raw_line p @ l\<rparr>) c act"
  using assms
proof (induction l arbitrary: p)
  case (Cons b l)
  have same: "p\<lparr>pending_cr := False, raw_line := x\<rparr> = p\<lparr>raw_line := x\<rparr>" for x
    using Cons.prems(2) by (cases p) simp
  have "push_bytes accept ((b # l) @ rest) p c act =
      push_bytes accept (l @ rest) (p\<lparr>raw_line := raw_line p @ [b]\<rparr>) c act"
    using Cons.prems by (simp add: is_eol_def Let_def same)
  also have "\<dots> = push_bytes accept rest (p\<lparr>raw_line := raw_line p @ b # l\<rparr>) c act"
    using Cons.IH [of "p\<lparr>raw_line := raw_line p @ [b]\<rparr>"] Cons.prems by simp
  finally show ?case .
qed simp

text \<open>The parser stands at the start of a line.\<close>

definition at_line :: "sse_limits \<Rightarrow> sse_parser \<Rightarrow> bool" where
  "at_line lim p \<longleftrightarrow> limits p = lim \<and> raw_line p = [] \<and> \<not> pending_cr p \<and> \<not> poisoned p"

lemma push_line:
  assumes "at_line lim p" and "wire_line l" and "max_sse_line_size \<le> lim_line_bytes lim"
    and "\<not> starts_with l utf8_bom"
    and "process_line_with accept l (length l) (p\<lparr>bom_window_open := False\<rparr>) c = (Inr a, p', c')"
  shows "push_bytes accept (l @ LF # rest) p c act = push_bytes accept rest p' c' (act \<or> a)"
proof -
  let ?p = "p\<lparr>raw_line := l\<rparr>"
  have l: "utf8_valid l" "\<forall>b \<in> set l. \<not> is_eol b" "length l \<le> lim_line_bytes (limits p)"
    using assms(1-3) by (auto simp: wire_line_def at_line_def)
  have lossy: "from_utf8_lossy l = l" by (rule from_utf8_lossy_valid [OF l(1)])
  have reset: "p\<lparr>raw_line := [], bom_window_open := False\<rparr> = p\<lparr>bom_window_open := False\<rparr>"
    using assms(1) by (cases p) (simp add: at_line_def)
  have same: "?p\<lparr>pending_cr := False\<rparr> = ?p" using assms(1) by (cases p) (simp add: at_line_def)
  have "complete_line_with accept ?p c = (Inr a, p', c')"
    unfolding complete_line_with_def Let_def
    using assms(4,5) l(3) lossy reset by simp
  moreover have "push_bytes accept (l @ LF # rest) p c act = push_bytes accept (LF # rest) ?p c act"
    using push_content [of l p accept "LF # rest" c act] assms(1) l by (simp add: at_line_def)
  ultimately show ?thesis using assms(1) by (simp add: Let_def at_line_def same)
qed

section \<open>One item\<close>

text \<open>What the parser holds of the event being received: its data lines \<open>ls\<close>.\<close>

definition holds_lines :: "sse_limits \<Rightarrow> bytes list \<Rightarrow> nat \<Rightarrow> sse_parser \<Rightarrow> bool" where
  "holds_lines lim ls k p \<longleftrightarrow> at_line lim p \<and> sse_data p = data_buffer ls \<and>
     event_raw_bytes p \<le> sum_list (map (\<lambda>l. length l + 6) ls) \<and>
     event_data_lines p \<le> length ls \<and> keepalive_lines p \<le> k"

lemma holds_lines_mono: "holds_lines lim ls k p \<Longrightarrow> k \<le> k' \<Longrightarrow> holds_lines lim ls k' p"
  by (simp add: holds_lines_def)

lemma push_inert_line:
  assumes "holds_lines lim ls k p" and "wire_line l" and "max_sse_line_size \<le> lim_line_bytes lim"
    and "l \<noteq> []" and "hd l = CHR '':'' \<or> fst (line_field l) \<noteq> ''data''"
    and "\<not> starts_with l utf8_bom" and "k < lim_keepalive_lines lim"
  shows "\<exists>p' act'. holds_lines lim ls (Suc k) p' \<and>
    push_bytes accept (l @ LF # rest) p c act = push_bytes accept rest p' c act'"
proof -
  let ?p = "p\<lparr>bom_window_open := False, keepalive_lines := sat_add (keepalive_lines p) 1\<rparr>"
  have at: "at_line lim p" "sat_add (keepalive_lines p) 1 \<le> Suc k"
    using assms(1) sat_add_le_sum [of "keepalive_lines p" 1] by (simp_all add: holds_lines_def)
  have "\<exists>a. process_line_with accept l (length l) (p\<lparr>bom_window_open := False\<rparr>) c = (Inr a, ?p, c)"
    using assms(4,5,7) at
    by (auto simp: process_line_with_def count_non_dispatching_line_def Let_def at_line_def
        split: prod.split)
  then obtain a where
    "process_line_with accept l (length l) (p\<lparr>bom_window_open := False\<rparr>) c = (Inr a, ?p, c)" ..
  from push_line [OF at(1) assms(2,3,6) this]
  have "push_bytes accept (l @ LF # rest) p c act = push_bytes accept rest ?p c (act \<or> a)" .
  moreover have "holds_lines lim ls (Suc k) ?p"
    using assms(1) at by (simp add: holds_lines_def at_line_def)
  ultimately show ?thesis by blast
qed

lemma push_data_line:
  assumes "holds_lines lim ls k p" and "wire_line (''data: '' @ l)"
    and "max_sse_line_size \<le> lim_line_bytes lim"
    and "sum_list (map (\<lambda>l. length l + 6) (ls @ [l])) \<le> lim_event_bytes lim"
    and "length (ls @ [l]) \<le> lim_data_lines lim"
  shows "\<exists>p' act'. holds_lines lim (ls @ [l]) 0 p' \<and>
    push_bytes accept ((''data: '' @ l) @ LF # rest) p c act = push_bytes accept rest p' c act'"
proof -
  have lf: "line_field (''data: '' @ l) = (''data'', l)"
    by (simp add: line_field_def split_once_def strip_space_def)
  let ?raw = "sat_add (event_raw_bytes p) (length (''data: '' @ l))"
  let ?n = "sat_add (event_data_lines p) 1"
  let ?p = "p\<lparr>bom_window_open := False, sse_data := sse_data p @ l @ [LF], event_raw_bytes := ?raw,
     event_data_lines := ?n, keepalive_lines := 0\<rparr>"
  have at: "at_line lim p" "sse_data p = data_buffer ls" using assms(1) by (simp_all add: holds_lines_def)
  have raw: "?raw \<le> sum_list (map (\<lambda>l. length l + 6) (ls @ [l]))"
    using assms(1) sat_add_le_sum [of "event_raw_bytes p" "length (''data: '' @ l)"]
    by (simp add: holds_lines_def)
  have n: "?n \<le> length (ls @ [l])"
    using assms(1) sat_add_le_sum [of "event_data_lines p" 1] by (simp add: holds_lines_def)
  have "length (data_buffer ls) + length l + 1 \<le> sum_list (map (\<lambda>l. length l + 6) (ls @ [l]))"
    using sum_list_mono [of ls "\<lambda>l. length l + 1" "\<lambda>l. length l + 6"] by (simp add: data_buffer_length)
  moreover have "sat_add (sat_add (length (sse_data p)) (length l)) 1 \<le> length (sse_data p) + length l + 1"
    using sat_add_le_sum [of "sat_add (length (sse_data p)) (length l)" 1]
      sat_add_le_sum [of "length (sse_data p)" "length l"] by linarith
  ultimately have dec: "sat_add (sat_add (length (sse_data p)) (length l)) 1 \<le> lim_event_bytes lim"
    using assms(4) unfolding at(2) by linarith
  have "append_data l (length (''data: '' @ l)) (p\<lparr>bom_window_open := False\<rparr>) =
      (Inr False :: 'a sse_push_error + bool, ?p)"
    using dec raw n assms(4,5) at unfolding append_data_def Let_def at_line_def by simp
  then have pl: "process_line_with accept (''data: '' @ l) (length (''data: '' @ l))
      (p\<lparr>bom_window_open := False\<rparr>) c = (Inr False, ?p, c)"
    unfolding process_line_with_def lf by simp
  have bom: "\<not> starts_with (''data: '' @ l) utf8_bom"
    by (simp add: starts_with_def utf8_bom_def)
  have "holds_lines lim (ls @ [l]) 0 ?p"
    using at raw n by (simp add: holds_lines_def at_line_def)
  then show ?thesis using push_line [OF at(1) assms(2,3) bom pl] by blast
qed

lemma push_data_lines:
  assumes "holds_lines lim ds k p" and "list_all (\<lambda>l. wire_line (''data: '' @ l)) ls"
    and "max_sse_line_size \<le> lim_line_bytes lim"
    and "sum_list (map (\<lambda>l. length l + 6) (ds @ ls)) \<le> lim_event_bytes lim"
    and "length (ds @ ls) \<le> lim_data_lines lim" and "ls \<noteq> []"
  shows "\<exists>p' act'. holds_lines lim (ds @ ls) 0 p' \<and>
    push_bytes accept (data_buffer (map (\<lambda>l. ''data: '' @ l) ls) @ rest) p c act =
      push_bytes accept rest p' c act'"
  using assms
proof (induction ls arbitrary: ds k p act)
  case (Cons l ls)
  let ?rest = "data_buffer (map (\<lambda>l. ''data: '' @ l) ls) @ rest"
  obtain p1 act1 where p1: "holds_lines lim (ds @ [l]) 0 p1"
    "push_bytes accept ((''data: '' @ l) @ LF # ?rest) p c act = push_bytes accept ?rest p1 c act1"
    using push_data_line [OF Cons.prems(1), of l accept ?rest c act] Cons.prems by auto
  show ?case
  proof (cases ls)
    case Nil
    with p1 show ?thesis by auto
  next
    case (Cons m ms)
    with Cons.IH [OF p1(1), of act1] Cons.prems p1(2) show ?thesis by simp
  qed
qed simp

lemma push_blank_line:
  assumes "holds_lines lim ls k p" and "ls \<noteq> []" and "max_sse_line_size \<le> lim_line_bytes lim"
  shows "\<exists>p' act'. holds_lines lim [] 0 p' \<and>
    push_bytes collect (LF # rest) p ds act = push_bytes collect rest p' (ds @ [join_lines ls]) act'"
proof -
  let ?p = "p\<lparr>bom_window_open := False, sse_data := [], event_raw_bytes := 0, event_data_lines := 0,
     keepalive_lines := 0\<rparr>"
  have at: "at_line lim p" "sse_data p = data_buffer ls" using assms(1) by (simp_all add: holds_lines_def)
  have bom: "\<not> starts_with [] utf8_bom" by (simp add: starts_with_def utf8_bom_def)
  have "process_line_with collect [] (length []) (p\<lparr>bom_window_open := False\<rparr>) ds =
      (Inr False, ?p, ds @ [join_lines ls])"
    using assms(2) at data_buffer_payload [OF assms(2)]
    by (simp add: process_line_with_def collect_def Let_def)
  from push_line [OF at(1) wire_line_Nil assms(3) bom this, of rest act]
  have "push_bytes collect (LF # rest) p ds act = push_bytes collect rest ?p (ds @ [join_lines ls]) (act \<or> False)"
    by simp
  moreover have "holds_lines lim [] 0 ?p" using at by (simp add: holds_lines_def at_line_def)
  ultimately show ?thesis by blast
qed

text \<open>The lines of an event in front of its data are inert.\<close>

definition head_lines :: "sse_event \<Rightarrow> bytes list" where
  "head_lines ev = (''event: '' @ as_str (ev_type ev)) #
     map (\<lambda>i. ''id: '' @ i) (case ev_id ev of Some i \<Rightarrow> [i] | None \<Rightarrow> []) @
     map (\<lambda>t. ''retry: '' @ show_nat t) (case ev_retry ev of Some t \<Rightarrow> [t] | None \<Rightarrow> [])"

definition inert_line :: "bytes \<Rightarrow> bool" where
  "inert_line l \<longleftrightarrow> l \<noteq> [] \<and> (hd l = CHR '':'' \<or> fst (line_field l) \<noteq> ''data'') \<and>
     \<not> starts_with l utf8_bom"

lemma head_lines_inert: "list_all inert_line (head_lines ev)" "length (head_lines ev) \<le> 3"
proof -
  have "line_field (''event: '' @ v) = (''event'', v)" "line_field (''id: '' @ v) = (''id'', v)"
    "line_field (''retry: '' @ v) = (''retry'', v)" for v
    unfolding line_field_def split_once_ascii by (simp_all add: strip_space_def)
  then have "inert_line (''event: '' @ v)" "inert_line (''id: '' @ v)" "inert_line (''retry: '' @ v)" for v
    by (simp_all add: inert_line_def starts_with_def utf8_bom_def)
  then show "list_all inert_line (head_lines ev)"
    unfolding head_lines_def list_all_iff by (auto split: option.splits)
  show "length (head_lines ev) \<le> 3" by (simp add: head_lines_def split: option.split)
qed

lemma push_inert_lines:
  assumes "holds_lines lim ds k p" and "list_all inert_line ls" and "list_all wire_line ls"
    and "max_sse_line_size \<le> lim_line_bytes lim" and "k + length ls \<le> lim_keepalive_lines lim"
  shows "\<exists>p' act'. holds_lines lim ds (k + length ls) p' \<and>
    push_bytes accept (data_buffer ls @ rest) p c act = push_bytes accept rest p' c act'"
  using assms
proof (induction ls arbitrary: k p act)
  case (Cons l ls)
  obtain p1 act1 where p1: "holds_lines lim ds (Suc k) p1"
    "push_bytes accept (l @ LF # data_buffer ls @ rest) p c act =
      push_bytes accept (data_buffer ls @ rest) p1 c act1"
    using push_inert_line [OF Cons.prems(1), of l accept "data_buffer ls @ rest" c act] Cons.prems
    by (auto simp: inert_line_def)
  with Cons.IH [OF p1(1), of act1] Cons.prems show ?case by simp
qed auto

section \<open>Streams of items\<close>

text \<open>
  The limits leave room for the items: for every line, for the raw and decoded bytes and the data
  lines of each event, and for the inert lines between two data lines.
\<close>

fun item_fits :: "sse_limits \<Rightarrow> wire_item \<Rightarrow> bool" where
  "item_fits lim (EventItem ev) \<longleftrightarrow>
     sum_list (map (\<lambda>l. length l + 6) (payload_lines (ev_data ev))) \<le> lim_event_bytes lim \<and>
     length (payload_lines (ev_data ev)) \<le> lim_data_lines lim"
| "item_fits lim (CommentItem c) \<longleftrightarrow> True"

fun is_comment :: "wire_item \<Rightarrow> bool" where
  "is_comment (EventItem ev) = False"
| "is_comment (CommentItem c) = True"

definition room_for_items :: "sse_limits \<Rightarrow> wire_item list \<Rightarrow> bool" where
  "room_for_items lim items \<longleftrightarrow> max_sse_line_size \<le> lim_line_bytes lim \<and>
     list_all (item_fits lim) items \<and>
     3 + length (filter is_comment items) \<le> lim_keepalive_lines lim"

fun payloads :: "wire_item list \<Rightarrow> bytes list" where
  "payloads [] = []"
| "payloads (CommentItem c # items) = payloads items"
| "payloads (EventItem ev # items) = join_lines (payload_lines (ev_data ev)) # payloads items"

lemma payloads_delivered: "payloads items = map ev_data (delivered i t items)"
  by (induction items arbitrary: i t rule: payloads.induct) (simp_all add: delivered_event_def)

lemma push_event:
  assumes valid: "valid_item (EventItem ev)" and p: "holds_lines lim [] k p"
    and fits: "item_fits lim (EventItem ev)" and line: "max_sse_line_size \<le> lim_line_bytes lim"
    and k: "k + 3 \<le> lim_keepalive_lines lim"
  shows "\<exists>p' act'. holds_lines lim [] 0 p' \<and>
    push_bytes collect (item_bytes (EventItem ev) @ rest) p ds act =
      push_bytes collect rest p' (ds @ [join_lines (payload_lines (ev_data ev))]) act'"
proof -
  from valid obtain u where ok: "validate_event ev = Inr u" "typed_event ev"
    by (auto simp: is_ok_iff)
  let ?ls = "payload_lines (ev_data ev)"
  let ?data = "data_buffer (map (\<lambda>l. ''data: '' @ l) ?ls) @ LF # rest"
  have lines: "event_lines ev = head_lines ev @ map (\<lambda>l. ''data: '' @ l) ?ls @ [[]]"
    by (simp add: event_lines_alt head_lines_def)
  have bytes: "item_bytes (EventItem ev) @ rest = data_buffer (head_lines ev) @ ?data"
    by (simp add: item_bytes_def lines del: append_Cons)
  have wire: "list_all wire_line (head_lines ev)" "list_all (\<lambda>l. wire_line (''data: '' @ l)) ?ls"
    using event_lines_wire [OF ok] unfolding lines by (simp_all add: list_all_iff)
  obtain p1 act1 where p1: "holds_lines lim [] (k + length (head_lines ev)) p1"
    "push_bytes collect (data_buffer (head_lines ev) @ ?data) p ds act = push_bytes collect ?data p1 ds act1"
    using push_inert_lines [OF p head_lines_inert(1) wire(1) line, of collect ?data ds act]
      k head_lines_inert(2) [of ev] by auto
  obtain p2 act2 where p2: "holds_lines lim ?ls 0 p2"
    "push_bytes collect ?data p1 ds act1 = push_bytes collect (LF # rest) p2 ds act2"
    using push_data_lines [OF p1(1) wire(2) line, of collect "LF # rest" ds act1] fits by auto
  from push_blank_line [OF p2(1) _ line, of rest ds act2] show ?thesis
    unfolding bytes p1(2) p2(2) by simp
qed

lemma push_items:
  assumes "list_all valid_item items" and "list_all (item_fits lim) items"
    and "max_sse_line_size \<le> lim_line_bytes lim" and "holds_lines lim [] k p"
    and "k + 3 + length (filter is_comment items) \<le> lim_keepalive_lines lim"
  shows "\<exists>p' act'. push_bytes collect (items_bytes items) p ds act = (Inr act', p', ds @ payloads items)"
  using assms
proof (induction items arbitrary: k p ds act rule: payloads.induct)
  case (2 c items)
  have wire: "list_all wire_line ['': '' @ c]" "list_all inert_line ['': '' @ c]"
    using "2.prems"(1) comment_wire_line [of c]
    by (simp_all add: inert_line_def starts_with_def utf8_bom_def)
  obtain p1 act1 where "holds_lines lim [] (Suc k) p1"
    "push_bytes collect (data_buffer ['': '' @ c] @ items_bytes items) p ds act =
      push_bytes collect (items_bytes items) p1 ds act1"
    using push_inert_lines [OF "2.prems"(4) wire(2,1) "2.prems"(3), of collect "items_bytes items" ds act]
      "2.prems"(5) by auto
  with "2.IH" [of "Suc k" p1 ds act1] "2.prems" show ?case by (simp add: item_bytes_def [of "CommentItem c"])
next
  case (3 ev items)
  obtain p1 act1 where "holds_lines lim [] 0 p1"
    "push_bytes collect (item_bytes (EventItem ev) @ items_bytes items) p ds act =
      push_bytes collect (items_bytes items) p1 (ds @ [join_lines (payload_lines (ev_data ev))]) act1"
    using push_event [of ev lim k p "items_bytes items" ds act] "3.prems" by auto
  with "3.IH" [of 0 p1 "ds @ [join_lines (payload_lines (ev_data ev))]" act1] "3.prems"
  show ?case by simp
qed simp

lemma items_accepted:
  assumes "list_all valid_item items" and "room_for_items lim items"
    and "concat chunks = items_bytes items"
  shows "fst (push_all chunks (sse_new lim)) = Some (Inr (payloads items))"
proof -
  have "holds_lines lim [] 0 (sse_new lim)"
    by (simp add: holds_lines_def at_line_def sse_new_def)
  from push_items [OF assms(1) _ _ this, of "[]" False] assms(2)
  obtain p' act' where "push_bytes collect (items_bytes items) (sse_new lim) [] False = (Inr act', p', payloads items)"
    by (auto simp: room_for_items_def)
  from push_bytes_all [of chunks "sse_new lim", unfolded assms(3), OF this]
  show ?thesis by (simp add: sse_new_def)
qed

text \<open>The number of data lines of a valid event is bounded by itself.\<close>

lemma payload_lines_count: "length (payload_lines d) \<le> Suc (length d)"
proof -
  have "length (split_lf d) - 1 \<le> length d"
    using length_join_lines [of "split_lf d"] unfolding join_split_lf by linarith
  then show ?thesis by (simp add: payload_lines_def)
qed

lemma room_for_items_unbounded:
  assumes "list_all valid_item items" and "room_for_items lim items"
  shows "room_for_items (lim\<lparr>lim_data_lines := u64_max\<rparr>) items"
proof -
  have "item_fits (lim\<lparr>lim_data_lines := u64_max\<rparr>) i" if "valid_item i" "item_fits lim i" for i
  proof (cases i)
    case (EventItem ev)
    then have "length (ev_data ev) \<le> max_sse_message_size"
      using that(1) by (auto simp: validate_event_def split: if_split_asm)
    then have "length (payload_lines (ev_data ev)) \<le> u64_max"
      using payload_lines_count [of "ev_data ev"]
      by (simp add: max_sse_message_size_def max_sse_line_size_def u64_max_def)
    with that(2) EventItem show ?thesis by simp
  qed simp
  then show ?thesis using assms by (auto simp: room_for_items_def list_all_iff)
qed

lemma items_accepted_modern:
  assumes "list_all valid_item items" and "room_for_items lim items"
    and "concat chunks = items_bytes items"
  shows "fst (modern_push_all chunks (modern_new (modern_limits_of lim))) = Some (Inr (payloads items))"
proof -
  let ?p = "sse_new (lim\<lparr>lim_data_lines := u64_max\<rparr>)"
  have "modern_of ?p = modern_new (modern_limits_of lim)"
    by (simp add: modern_of_def modern_new_def sse_new_def modern_limits_of_def)
  moreover have "unbounded_lines ?p" by (simp add: unbounded_lines_def sse_new_def)
  ultimately show ?thesis
    using modern_push_all_accepts [of ?p chunks]
      items_accepted [OF assms(1) room_for_items_unbounded [OF assms(1,2)] assms(3)] by simp
qed

end
