(* ===== verification/Sse_Transports.thy ===== *)
theory Sse_Transports
  imports Sse_Reader_Laws
begin

text \<open>
  The transports built on the legacy event-stream wire (fastmcp-transport/src/sse.rs): the server
  side with its split halves, the exact 2024-11-05 adapters of server and client, and the client
  side.  The codecs are parameters: \<open>encode\<close> is the writer's encoder of messages, \<open>admit\<close> the encoder
  that a server transport runs on incoming requests to bound them, \<open>decode\<close> the reader's decoder of
  one message.
\<close>

section \<open>The server side\<close>

datatype ('q, 's) json_rpc_message = Request 'q | Response 's

record 'q sse_server_transport =
  sv_writer :: sse_writer
  sv_request_source :: "'q list"
  sv_endpoint_sent :: bool
  sv_endpoint_url :: bytes
  sv_closed :: bool

definition server_new :: "sse_out \<Rightarrow> 'q list \<Rightarrow> bytes \<Rightarrow> 'q sse_server_transport" where
  "server_new out requests url = \<lparr>sv_writer = writer_new out, sv_request_source = requests,
     sv_endpoint_sent = False, sv_endpoint_url = url, sv_closed = False\<rparr>"

definition ensure_endpoint_sent ::
  "cx \<Rightarrow> 'q sse_server_transport \<Rightarrow> (transport_error + unit) \<times> cx \<times> 'q sse_server_transport" where
  "ensure_endpoint_sent cx s =
     (if sv_endpoint_sent s then (Inr (), cx, s)
      else case write_endpoint cx (sv_endpoint_url s) (sv_writer s) of
        (Inl e, cx, w) \<Rightarrow> (Inl e, cx, s\<lparr>sv_writer := w\<rparr>)
      | (Inr _, cx, w) \<Rightarrow> (Inr (), cx, s\<lparr>sv_writer := w, sv_endpoint_sent := True\<rparr>))"

definition server_send ::
  "(('q, 's) json_rpc_message \<Rightarrow> transport_error + bytes) \<Rightarrow> cx \<Rightarrow> ('q, 's) json_rpc_message
     \<Rightarrow> 'q sse_server_transport \<Rightarrow> (transport_error + unit) \<times> cx \<times> 'q sse_server_transport" where
  "server_send encode cx m s =
     (if sv_closed s \<or> wr_closed (sv_writer s) then (Inl Closed, cx, s\<lparr>sv_closed := True\<rparr>)
      else case ensure_endpoint_sent cx s of
        (Inl e, cx, s) \<Rightarrow> (Inl e, cx, s)
      | (Inr _, cx, s) \<Rightarrow>
          (case write_message encode cx m (sv_writer s) of (r, cx, w) \<Rightarrow> (r, cx, s\<lparr>sv_writer := w\<rparr>)))"

definition server_recv ::
  "('q \<Rightarrow> transport_error + bytes) \<Rightarrow> cx \<Rightarrow> 'q sse_server_transport
     \<Rightarrow> (transport_error + ('q, 's) json_rpc_message) \<times> cx \<times> 'q sse_server_transport" where
  "server_recv admit cx s =
     (if sv_closed s \<or> wr_closed (sv_writer s) then (Inl Closed, cx, s\<lparr>sv_closed := True\<rparr>)
      else case sse_checkpoint cx of
        (Inl e, cx) \<Rightarrow> (Inl e, cx, s)
      | (Inr _, cx) \<Rightarrow>
          (case sv_request_source s of
             [] \<Rightarrow> (Inl Closed, cx, s\<lparr>sv_closed := True\<rparr>)
           | q # qs \<Rightarrow>
               (let s = s\<lparr>sv_request_source := qs\<rparr>
                in case admit q of Inl e \<Rightarrow> (Inl e, cx, s) | Inr _ \<Rightarrow> (Inr (Request q), cx, s))))"

definition server_close ::
  "cx \<Rightarrow> 'q sse_server_transport \<Rightarrow> (transport_error + unit) \<times> cx \<times> 'q sse_server_transport" where
  "server_close cx s =
     (case writer_close cx (sv_writer s) of
        (r, cx, w) \<Rightarrow> (r, cx, s\<lparr>sv_writer := w, sv_closed := (sv_closed s \<or> wr_closed w)\<rparr>))"

section \<open>The split halves\<close>

record 'q sse_server_recv_half =
  rh_request_source :: "'q list"
  rh_closed :: bool

record sse_server_send_half =
  sh_writer :: sse_writer
  sh_endpoint_sent :: bool
  sh_endpoint_url :: bytes
  sh_closed :: bool

definition into_split :: "'q sse_server_transport \<Rightarrow> 'q sse_server_recv_half \<times> sse_server_send_half" where
  "into_split s =
     (\<lparr>rh_request_source = sv_request_source s, rh_closed = sv_closed s\<rparr>,
      \<lparr>sh_writer = sv_writer s, sh_endpoint_sent = sv_endpoint_sent s,
       sh_endpoint_url = sv_endpoint_url s, sh_closed = sv_closed s\<rparr>)"

definition recv_half_recv ::
  "('q \<Rightarrow> transport_error + bytes) \<Rightarrow> cx \<Rightarrow> 'q sse_server_recv_half
     \<Rightarrow> (transport_error + ('q, 's) json_rpc_message) \<times> cx \<times> 'q sse_server_recv_half" where
  "recv_half_recv admit cx h =
     (if rh_closed h then (Inl Closed, cx, h)
      else case sse_checkpoint cx of
        (Inl e, cx) \<Rightarrow> (Inl e, cx, h)
      | (Inr _, cx) \<Rightarrow>
          (case rh_request_source h of
             [] \<Rightarrow> (Inl Closed, cx, h\<lparr>rh_closed := True\<rparr>)
           | q # qs \<Rightarrow>
               (let h = h\<lparr>rh_request_source := qs\<rparr>
                in case admit q of Inl e \<Rightarrow> (Inl e, cx, h) | Inr _ \<Rightarrow> (Inr (Request q), cx, h))))"

definition recv_half_close :: "'q sse_server_recv_half \<Rightarrow> 'q sse_server_recv_half" where
  "recv_half_close h = h\<lparr>rh_closed := True\<rparr>"

definition send_half_ensure_endpoint_sent ::
  "cx \<Rightarrow> sse_server_send_half \<Rightarrow> (transport_error + unit) \<times> cx \<times> sse_server_send_half" where
  "send_half_ensure_endpoint_sent cx h =
     (if sh_endpoint_sent h then (Inr (), cx, h)
      else case write_endpoint cx (sh_endpoint_url h) (sh_writer h) of
        (Inl e, cx, w) \<Rightarrow> (Inl e, cx, h\<lparr>sh_writer := w\<rparr>)
      | (Inr _, cx, w) \<Rightarrow> (Inr (), cx, h\<lparr>sh_writer := w, sh_endpoint_sent := True\<rparr>))"

definition send_half_send ::
  "(('q, 's) json_rpc_message \<Rightarrow> transport_error + bytes) \<Rightarrow> cx \<Rightarrow> ('q, 's) json_rpc_message
     \<Rightarrow> sse_server_send_half \<Rightarrow> (transport_error + unit) \<times> cx \<times> sse_server_send_half" where
  "send_half_send encode cx m h =
     (if sh_closed h \<or> wr_closed (sh_writer h) then (Inl Closed, cx, h\<lparr>sh_closed := True\<rparr>)
      else case send_half_ensure_endpoint_sent cx h of
        (Inl e, cx, h) \<Rightarrow> (Inl e, cx, h)
      | (Inr _, cx, h) \<Rightarrow>
          (case write_message encode cx m (sh_writer h) of (r, cx, w) \<Rightarrow> (r, cx, h\<lparr>sh_writer := w\<rparr>)))"

definition send_half_close ::
  "cx \<Rightarrow> sse_server_send_half \<Rightarrow> (transport_error + unit) \<times> cx \<times> sse_server_send_half" where
  "send_half_close cx h =
     (case writer_close cx (sh_writer h) of
        (r, cx, w) \<Rightarrow> (r, cx, h\<lparr>sh_writer := w, sh_closed := (sh_closed h \<or> wr_closed w)\<rparr>))"

section \<open>The exact 2024-11-05 adapters\<close>

definition legacy_open ::
  "cx \<Rightarrow> 'q sse_server_transport \<Rightarrow> (transport_error + unit) \<times> cx \<times> 'q sse_server_transport" where
  "legacy_open cx s =
     (if sv_closed s \<or> wr_closed (sv_writer s) then (Inl Closed, cx, s\<lparr>sv_closed := True\<rparr>)
      else ensure_endpoint_sent cx s)"

definition legacy_server_send ::
  "(('q, 's) json_rpc_message \<Rightarrow> transport_error + bytes) \<Rightarrow> cx \<Rightarrow> ('q, 's) json_rpc_message
     \<Rightarrow> 'q sse_server_transport \<Rightarrow> (transport_error + unit) \<times> cx \<times> 'q sse_server_transport" where
  "legacy_server_send encode cx m s =
     (case legacy_open cx s of
        (Inl e, cx, s) \<Rightarrow> (Inl e, cx, s)
      | (Inr _, cx, s) \<Rightarrow> server_send encode cx m s)"

definition legacy_server_recv ::
  "('q \<Rightarrow> transport_error + bytes) \<Rightarrow> cx \<Rightarrow> 'q sse_server_transport
     \<Rightarrow> (transport_error + ('q, 's) json_rpc_message) \<times> cx \<times> 'q sse_server_transport" where
  "legacy_server_recv admit cx s =
     (case legacy_open cx s of
        (Inl e, cx, s) \<Rightarrow> (Inl e, cx, s)
      | (Inr _, cx, s) \<Rightarrow> server_recv admit cx s)"

text \<open>
  The caller's HTTP adapter: the posts it was given, and the answers it will give; when they are used
  up a post succeeds.
\<close>

record post_sink =
  ps_posts :: "(bytes \<times> bytes) list"
  ps_answers :: "(transport_error + unit) list"

definition post_message :: "bytes \<Rightarrow> bytes \<Rightarrow> post_sink \<Rightarrow> (transport_error + unit) \<times> post_sink" where
  "post_message endpoint body p =
     (let p = p\<lparr>ps_posts := ps_posts p @ [(endpoint, body)]\<rparr>
      in case ps_answers p of [] \<Rightarrow> (Inr (), p) | a # as \<Rightarrow> (a, p\<lparr>ps_answers := as\<rparr>))"

record legacy_client =
  lc_reader :: sse_reader
  lc_post_sink :: post_sink
  lc_advertised_endpoint :: "bytes option"
  lc_closed :: bool

definition legacy_client_new :: "read_answer list \<Rightarrow> post_sink \<Rightarrow> legacy_client" where
  "legacy_client_new reads sink = \<lparr>lc_reader = reader_new reads, lc_post_sink = sink,
     lc_advertised_endpoint = None, lc_closed = False\<rparr>"

definition establish :: "cx \<Rightarrow> legacy_client \<Rightarrow> (transport_error + bytes) \<times> cx \<times> legacy_client" where
  "establish cx c =
     (if lc_closed c then (Inl Closed, cx, c)
      else if lc_advertised_endpoint c \<noteq> None then (Inl (Io AlreadyExists), cx, c)
      else case read_event cx (lc_reader c) of
        (Inr None, cx, r) \<Rightarrow> (Inl Closed, cx, c\<lparr>lc_reader := r, lc_closed := True\<rparr>)
      | (Inl e, cx, r) \<Rightarrow>
          (Inl e, cx,
            c\<lparr>lc_reader := r, lc_closed := (if is_budget_error e then rd_terminal r else True)\<rparr>)
      | (Inr (Some ev), cx, r) \<Rightarrow>
          if ev_type ev \<noteq> Endpoint \<or> ev_data ev = []
          then (Inl (Io InvalidData), cx, c\<lparr>lc_reader := r, lc_closed := True\<rparr>)
          else (Inr (ev_data ev), cx, c\<lparr>lc_reader := r, lc_advertised_endpoint := Some (ev_data ev)\<rparr>))"

definition legacy_client_send ::
  "('m \<Rightarrow> transport_error + bytes) \<Rightarrow> cx \<Rightarrow> 'm \<Rightarrow> legacy_client
     \<Rightarrow> (transport_error + unit) \<times> cx \<times> legacy_client" where
  "legacy_client_send encode cx m c =
     (if lc_closed c then (Inl Closed, cx, c)
      else case sse_checkpoint cx of
        (Inl e, cx) \<Rightarrow> (Inl e, cx, c)
      | (Inr _, cx) \<Rightarrow>
          (case lc_advertised_endpoint c of
             None \<Rightarrow> (Inl (Io (InvalidInput ''endpoint not established'')), cx, c)
           | Some endpoint \<Rightarrow>
               (case encode m of
                  Inl e \<Rightarrow> (Inl e, cx, c)
                | Inr body \<Rightarrow>
                    (case sse_checkpoint cx of
                       (Inl e, cx) \<Rightarrow> (Inl e, cx, c)
                     | (Inr _, cx) \<Rightarrow>
                         (case post_message endpoint body (lc_post_sink c) of
                            (Inr _, p) \<Rightarrow> (Inr (), cx, c\<lparr>lc_post_sink := p\<rparr>)
                          | (Inl e, p) \<Rightarrow>
                              (Inl e, cx,
                                if e = Cancelled then c\<lparr>lc_post_sink := p\<rparr>
                                else c\<lparr>lc_post_sink := p, lc_closed := True\<rparr>))))))"

text \<open>How both client transports close after an error of their reader.\<close>

definition closes_after :: "transport_error \<Rightarrow> sse_reader \<Rightarrow> bool" where
  "closes_after e r =
     (case e of Codec _ \<Rightarrow> False | _ \<Rightarrow> if is_budget_error e then rd_terminal r else True)"

definition legacy_client_recv ::
  "(bytes \<Rightarrow> transport_error + 'm) \<Rightarrow> cx \<Rightarrow> legacy_client \<Rightarrow> (transport_error + 'm) \<times> cx \<times> legacy_client" where
  "legacy_client_recv decode cx c =
     (if lc_closed c then (Inl Closed, cx, c)
      else case read_message decode cx (lc_reader c) of
        (Inr (Some m), cx, r) \<Rightarrow> (Inr m, cx, c\<lparr>lc_reader := r\<rparr>)
      | (Inr None, cx, r) \<Rightarrow> (Inl Closed, cx, c\<lparr>lc_reader := r, lc_closed := True\<rparr>)
      | (Inl e, cx, r) \<Rightarrow> (Inl e, cx, c\<lparr>lc_reader := r, lc_closed := closes_after e r\<rparr>))"

definition legacy_client_close :: "legacy_client \<Rightarrow> legacy_client" where
  "legacy_client_close c = c\<lparr>lc_closed := True\<rparr>"

section \<open>The client side\<close>

record sse_client_transport =
  sc_reader :: sse_reader
  sc_request_sink :: sse_out
  sc_closed :: bool

definition client_new :: "read_answer list \<Rightarrow> sse_out \<Rightarrow> sse_client_transport" where
  "client_new reads sink = \<lparr>sc_reader = reader_new reads, sc_request_sink = sink, sc_closed = False\<rparr>"

definition client_read_endpoint ::
  "cx \<Rightarrow> sse_client_transport \<Rightarrow> (transport_error + bytes option) \<times> cx \<times> sse_client_transport" where
  "client_read_endpoint cx c =
     (if sc_closed c then (Inl Closed, cx, c)
      else case read_endpoint cx (sc_reader c) of
        (Inr x, cx, r) \<Rightarrow> (Inr x, cx, c\<lparr>sc_reader := r, sc_closed := (x = None)\<rparr>)
      | (Inl e, cx, r) \<Rightarrow>
          (Inl e, cx,
            c\<lparr>sc_reader := r, sc_closed := (if is_budget_error e then rd_terminal r else True)\<rparr>))"

definition client_send ::
  "('m \<Rightarrow> transport_error + bytes) \<Rightarrow> cx \<Rightarrow> 'm \<Rightarrow> sse_client_transport
     \<Rightarrow> (transport_error + unit) \<times> cx \<times> sse_client_transport" where
  "client_send encode cx m c =
     (if sc_closed c then (Inl Closed, cx, c)
      else case sse_checkpoint cx of
        (Inl e, cx) \<Rightarrow> (Inl e, cx, c)
      | (Inr _, cx) \<Rightarrow>
          (case encode m of
             Inl e \<Rightarrow> (Inl e, cx, c)
           | Inr bs \<Rightarrow>
               (case sse_commit_frame cx (sc_request_sink c) (sc_closed c) bs of
                  (r, cx, out, closed) \<Rightarrow> (r, cx, c\<lparr>sc_request_sink := out, sc_closed := closed\<rparr>))))"

definition client_recv ::
  "(bytes \<Rightarrow> transport_error + 'm) \<Rightarrow> cx \<Rightarrow> sse_client_transport
     \<Rightarrow> (transport_error + 'm) \<times> cx \<times> sse_client_transport" where
  "client_recv decode cx c =
     (if sc_closed c then (Inl Closed, cx, c)
      else case read_message decode cx (sc_reader c) of
        (Inr (Some m), cx, r) \<Rightarrow> (Inr m, cx, c\<lparr>sc_reader := r\<rparr>)
      | (Inr None, cx, r) \<Rightarrow> (Inl Closed, cx, c\<lparr>sc_reader := r, sc_closed := True\<rparr>)
      | (Inl e, cx, r) \<Rightarrow> (Inl e, cx, c\<lparr>sc_reader := r, sc_closed := closes_after e r\<rparr>))"

definition client_close ::
  "cx \<Rightarrow> sse_client_transport \<Rightarrow> (transport_error + unit) \<times> cx \<times> sse_client_transport" where
  "client_close cx c =
     (if sc_closed c then (Inr (), cx, c)
      else case sse_checkpoint cx of
        (Inl e, cx) \<Rightarrow> (Inl e, cx, c)
      | (Inr _, cx) \<Rightarrow>
          (case out_flush (sc_request_sink c) of
             (Flushed, out) \<Rightarrow> (Inr (), cx, c\<lparr>sc_closed := True, sc_request_sink := out\<rparr>)
           | (_, out) \<Rightarrow> (Inl (Io OtherIo), cx, c\<lparr>sc_closed := True, sc_request_sink := out\<rparr>)))"

section \<open>What the server side puts on the wire\<close>

datatype ('q, 's) server_op =
    OpenServer cx
  | SendMessage cx "('q, 's) json_rpc_message"
  | ReceiveRequest cx
  | CloseServer cx

text \<open>The exact server adapter with the messages it has sent successfully, in order.\<close>

type_synonym ('q, 's) server_state = "'q sse_server_transport \<times> ('q, 's) json_rpc_message list"

fun server_step ::
  "(('q, 's) json_rpc_message \<Rightarrow> transport_error + bytes) \<Rightarrow> ('q \<Rightarrow> transport_error + bytes)
     \<Rightarrow> ('q, 's) server_op \<Rightarrow> ('q, 's) server_state \<Rightarrow> ('q, 's) server_state" where
  "server_step encode admit (OpenServer cx) (s, ms) =
     (case legacy_open cx s of (_, _, s) \<Rightarrow> (s, ms))"
| "server_step encode admit (SendMessage cx m) (s, ms) =
     (case legacy_server_send encode cx m s of
        (Inl e, _, s) \<Rightarrow> (s, ms) | (Inr _, _, s) \<Rightarrow> (s, ms @ [m]))"
| "server_step encode admit (ReceiveRequest cx) (s, ms) =
     (case legacy_server_recv admit cx s of
        (r :: transport_error + ('q, 's) json_rpc_message, _, s) \<Rightarrow> (s, ms))"
| "server_step encode admit (CloseServer cx) (s, ms) = (case server_close cx s of (_, _, s) \<Rightarrow> (s, ms))"

definition message_item ::
  "(('q, 's) json_rpc_message \<Rightarrow> transport_error + bytes) \<Rightarrow> nat \<Rightarrow> ('q, 's) json_rpc_message \<Rightarrow> wire_item" where
  "message_item encode n m =
     (case encode m of Inr encoded \<Rightarrow> EventItem (with_id (show_nat n) (message_event (butlast encoded)))
      | Inl e \<Rightarrow> CommentItem [])"

fun message_items ::
  "(('q, 's) json_rpc_message \<Rightarrow> transport_error + bytes) \<Rightarrow> nat \<Rightarrow> ('q, 's) json_rpc_message list
     \<Rightarrow> wire_item list" where
  "message_items encode n [] = []"
| "message_items encode n (m # ms) = message_item encode n m # message_items encode (Suc n) ms"

definition session_items ::
  "(('q, 's) json_rpc_message \<Rightarrow> transport_error + bytes) \<Rightarrow> ('q, 's) server_state \<Rightarrow> wire_item list" where
  "session_items encode s =
     (if sv_endpoint_sent (fst s) then [EventItem (endpoint_event (sv_endpoint_url (fst s)))] else []) @
     message_items encode 1 (snd s)"

text \<open>
  On the wire: the endpoint event first, then the messages with consecutive ids; every message sent
  was encoded.
\<close>

definition server_inv ::
  "(('q, 's) json_rpc_message \<Rightarrow> transport_error + bytes) \<Rightarrow> bytes \<Rightarrow> ('q, 's) server_state \<Rightarrow> bool" where
  "server_inv encode url s \<longleftrightarrow>
     sv_endpoint_url (fst s) = url \<and> (snd s \<noteq> [] \<longrightarrow> sv_endpoint_sent (fst s)) \<and>
     wr_event_counter (sv_writer (fst s)) = length (snd s) \<and>
     list_all (\<lambda>m. is_ok (encode m)) (snd s) \<and>
     wire_inv (sv_writer (fst s), session_items encode s)"

lemma message_items_snoc:
  "message_items encode n (ms @ [m]) = message_items encode n ms @ [message_item encode (n + length ms) m]"
  by (induction ms arbitrary: n) simp_all

lemma writer_commit_counter:
  "writer_commit cx bs w = (r, cx', w') \<Longrightarrow> wr_event_counter w' = wr_event_counter w"
  by (auto simp: writer_commit_def split: prod.split_asm)

lemma write_event_counter:
  "write_event cx ev w = (r, cx', w') \<Longrightarrow> wr_event_counter w' = wr_event_counter w"
  by (auto simp: write_event_def dest: writer_commit_counter
      split: if_split_asm prod.split_asm sum.split_asm)

lemma write_message_counter:
  assumes "write_message encode cx m w = (r, cx', w')"
  shows "wr_event_counter w' = (if is_ok r then Suc (wr_event_counter w) else wr_event_counter w) \<and>
    (is_ok r \<longrightarrow> is_ok (encode m))"
  using assms
  by (auto simp: write_message_def checked_add_def dest: write_event_counter
      split: if_split_asm prod.split_asm sum.split_asm)

lemma ensure_endpoint_inv:
  assumes inv: "server_inv encode url (s, ms)" and url: "utf8_valid url"
    and run: "ensure_endpoint_sent cx s = (r, cx', s')"
  shows "server_inv encode url (s', ms) \<and> (is_ok r \<longrightarrow> sv_endpoint_sent s')"
proof (cases "sv_endpoint_sent s")
  case True
  with inv run show ?thesis by (simp add: ensure_endpoint_sent_def)
next
  case False
  obtain x cx1 w where we: "write_event cx (endpoint_event url) (sv_writer s) = (x, cx1, w)"
    using prod_cases3 by blast
  have typed: "typed_event (endpoint_event url)"
    using url by (simp add: typed_event_def endpoint_event_def)
  have ms: "ms = []" "sv_endpoint_url s = url" "wire_inv (sv_writer s, [])"
    using inv False by (auto simp: server_inv_def session_items_def)
  from commits_wire_inv [OF ms(3) write_event_commits [OF typed, of "sv_writer s" cx, unfolded we]]
  have "wire_inv (w, case x of Inl e \<Rightarrow> [] | Inr _ \<Rightarrow> [EventItem (endpoint_event url)])"
    by (cases x) simp_all
  with we run False ms inv write_event_counter [OF we] show ?thesis
    by (cases x) (auto simp: ensure_endpoint_sent_def write_endpoint_def server_inv_def session_items_def)
qed

lemma server_inv_closed [simp]:
  "server_inv encode url (s\<lparr>sv_closed := b\<rparr>, ms) = server_inv encode url (s, ms)"
  "server_inv encode url (s\<lparr>sv_request_source := qs\<rparr>, ms) = server_inv encode url (s, ms)"
  by (simp_all add: server_inv_def session_items_def)

lemma server_send_inv:
  assumes inv: "server_inv encode url (s, ms)" and url: "utf8_valid url"
    and run: "server_send encode cx m s = (r, cx', s')"
  shows "server_inv encode url (s', if is_ok r then ms @ [m] else ms)"
proof (cases "sv_closed s \<or> wr_closed (sv_writer s)")
  case True
  with inv run show ?thesis by (auto simp: server_send_def)
next
  case False
  obtain x cx1 s1 where en: "ensure_endpoint_sent cx s = (x, cx1, s1)"
    using prod_cases3 by blast
  note inv1 = ensure_endpoint_inv [OF inv url en]
  show ?thesis
  proof (cases x)
    case (Inl e)
    with False en run inv1 show ?thesis by (auto simp: server_send_def)
  next
    case (Inr u)
    obtain y cx2 w where wm: "write_message encode cx1 m (sv_writer s1) = (y, cx2, w)"
      using prod_cases3 by blast
    have s': "r = y" "s' = s1\<lparr>sv_writer := w\<rparr>" using False en Inr wm run by (simp_all add: server_send_def)
    have sent: "sv_endpoint_sent s1" using inv1 Inr by simp
    note cnt = write_message_counter [OF wm]
    have w1: "wire_inv (sv_writer s1, session_items encode (s1, ms))"
      "wr_event_counter (sv_writer s1) = length ms" using inv1 by (simp_all add: server_inv_def)
    have "wire_inv (w, if is_ok y then session_items encode (s1, ms) @ [message_item encode (Suc (length ms)) m]
        else session_items encode (s1, ms))"
    proof (cases "encode m")
      case (Inl e)
      then have "w = sv_writer s1 \<and> \<not> is_ok y"
        using wm by (auto simp: write_message_def split: if_split_asm prod.split_asm sum.split_asm)
      with w1 show ?thesis by simp
    next
      case (Inr encoded)
      from commits_wire_inv [OF w1(1) write_message_commits [of encode m encoded "sv_writer s1" cx1, OF Inr, unfolded wm]]
      show ?thesis using w1(2) Inr by (cases y) (simp_all add: message_item_def)
    qed
    with inv1 sent cnt w1(2) show ?thesis
      by (cases y) (simp_all add: s' server_inv_def session_items_def message_items_snoc)
  qed
qed

lemma legacy_open_inv:
  assumes "server_inv encode url (s, ms)" and "utf8_valid url" and "legacy_open cx s = (r, cx', s')"
  shows "server_inv encode url (s', ms)"
  using assms ensure_endpoint_inv [OF assms(1,2), of cx r cx' s']
  by (auto simp: legacy_open_def split: if_split_asm)

lemma server_recv_inv:
  assumes "server_inv encode url (s, ms)" and "server_recv admit cx s = (r, cx', s')"
  shows "server_inv encode url (s', ms)"
  using assms
  by (auto simp: server_recv_def Let_def split: if_split_asm prod.split_asm sum.split_asm list.split_asm)

lemma server_close_inv:
  assumes "server_inv encode url (s, ms)" and "server_close cx s = (r, cx', s')"
  shows "server_inv encode url (s', ms)"
proof -
  obtain x cx1 w where wc: "writer_close cx (sv_writer s) = (x, cx1, w)" using prod_cases3 by blast
  have "wr_event_counter w = wr_event_counter (sv_writer s)"
    using wc by (auto simp: writer_close_def
        split: if_split_asm prod.split_asm sum.split_asm flush_answer.split_asm)
  moreover have "wire_inv (w, session_items encode (s, ms))"
    using wire_step_inv [of "(sv_writer s, session_items encode (s, ms))" "CloseWriter cx" encode] assms(1) wc
    by (cases x) (simp_all add: wire_step_def server_inv_def)
  ultimately show ?thesis
    using assms wc by (auto simp: server_close_def server_inv_def session_items_def)
qed

lemma server_step_inv:
  assumes inv: "server_inv encode url st" and url: "utf8_valid url"
  shows "server_inv encode url (server_step encode admit a st)"
proof -
  obtain s ms where st: "st = (s, ms)" by force
  obtain x cx1 s1 where op: "legacy_open (case a of OpenServer cx \<Rightarrow> cx | SendMessage cx m \<Rightarrow> cx
      | ReceiveRequest cx \<Rightarrow> cx | CloseServer cx \<Rightarrow> cx) s = (x, cx1, s1)"
    using prod_cases3 by blast
  note inv1 = legacy_open_inv [OF inv [unfolded st] url op]
  show ?thesis
  proof (cases a)
    case (OpenServer cx)
    with op inv1 show ?thesis by (simp add: st)
  next
    case (SendMessage cx m)
    obtain y cx2 s2 where sd: "server_send encode cx1 m s1 = (y, cx2, s2)" using prod_cases3 by blast
    with server_send_inv [OF inv1 url sd] op inv1 SendMessage show ?thesis
      by (cases x; cases y) (simp_all add: st legacy_server_send_def)
  next
    case (ReceiveRequest cx)
    obtain y :: "transport_error + ('a, 'b) json_rpc_message" and cx2 s2
      where rc: "server_recv admit cx1 s1 = (y, cx2, s2)" using prod_cases3 by blast
    with server_recv_inv [OF inv1 rc] op inv1 ReceiveRequest show ?thesis
      by (cases x) (simp_all add: st legacy_server_recv_def)
  next
    case (CloseServer cx)
    obtain y cx2 s2 where cl: "server_close cx s = (y, cx2, s2)" using prod_cases3 by blast
    with server_close_inv [OF inv [unfolded st] cl] CloseServer show ?thesis by (simp add: st)
  qed
qed

interpretation server_machine:
  guarded_machine "server_inv encode url" "\<lambda>a s. utf8_valid url" "server_step encode admit"
  for encode url admit
  by unfold_locales (rule server_step_inv)

lemma server_inv_new:
  "out_accepted out = [] \<Longrightarrow> server_inv encode url (server_new out requests url, [])"
  by (simp add: server_inv_def server_new_def session_items_def writer_new_def wire_inv_def)

lemma admissible_const: "admissible (\<lambda>a s. P) step as s \<longleftrightarrow> (as \<noteq> [] \<longrightarrow> P)"
  by (induction as arbitrary: s) auto

lemma server_run_inv:
  assumes "out_accepted out = []" and "utf8_valid url"
  shows "server_inv encode url (fold (server_step encode admit) ops (server_new out requests url, []))"
  by (rule server_machine.run_keeps [OF server_inv_new [OF assms(1)]]) (simp add: admissible_const assms(2))

section \<open>What the exact client receives\<close>

lemma read_message_size:
  assumes "read_message decode cx r = (Inr (Some m), cx', r')"
  shows "input_size r' < input_size r"
  using assms
proof (induction decode cx r rule: read_message.induct)
  case (1 decode cx r)
  obtain x cx1 r1 where re: "read_event cx r = (x, cx1, r1)" using prod_cases3 by blast
  with "1.prems" obtain ev where x: "x = Inr (Some ev)"
    by (cases x) (auto simp: read_message.simps [of decode cx r] split: option.split_asm)
  note lt = read_event_size [OF re [unfolded x]]
  show ?case
  proof (cases "ev_type ev = Message")
    case True
    then show ?thesis using "1.prems" re x lt
      by (auto simp: read_message.simps [of decode cx r] split: sum.split_asm)
  next
    case False
    with "1.prems" re x have "read_message decode cx1 r1 = (Inr (Some m), cx', r')"
      by (simp add: read_message.simps [of decode cx r])
    with "1.IH" [OF re [symmetric] x refl refl False] lt show ?thesis by simp
  qed
qed

text \<open>Receiving until an error.\<close>

function drain_messages ::
  "(bytes \<Rightarrow> transport_error + 'm) \<Rightarrow> legacy_client \<Rightarrow> 'm list \<times> transport_error" where
  "drain_messages decode c =
     (case legacy_client_recv decode [] c of
        (Inl e, _, _) \<Rightarrow> ([], e)
      | (Inr m, _, c') \<Rightarrow> (case drain_messages decode c' of (ms, e) \<Rightarrow> (m # ms, e)))"
  by pat_completeness auto

termination
  by (relation "measure (\<lambda>(decode, c). input_size (lc_reader c))")
    (auto simp: legacy_client_recv_def dest: read_message_size
      split: if_split_asm prod.split_asm sum.split_asm option.split_asm)

declare drain_messages.simps [simp del]

lemma payload_lines_single:
  assumes "LF \<notin> set d" and "CR \<notin> set d"
  shows "payload_lines d = [d]"
proof -
  have "split_lf d = [d]" using assms(1) by (induction d) auto
  moreover have "strip_cr d = d" using assms(2) by (cases d rule: rev_cases) (auto simp: strip_cr_eq)
  ultimately show ?thesis by (simp add: payload_lines_def)
qed

lemma read_event_item:
  assumes "valid_item (EventItem ev)" and "ready (item_bytes (EventItem ev) @ rest) r"
  obtains r' where "ready rest r'"
    "read_event [] r = (Inr (Some (delivered_event (rd_last_event_id r) (rd_reconnection_time r) ev)), [], r')"
proof -
  from read_event_loop_event [OF assms, of False] obtain r' where "ready rest r'"
    "read_event_loop [] empty_block False r =
      (Inr (Some (delivered_event (rd_last_event_id r) (rd_reconnection_time r) ev)), [], r')" by blast
  with assms(2) that show thesis by (auto simp: read_event_def ready_def)
qed

text \<open>
  What the codec promises for a message: its encoding is one line, and the decoder inverts it.
\<close>

definition codec_law ::
  "('m \<Rightarrow> transport_error + bytes) \<Rightarrow> (bytes \<Rightarrow> transport_error + 'm) \<Rightarrow> 'm \<Rightarrow> bool" where
  "codec_law encode decode m \<longleftrightarrow>
     (case encode m of
        Inl e \<Rightarrow> True
      | Inr encoded \<Rightarrow>
          LF \<notin> set (butlast encoded) \<and> CR \<notin> set (butlast encoded) \<and> decode (butlast encoded) = Inr m)"

lemma drain_message_items:
  assumes "list_all (codec_law encode decode) ms" and "list_all (\<lambda>m. is_ok (encode m)) ms"
    and "list_all valid_item (message_items encode n ms)"
    and "ready (items_bytes (message_items encode n ms)) (lc_reader c)" and "\<not> lc_closed c"
  shows "drain_messages decode c = (ms, Closed)"
  using assms
proof (induction ms arbitrary: n c)
  case Nil
  then obtain r' where "read_event [] (lc_reader c) = (Inr None, [], r')"
    using read_event_end by fastforce
  with Nil show ?case
    by (simp add: drain_messages.simps [of decode c] legacy_client_recv_def read_message.simps [of decode "[]"])
next
  case (Cons m ms)
  then obtain encoded where enc: "encode m = Inr encoded" by (auto simp: is_ok_iff)
  let ?ev = "with_id (show_nat n) (message_event (butlast encoded))"
  have item: "valid_item (EventItem ?ev)"
    "ready (item_bytes (EventItem ?ev) @ items_bytes (message_items encode (Suc n) ms)) (lc_reader c)"
    using Cons.prems(3,4) enc by (simp_all add: message_item_def)
  from read_event_item [OF this] obtain r' where r': "ready (items_bytes (message_items encode (Suc n) ms)) r'"
    "read_event [] (lc_reader c) = (Inr (Some (delivered_event (rd_last_event_id (lc_reader c))
       (rd_reconnection_time (lc_reader c)) ?ev)), [], r')" by blast
  have law: "payload_lines (butlast encoded) = [butlast encoded]" "decode (butlast encoded) = Inr m"
    using Cons.prems(1) enc by (auto simp: codec_law_def intro!: payload_lines_single)
  have "legacy_client_recv decode [] c = (Inr m, [], c\<lparr>lc_reader := r'\<rparr>)"
    using r'(2) law Cons.prems(5)
    by (simp add: legacy_client_recv_def read_message.simps [of decode "[]"] delivered_event_def
        with_id_def message_event_def)
  moreover have "drain_messages decode (c\<lparr>lc_reader := r'\<rparr>) = (ms, Closed)"
    using Cons.IH [of "Suc n" "c\<lparr>lc_reader := r'\<rparr>"] Cons.prems r'(1) by simp
  ultimately show ?case by (simp add: drain_messages.simps [of decode c])
qed

section \<open>The split halves and the unsplit transport\<close>

lemma split_ensure_endpoint:
  "send_half_ensure_endpoint_sent cx (snd (into_split s)) =
     (case ensure_endpoint_sent cx s of (r, cx', s') \<Rightarrow> (r, cx', snd (into_split s')))"
  by (simp add: send_half_ensure_endpoint_sent_def ensure_endpoint_sent_def into_split_def
      split: prod.split sum.split)

text \<open>Sending through the split half is sending through the transport.\<close>

lemma split_send:
  "send_half_send encode cx m (snd (into_split s)) =
     (case server_send encode cx m s of (r, cx', s') \<Rightarrow> (r, cx', snd (into_split s')))"
  unfolding send_half_send_def server_send_def split_ensure_endpoint
  by (simp add: into_split_def split: prod.split sum.split)

text \<open>
  Receiving through the split half is receiving through the transport as long as the writer is open:
  the half no longer sees a writer that was closed by a broken frame.
\<close>

lemma split_recv:
  assumes "\<not> wr_closed (sv_writer s)"
  shows "recv_half_recv admit cx (fst (into_split s)) =
     (case server_recv admit cx s of (r, cx', s') \<Rightarrow> (r, cx', fst (into_split s')))"
  using assms unfolding recv_half_recv_def server_recv_def
  by (simp add: into_split_def Let_def split: prod.split sum.split list.split)

section \<open>The posts of the exact client\<close>

datatype 'm client_op = Establish cx | ClientSend cx 'm | ClientRecv cx | ClientClose

fun client_step ::
  "('m \<Rightarrow> transport_error + bytes) \<Rightarrow> (bytes \<Rightarrow> transport_error + 'm) \<Rightarrow> 'm client_op
     \<Rightarrow> legacy_client \<Rightarrow> legacy_client" where
  "client_step encode decode (Establish cx) c = snd (snd (establish cx c))"
| "client_step encode decode (ClientSend cx m) c = snd (snd (legacy_client_send encode cx m c))"
| "client_step encode decode (ClientRecv cx) c = snd (snd (legacy_client_recv decode cx c))"
| "client_step encode decode ClientClose c = legacy_client_close c"

definition posts_ok :: "bytes option \<Rightarrow> legacy_client \<Rightarrow> bool" where
  "posts_ok ep c \<longleftrightarrow> (\<forall>(e, body) \<in> set (ps_posts (lc_post_sink c)). lc_advertised_endpoint c = Some e) \<and>
     (ep \<noteq> None \<longrightarrow> lc_advertised_endpoint c = ep)"

lemma post_message_posts:
  "post_message e body p = (r, p') \<Longrightarrow> ps_posts p' = ps_posts p @ [(e, body)]"
  by (auto simp: post_message_def Let_def split: list.split_asm)

lemma client_step_posts:
  assumes "posts_ok ep c"
  shows "posts_ok ep (client_step encode decode a c)"
proof (cases a)
  case (Establish cx)
  have "ps_posts (lc_post_sink c) = []" if "lc_advertised_endpoint c = None"
    using assms that by (cases "ps_posts (lc_post_sink c)") (auto simp: posts_ok_def)
  then show ?thesis using assms
    by (auto simp: Establish establish_def posts_ok_def split: prod.split sum.split option.split)
next
  case (ClientSend cx m)
  with assms show ?thesis
    by (auto simp: legacy_client_send_def posts_ok_def dest!: post_message_posts
        split: prod.split sum.split option.split)
next
  case (ClientRecv cx)
  with assms show ?thesis
    by (auto simp: legacy_client_recv_def posts_ok_def split: prod.split sum.split option.split)
next
  case ClientClose
  with assms show ?thesis by (auto simp: legacy_client_close_def posts_ok_def)
qed

interpretation client_machine: guarded_machine "posts_ok ep" "\<lambda>a c. True" "client_step encode decode"
  for ep encode decode
  by unfold_locales (rule client_step_posts)

section \<open>Properties\<close>

text \<open>
  C3: A legacy session delivers.  Take any sequence of calls of a new exact 2024-11-05 server adapter,
  with any budgets and write failures, that leaves its writer open with the endpoint sent.  A client
  adapter that receives the bytes put out, in reads of any sizes, establishes the server's endpoint
  URL first, and then receives exactly the messages whose sends succeeded, in order, before the stream
  is reported closed, provided the codec decodes these messages as it encoded them.
\<close>

theorem legacy_session_delivers:
  assumes "list_all (codec_law encode decode) ms" and "out_accepted out = []" and "utf8_valid url"
    and "url \<noteq> []"
    and "fold (server_step encode admit) ops (server_new out requests url, []) = (s, ms)"
    and "\<not> wr_closed (sv_writer s)" and "sv_endpoint_sent s"
    and "list_all live_answer reads"
    and "concat (map answer_bytes reads) = out_accepted (wr_out (sv_writer s))"
  shows "\<exists>c. establish [] (legacy_client_new reads sink) = (Inr url, [], c) \<and>
    drain_messages decode c = (ms, Closed)"
proof -
  have inv: "server_inv encode url (s, ms)"
    using server_run_inv [OF assms(2,3), of encode admit ops requests] assms(5) by simp
  let ?ep = "EventItem (endpoint_event url)" and ?items = "message_items encode 1 ms"
  have items: "session_items encode (s, ms) = ?ep # ?items"
    using inv assms(7) by (simp add: session_items_def server_inv_def)
  then have valid: "valid_item ?ep" "list_all valid_item ?items"
    and wire: "out_accepted (wr_out (sv_writer s)) = item_bytes ?ep @ items_bytes ?items"
    using inv assms(6) by (auto simp: server_inv_def wire_inv_def)
  have url: "payload_lines url = [url]"
    using valid(1) by (intro payload_lines_single)
      (auto simp: validate_event_def endpoint_event_def has_control_def list_ex_iff
        split: if_split_asm sum.split_asm)
  have "ready (item_bytes ?ep @ items_bytes ?items) (reader_new reads)"
    using assms(8,9) wire by (simp add: ready_def pending_def reader_new_def)
  from read_event_item [OF valid(1) this] obtain r' where r': "ready (items_bytes ?items) r'"
    "read_event [] (reader_new reads) = (Inr (Some (delivered_event None None (endpoint_event url))), [], r')"
    by (auto simp: reader_new_def)
  let ?c = "(legacy_client_new reads sink)\<lparr>lc_reader := r', lc_advertised_endpoint := Some url\<rparr>"
  have "establish [] (legacy_client_new reads sink) = (Inr url, [], ?c)"
    using r'(2) url assms(4)
    by (simp add: establish_def legacy_client_new_def delivered_event_def endpoint_event_def)
  moreover have "drain_messages decode ?c = (ms, Closed)"
    using drain_message_items [OF assms(1) _ valid(2), of ?c] inv r'(1)
    by (simp add: server_inv_def legacy_client_new_def)
  ultimately show ?thesis by blast
qed

definition example_encode :: "(unit, unit) json_rpc_message \<Rightarrow> transport_error + bytes" where
  "example_encode m = Inr (case m of Request _ \<Rightarrow> ''q'' @ [LF] | Response _ \<Rightarrow> ''s'' @ [LF])"

definition example_decode :: "bytes \<Rightarrow> transport_error + (unit, unit) json_rpc_message" where
  "example_decode bs = (if bs = ''q'' then Inr (Request ()) else Inr (Response ()))"

lemma example_server_run:
  "fold (server_step example_encode (\<lambda>q. Inr [])) [OpenServer [], SendMessage [Exhausted None OtherError] (Request ()),
      SendMessage [] (Response ())] (server_new \<lparr>out_accepted = [], out_writes = [], out_flushes = []\<rparr> [] ''/m'', []) =
   (\<lparr>sv_writer = \<lparr>wr_out = \<lparr>out_accepted = ''event: endpoint'' @ [LF] @ ''data: /m'' @ [LF, LF] @
        ''event: message'' @ [LF] @ ''id: 1'' @ [LF] @ ''data: s'' @ [LF, LF], out_writes = [], out_flushes = []\<rparr>,
        wr_event_counter = 1, wr_closed = False\<rparr>,
      sv_request_source = [], sv_endpoint_sent = True, sv_endpoint_url = ''/m'', sv_closed = False\<rparr>,
    [Response ()])"
proof -
  have "show_nat 1 = ''1''" by code_simp
  then show ?thesis
    by (simp add: writer_eval server_new_def legacy_open_def ensure_endpoint_sent_def write_endpoint_def
        endpoint_event_def legacy_server_send_def server_send_def example_encode_def del: utf8_valid.simps(2))
qed

theorem legacy_session_delivers_witness:
  "\<exists>c. establish [] (legacy_client_new [Chunk (''event: endpoint'' @ [LF] @ ''data: /m'' @ [LF, LF] @ ''eve''),
      ReadInterrupted, Chunk (''nt: message'' @ [LF] @ ''id: 1'' @ [LF] @ ''data: s'' @ [LF, LF])]
      \<lparr>ps_posts = [], ps_answers = []\<rparr>) = (Inr ''/m'', [], c) \<and>
    drain_messages example_decode c = ([Response ()], Closed)"
proof -
  have law: "list_all (codec_law example_encode example_decode) [Response ()]"
    by (simp add: codec_law_def example_encode_def example_decode_def)
  show ?thesis
    by (rule legacy_session_delivers [OF law _ _ _ example_server_run]) simp_all
qed

text \<open>
  C39: No post goes astray.  Whatever calls are made on the exact client adapter, every post it hands to
  the HTTP adapter goes to the endpoint it has latched, and once an endpoint is latched no later event
  can replace it.
\<close>

theorem posts_go_to_advertised_endpoint:
  assumes "c = fold (client_step encode decode) before (legacy_client_new reads \<lparr>ps_posts = [], ps_answers = answers\<rparr>)"
    and "c' = fold (client_step encode decode) later c"
  shows "(\<forall>(e, body) \<in> set (ps_posts (lc_post_sink c')). lc_advertised_endpoint c' = Some e) \<and>
    (lc_advertised_endpoint c \<noteq> None \<longrightarrow> lc_advertised_endpoint c' = lc_advertised_endpoint c)"
proof -
  let ?new = "legacy_client_new reads \<lparr>ps_posts = [], ps_answers = answers\<rparr>"
  have "posts_ok None c" unfolding assms(1)
    by (rule client_machine.run_keeps) (simp_all add: posts_ok_def legacy_client_new_def admissible_const)
  then have "posts_ok (lc_advertised_endpoint c) c" by (simp add: posts_ok_def)
  then have "posts_ok (lc_advertised_endpoint c) c'" unfolding assms(2)
    by (rule client_machine.run_keeps) (simp add: admissible_const)
  then show ?thesis unfolding posts_ok_def .
qed

lemma example_client_run:
  "ps_posts (lc_post_sink (fold (client_step example_encode example_decode) [ClientSend [] (Request ())]
      (fold (client_step example_encode example_decode) [ClientSend [] (Request ()), Establish []]
        (legacy_client_new [Chunk (''event: endpoint'' @ [LF] @ ''data: /m'' @ [LF, LF])]
          \<lparr>ps_posts = [], ps_answers = []\<rparr>)))) = [(''/m'', ''q'' @ [LF])]"
proof -
  let ?r = "reader_new [Chunk (''event: endpoint'' @ [LF] @ ''data: /m'' @ [LF, LF])]"
  have valid: "valid_item (EventItem (endpoint_event ''/m''))"
    by (simp add: writer_eval endpoint_event_def del: utf8_valid.simps(2))
  have start: "ready (item_bytes (EventItem (endpoint_event ''/m'')) @ []) ?r"
    by (simp add: ready_def pending_def reader_new_def item_bytes_def event_lines_def endpoint_event_def
        payload_lines_def strip_cr_eq)
  have new: "rd_last_event_id ?r = None" "rd_reconnection_time ?r = None"
    by (simp_all add: reader_new_def)
  obtain r' where
    "read_event [] ?r = (Inr (Some (delivered_event None None (endpoint_event ''/m''))), [], r')"
    by (rule read_event_item [OF valid start, unfolded new])
  then show ?thesis
    by (simp add: legacy_client_send_def establish_def legacy_client_new_def delivered_event_def
        endpoint_event_def payload_lines_def strip_cr_eq example_encode_def post_message_def)
qed

theorem posts_go_to_advertised_endpoint_witness:
  "lc_advertised_endpoint (fold (client_step example_encode example_decode) [ClientSend [] (Request ())]
      (fold (client_step example_encode example_decode) [ClientSend [] (Request ()), Establish []]
        (legacy_client_new [Chunk (''event: endpoint'' @ [LF] @ ''data: /m'' @ [LF, LF])]
          \<lparr>ps_posts = [], ps_answers = []\<rparr>))) = Some ''/m''"
  using posts_go_to_advertised_endpoint [OF refl refl, of example_encode example_decode
      "[ClientSend [] (Request ())]" "[ClientSend [] (Request ()), Establish []]"
      "[Chunk (''event: endpoint'' @ [LF] @ ''data: /m'' @ [LF, LF])]" "[]"]
  unfolding example_client_run by simp

end
