(* ===== verification/Message_Codec.thy ===== *)
theory Message_Codec
  imports Sse_Wire_Laws
begin

text \<open>
  The message codec of the transport (\<open>Codec\<close>, fastmcp-transport/src/codec.rs): the bounded encoder, and
  the decoder of newline-delimited frames, over a decoder of one complete frame
  (\<open>decode_complete_message\<close>, a parameter here that gets the codec's size limit).
\<close>

section \<open>The codec\<close>

datatype invalid_message_kind = RequestKind | ResponseKind

text \<open>\<open>CodecError\<close> without the errors of serde that it wraps; \<open>'i\<close> is the type of request ids.\<close>

datatype 'i codec_failure =
    CodecJson
  | CodecInvalidMessage invalid_message_kind "'i option"
  | CodecMessageTooLarge nat

record codec =
  cd_buffer :: bytes
  cd_max_message_size :: nat

definition codec_new :: codec where
  "codec_new = \<lparr>cd_buffer = [], cd_max_message_size = 10 * 1024 * 1024\<rparr>"

definition set_max_message_size :: "nat \<Rightarrow> codec \<Rightarrow> codec" where
  "set_max_message_size n c =
     (let c = c\<lparr>cd_max_message_size := n\<rparr>
      in if length (strip_cr (cd_buffer c)) > n then c\<lparr>cd_buffer := []\<rparr> else c)"

definition codec_clear :: "codec \<Rightarrow> codec" where
  "codec_clear c = c\<lparr>cd_buffer := []\<rparr>"

section \<open>Encoding\<close>

record bounded_encode_buffer =
  eb_bytes :: bytes
  eb_max_message_size :: nat
  eb_rejected_size :: "nat option"

definition encode_buffer_new :: "nat \<Rightarrow> bounded_encode_buffer" where
  "encode_buffer_new n = \<lparr>eb_bytes = [], eb_max_message_size = n, eb_rejected_size = None\<rparr>"

definition encode_buffer_write :: "bounded_encode_buffer \<Rightarrow> bytes \<Rightarrow> bounded_encode_buffer \<times> bool" where
  "encode_buffer_write b bs =
     (let next_size = sat_add (length (eb_bytes b)) (length bs)
      in if next_size > eb_max_message_size b then (b\<lparr>eb_rejected_size := Some next_size\<rparr>, False)
         else (b\<lparr>eb_bytes := eb_bytes b @ bs\<rparr>, True))"

text \<open>\<open>ser\<close> is what the serializer would write for the value, and whether it completes.\<close>

definition encode_value :: "codec \<Rightarrow> ser_run \<Rightarrow> 'i codec_failure + bytes" where
  "encode_value c ser =
     (case to_writer encode_buffer_write (encode_buffer_new (cd_max_message_size c)) ser of
        (output, False) \<Rightarrow>
          (case eb_rejected_size output of
             Some n \<Rightarrow> Inl (CodecMessageTooLarge n) | None \<Rightarrow> Inl CodecJson)
      | (output, True) \<Rightarrow> Inr (eb_bytes output @ [LF]))"

text \<open>\<open>encode_request\<close> and \<open>encode_response\<close>; \<open>valid\<close> is the result of the message's \<open>validate\<close>.\<close>

definition encode_message :: "codec \<Rightarrow> bool \<Rightarrow> ser_run \<Rightarrow> 'i codec_failure + bytes" where
  "encode_message c valid ser = (if valid then encode_value c ser else Inl CodecJson)"

section \<open>Framing\<close>

definition trailing_cr :: "bytes \<Rightarrow> bytes \<Rightarrow> bool" where
  "trailing_cr buffer fragment =
     (if fragment \<noteq> [] then last fragment = CR else buffer \<noteq> [] \<and> last buffer = CR)"

definition framed_size :: "bytes \<Rightarrow> bytes \<Rightarrow> nat" where
  "framed_size buffer fragment =
     sat_add (length buffer) (length fragment) - (if trailing_cr buffer fragment then 1 else 0)"

function decode_loop ::
  "(nat \<Rightarrow> bytes \<Rightarrow> 'i codec_failure + 'm) \<Rightarrow> codec \<Rightarrow> 'm list \<Rightarrow> bytes
     \<Rightarrow> ('i codec_failure + 'm list) \<times> codec" where
  "decode_loop decode_complete c messages remaining =
     (case position (\<lambda>b. b = LF) remaining of
        None \<Rightarrow>
          (let n = framed_size (cd_buffer c) remaining
           in if n > cd_max_message_size c then (Inl (CodecMessageTooLarge n), codec_clear c)
              else (Inr messages, c\<lparr>cd_buffer := cd_buffer c @ remaining\<rparr>))
      | Some newline_position \<Rightarrow>
          (let fragment = take newline_position remaining;
               n = framed_size (cd_buffer c) fragment
           in if n > cd_max_message_size c then (Inl (CodecMessageTooLarge n), codec_clear c)
              else
                (let frame = strip_cr (if cd_buffer c = [] then fragment else cd_buffer c @ fragment);
                     rest = drop (Suc newline_position) remaining
                 in if frame = [] then decode_loop decode_complete (codec_clear c) messages rest
                    else (case decode_complete (cd_max_message_size c) frame of
                       Inl e \<Rightarrow> (Inl e, codec_clear c)
                     | Inr m \<Rightarrow> decode_loop decode_complete (codec_clear c) (messages @ [m]) rest))))"
  by pat_completeness auto
termination
  by (relation "measure (\<lambda>(_, _, _, remaining). length remaining)")
    (auto simp: position_Some_iff)

declare decode_loop.simps [simp del]

definition codec_decode ::
  "(nat \<Rightarrow> bytes \<Rightarrow> 'i codec_failure + 'm) \<Rightarrow> codec \<Rightarrow> bytes \<Rightarrow> ('i codec_failure + 'm list) \<times> codec" where
  "codec_decode decode_complete c data = decode_loop decode_complete c [] data"

text \<open>Decoding one chunk after another, up to the first error.\<close>

fun decode_chunks ::
  "(nat \<Rightarrow> bytes \<Rightarrow> 'i codec_failure + 'm) \<Rightarrow> codec \<Rightarrow> bytes list \<Rightarrow> ('i codec_failure + 'm list) \<times> codec" where
  "decode_chunks decode_complete c [] = (Inr [], c)"
| "decode_chunks decode_complete c (ch # chs) =
     (case codec_decode decode_complete c ch of
        (Inl e, c') \<Rightarrow> (Inl e, c')
      | (Inr ms, c') \<Rightarrow>
          (case decode_chunks decode_complete c' chs of
             (Inl e, c'') \<Rightarrow> (Inl e, c'')
           | (Inr ms', c'') \<Rightarrow> (Inr (ms @ ms'), c'')))"

section \<open>The frames of a stream\<close>

text \<open>
  The reference: cut the whole stream at line feeds, take one carriage return off each line, skip the
  empty ones and decode the others, up to the first one that is too large or refused.  The size
  an oversized frame is reported with is left out: the decoder reports what it has seen of it.
\<close>

fun error_class :: "'i codec_failure \<Rightarrow> 'i codec_failure" where
  "error_class (CodecMessageTooLarge n) = CodecMessageTooLarge 0"
| "error_class e = e"

fun outcome :: "('i codec_failure + 'm list) \<times> codec \<Rightarrow> 'i codec_failure + ('m list \<times> codec)" where
  "outcome (Inl e, c) = Inl (error_class e)"
| "outcome (Inr ms, c) = Inr (ms, c)"

fun decode_lines_ref ::
  "(nat \<Rightarrow> bytes \<Rightarrow> 'i codec_failure + 'm) \<Rightarrow> nat \<Rightarrow> bytes list \<Rightarrow> 'i codec_failure + 'm list" where
  "decode_lines_ref decode_complete limit [] = Inr []"
| "decode_lines_ref decode_complete limit (l # ls) =
     (let frame = strip_cr l
      in if length frame > limit then Inl (CodecMessageTooLarge 0)
         else if frame = [] then decode_lines_ref decode_complete limit ls
         else (case decode_complete limit frame of
            Inl e \<Rightarrow> Inl (error_class e)
          | Inr m \<Rightarrow> map_sum id (\<lambda>ms. m # ms) (decode_lines_ref decode_complete limit ls)))"

definition decode_stream_ref ::
  "(nat \<Rightarrow> bytes \<Rightarrow> 'i codec_failure + 'm) \<Rightarrow> nat \<Rightarrow> bytes \<Rightarrow> 'i codec_failure + ('m list \<times> bytes)" where
  "decode_stream_ref decode_complete limit s =
     (case decode_lines_ref decode_complete limit (butlast (split_lf s)) of
        Inl e \<Rightarrow> Inl e
      | Inr ms \<Rightarrow>
          if length (strip_cr (last (split_lf s))) > limit then Inl (CodecMessageTooLarge 0)
          else Inr (ms, last (split_lf s)))"

definition codec_wf :: "codec \<Rightarrow> bool" where
  "codec_wf c \<longleftrightarrow> LF \<notin> set (cd_buffer c) \<and> length (strip_cr (cd_buffer c)) \<le> cd_max_message_size c"

section \<open>Cutting at line feeds\<close>

lemma split_lf_single: "LF \<notin> set b \<Longrightarrow> split_lf b = [b]"
  by (induction b) auto

lemma split_lf_at: "LF \<notin> set b \<Longrightarrow> split_lf (b @ LF # r) = b # split_lf r"
  by (induction b) auto

lemma split_lf_append:
  "split_lf (s @ t) = butlast (split_lf s) @ split_lf (last (split_lf s) @ t)"
proof (induction s)
  case (Cons a s)
  obtain l ls where s: "split_lf s = l # ls" by (cases "split_lf s") auto
  then show ?case using Cons by (cases ls) (auto split: list.split)
qed simp

lemma split_lf_prefix:
  "LF \<notin> set b \<Longrightarrow> \<exists>x ls. split_lf (b @ t) = (b @ x) # ls"
proof (induction b)
  case Nil
  then show ?case by (cases "split_lf t") auto
next
  case (Cons a b)
  then show ?case by (auto)
qed

lemma strip_cr_length_mono: "length (strip_cr b) \<le> length (strip_cr (b @ x))"
  by (cases x rule: rev_cases) (auto simp: strip_cr_eq)

lemma framed_size_exceeds:
  "limit + 1 < u64_max \<Longrightarrow>
   framed_size b f > limit \<longleftrightarrow> length (strip_cr (b @ f)) > limit"
  by (auto simp: framed_size_def trailing_cr_def strip_cr_eq sat_add_def)

section \<open>One call\<close>

lemma decode_lines_ref_append:
  "decode_lines_ref dc limit (xs @ ys) =
     (case decode_lines_ref dc limit xs of
        Inl e \<Rightarrow> Inl e
      | Inr ms \<Rightarrow> map_sum id (\<lambda>ms'. ms @ ms') (decode_lines_ref dc limit ys))"
  by (cases "decode_lines_ref dc limit ys"; induction xs) (auto simp: Let_def split: sum.splits)

lemma decode_stream_ref_line:
  assumes "LF \<notin> set l"
  shows "decode_stream_ref dc limit (l @ LF # s) =
     (let frame = strip_cr l
      in if length frame > limit then Inl (CodecMessageTooLarge 0)
         else if frame = [] then decode_stream_ref dc limit s
         else (case dc limit frame of
            Inl e \<Rightarrow> Inl (error_class e)
          | Inr m \<Rightarrow> map_sum id (\<lambda>(ms, b). (m # ms, b)) (decode_stream_ref dc limit s)))"
  using assms
  by (auto simp: decode_stream_ref_def split_lf_at Let_def
      split: sum.splits)

lemma decode_loop_ref:
  assumes "LF \<notin> set (cd_buffer c)" "cd_max_message_size c + 1 < u64_max"
  shows "outcome (decode_loop dc c ms r) =
     map_sum id (\<lambda>(ms', b). (ms @ ms', c\<lparr>cd_buffer := b\<rparr>))
       (decode_stream_ref dc (cd_max_message_size c) (cd_buffer c @ r))"
  using assms
proof (induction dc c ms r rule: decode_loop.induct)
  case (1 dc c ms r)
  let ?b = "cd_buffer c" and ?n = "cd_max_message_size c"
  show ?case
  proof (cases "position (\<lambda>b. b = LF) r")
    case None
    then have "LF \<notin> set (?b @ r)" using "1.prems" by (auto simp: position_None_iff)
    then show ?thesis
      using None "1.prems"
      by (simp add: decode_loop.simps [of dc c] decode_stream_ref_def split_lf_single
          framed_size_exceeds Let_def del: set_append)
  next
    case (Some p)
    let ?f = "take p r" and ?r = "drop (Suc p) r"
    have r: "r = ?f @ LF # ?r" and f: "LF \<notin> set (?b @ ?f)"
      using Some "1.prems" id_take_nth_drop [of p r]
      by (auto simp: position_Some_iff in_set_conv_nth)
    have ref: "decode_stream_ref dc ?n (?b @ r) = decode_stream_ref dc ?n ((?b @ ?f) @ LF # ?r)"
      using r by simp
    let ?frame = "strip_cr (?b @ ?f)" and ?c = "codec_clear c"
    have buf: "(if ?b = [] then ?f else ?b @ ?f) = ?b @ ?f" by simp
    have IH: "outcome (decode_loop dc ?c ms' ?r) =
        map_sum id (\<lambda>(ms'', b). (ms' @ ms'', c\<lparr>cd_buffer := b\<rparr>)) (decode_stream_ref dc ?n ?r)"
      if "\<not> length ?frame > ?n" "ms' = ms \<and> ?frame = [] \<or> (\<exists>m. ms' = ms @ [m] \<and> ?frame \<noteq> [] \<and> dc ?n ?frame = Inr m)"
      for ms'
      using that "1.prems" "1.IH" [OF Some refl refl _ refl refl, unfolded buf]
      by (auto simp: codec_clear_def framed_size_exceeds id_def)
    show ?thesis
      unfolding ref decode_stream_ref_line [OF f] decode_loop.simps [of dc c] Some
      using IH "1.prems"
      by (cases "decode_stream_ref dc ?n ?r"; cases "dc ?n ?frame")
        (auto simp: Let_def framed_size_exceeds)
  qed
qed

lemma decode_stream_ref_append:
  "decode_stream_ref dc limit (s @ t) =
     (case decode_stream_ref dc limit s of
        Inl e \<Rightarrow> Inl e
      | Inr (ms, b) \<Rightarrow> map_sum id (\<lambda>(ms', b'). (ms @ ms', b')) (decode_stream_ref dc limit (b @ t)))"
proof -
  let ?b = "last (split_lf s)"
  have "LF \<notin> set ?b" by (rule split_lf_no_LF [of _ s]) simp
  then obtain x ls where x: "split_lf (?b @ t) = (?b @ x) # ls" using split_lf_prefix by blast
  have long: "decode_stream_ref dc limit (?b @ t) = Inl (CodecMessageTooLarge 0)"
    if "length (strip_cr ?b) > limit"
    using that x strip_cr_length_mono [of ?b x] by (auto simp: decode_stream_ref_def)
  have "decode_stream_ref dc limit (s @ t) =
     (case decode_lines_ref dc limit (butlast (split_lf s)) of
        Inl e \<Rightarrow> Inl e
      | Inr ms \<Rightarrow> map_sum id (\<lambda>(ms', b'). (ms @ ms', b')) (decode_stream_ref dc limit (?b @ t)))"
    by (simp add: decode_stream_ref_def split_lf_append [of s t] butlast_append
        decode_lines_ref_append split: sum.splits)
  then show ?thesis
    using long by (auto simp: decode_stream_ref_def [of dc limit s] split: sum.splits)
qed

section \<open>Any number of calls\<close>

lemma decode_stream_ref_wf:
  assumes "decode_stream_ref dc (cd_max_message_size c) s = Inr (ms, b)"
  shows "codec_wf (c\<lparr>cd_buffer := b\<rparr>)"
  using assms split_lf_no_LF [of "last (split_lf s)" s]
  by (auto simp: decode_stream_ref_def codec_wf_def split: sum.splits if_split_asm)

lemma codec_decode_ref:
  assumes "codec_wf c" "cd_max_message_size c + 1 < u64_max"
  shows "outcome (codec_decode dc c data) =
     map_sum id (\<lambda>(ms, b). (ms, c\<lparr>cd_buffer := b\<rparr>))
       (decode_stream_ref dc (cd_max_message_size c) (cd_buffer c @ data))"
  using assms by (simp add: codec_decode_def decode_loop_ref codec_wf_def)

lemma decode_stream_ref_buffer:
  "codec_wf c \<Longrightarrow> decode_stream_ref dc (cd_max_message_size c) (cd_buffer c) = Inr ([], cd_buffer c)"
  by (simp add: decode_stream_ref_def codec_wf_def split_lf_single)

lemma decode_chunks_ref:
  assumes "codec_wf c" and "cd_max_message_size c + 1 < u64_max"
  shows "outcome (decode_chunks decode_complete c chs) =
     map_sum id (\<lambda>(ms, b). (ms, c\<lparr>cd_buffer := b\<rparr>))
       (decode_stream_ref decode_complete (cd_max_message_size c) (cd_buffer c @ concat chs))"
  using assms
proof (induction chs arbitrary: c)
  case Nil
  then show ?case by (simp add: decode_stream_ref_buffer)
next
  case (Cons ch chs)
  let ?n = "cd_max_message_size c" and ?s = "cd_buffer c @ ch"
  note call = codec_decode_ref [OF Cons.prems, of decode_complete ch]
  show ?case
  proof (cases "decode_stream_ref decode_complete ?n ?s")
    case (Inl e)
    then show ?thesis
      using call decode_stream_ref_append [of decode_complete ?n ?s "concat chs"]
      by (cases "codec_decode decode_complete c ch" rule: outcome.cases) auto
  next
    case (Inr mb)
    then obtain ms b where mb: "decode_stream_ref decode_complete ?n ?s = Inr (ms, b)" by (cases mb) auto
    then have "codec_decode decode_complete c ch = (Inr ms, c\<lparr>cd_buffer := b\<rparr>)"
      using call by (cases "codec_decode decode_complete c ch" rule: outcome.cases) auto
    moreover have "outcome (decode_chunks decode_complete (c\<lparr>cd_buffer := b\<rparr>) chs) =
        map_sum id (\<lambda>(ms, b). (ms, c\<lparr>cd_buffer := b\<rparr>))
          (decode_stream_ref decode_complete ?n (b @ concat chs))"
      using Cons.IH [OF decode_stream_ref_wf [OF mb]] Cons.prems(2) by (simp add: id_def)
    ultimately show ?thesis
      using mb decode_stream_ref_append [of decode_complete ?n ?s "concat chs"]
      by (cases "decode_stream_ref decode_complete ?n (b @ concat chs)";
          cases "decode_chunks decode_complete (c\<lparr>cd_buffer := b\<rparr>) chs" rule: outcome.cases) auto
  qed
qed

text \<open>
  C13: however a byte stream is cut into reads, feeding the pieces to \<open>Codec::decode\<close> one after another
  gives what cutting the whole stream at line feeds gives: the messages of the complete non-empty lines,
  each without its final carriage return, in order, with the unfinished last line kept in the buffer;
  or the failure of the first line that is over the limit or that the message decoder refuses.
\<close>

theorem decode_is_chunk_independent:
  assumes "codec_wf c" and "cd_max_message_size c + 1 < u64_max"
  shows "outcome (decode_chunks decode_complete c chs) =
     map_sum id (\<lambda>(ms, b). (ms, c\<lparr>cd_buffer := b\<rparr>))
       (decode_stream_ref decode_complete (cd_max_message_size c) (cd_buffer c @ concat chs))"
  using assms by (rule decode_chunks_ref)

text \<open>Messages that are their own text: refused only when they start with \<open>!\<close>.\<close>

definition text_decode :: "nat \<Rightarrow> bytes \<Rightarrow> unit codec_failure + bytes" where
  "text_decode limit frame =
     (if hd frame = CHR ''!'' then Inl (CodecInvalidMessage RequestKind None) else Inr frame)"

theorem decode_is_chunk_independent_witness:
  "outcome (decode_chunks text_decode (set_max_message_size 4 codec_new) [''{'', ''}'' @ [CR], LF # ''[1'']) =
     Inr ([''{}''], (set_max_message_size 4 codec_new)\<lparr>cd_buffer := ''[1''\<rparr>)
   \<and> outcome (decode_chunks text_decode (set_max_message_size 4 codec_new) [''{}'' @ [LF], ''[1,2,'']) =
     Inl (CodecMessageTooLarge 0)"
proof
  let ?c = "set_max_message_size 4 codec_new"
  have c: "codec_wf ?c" "cd_max_message_size ?c + 1 < u64_max" "cd_buffer ?c = []" "cd_max_message_size ?c = 4"
    by (simp_all add: codec_wf_def set_max_message_size_def codec_new_def u64_max_def Let_def)
  have ref: "decode_stream_ref text_decode 4 (''{}'' @ CR # LF # ''[1'') = Inr ([''{}''], ''[1'')"
    "decode_stream_ref text_decode 4 (''{}'' @ LF # ''[1,2,'') = Inl (CodecMessageTooLarge 0)"
    by (simp_all add: decode_stream_ref_def strip_cr_eq text_decode_def)
  show "outcome (decode_chunks text_decode ?c [''{'', ''}'' @ [CR], LF # ''[1'']) =
      Inr ([''{}''], ?c\<lparr>cd_buffer := ''[1''\<rparr>)"
    using decode_is_chunk_independent [OF c(1,2), of text_decode "[''{'', ''}'' @ [CR], LF # ''[1'']"] ref c
    by simp
  show "outcome (decode_chunks text_decode ?c [''{}'' @ [LF], ''[1,2,'']) = Inl (CodecMessageTooLarge 0)"
    using decode_is_chunk_independent [OF c(1,2), of text_decode "[''{}'' @ [LF], ''[1,2,'']"] ref c
    by simp
qed

section \<open>The encoder\<close>

lemma encode_buffer_write_eq:
  "eb_max_message_size b < u64_max \<Longrightarrow>
   encode_buffer_write b bs =
     (if length (eb_bytes b) + length bs > eb_max_message_size b
      then (b\<lparr>eb_rejected_size := Some (sat_add (length (eb_bytes b)) (length bs))\<rparr>, False)
      else (b\<lparr>eb_bytes := eb_bytes b @ bs\<rparr>, True))"
  by (auto simp: encode_buffer_write_def sat_add_def Let_def)

lemma encode_buffer_write_all:
  assumes "write_all encode_buffer_write b ws = (w, fine)"
    and "eb_max_message_size b < u64_max" "length (eb_bytes b) \<le> eb_max_message_size b"
  shows "fine = (length (eb_bytes b) + length (concat ws) \<le> eb_max_message_size b)
     \<and> (fine \<longrightarrow> eb_bytes w = eb_bytes b @ concat ws)"
  using assms
proof (induction ws arbitrary: b)
  case (Cons x ws)
  show ?case
  proof (cases "x = []")
    case False
    then show ?thesis
      using Cons.prems Cons.IH [of "b\<lparr>eb_bytes := eb_bytes b @ x\<rparr>"]
      by (auto simp: encode_buffer_write_eq split: if_split_asm)
  qed (use Cons in auto)
qed auto

lemma encode_value_Inr_iff:
  assumes "cd_max_message_size c < u64_max"
  shows "encode_value c ser = Inr frame \<longleftrightarrow>
     snd ser \<and> length (concat (fst ser)) \<le> cd_max_message_size c \<and> frame = concat (fst ser) @ [LF]"
proof -
  obtain w fine where w: "write_all encode_buffer_write (encode_buffer_new (cd_max_message_size c)) (fst ser) = (w, fine)"
    by (metis surj_pair)
  show ?thesis
    using encode_buffer_write_all [OF w] assms w
    by (cases "fine \<and> snd ser")
      (auto simp: encode_value_def to_writer_def encode_buffer_new_def split: option.splits)
qed

text \<open>A serialized message is one line: not empty, without a line feed and without a final carriage return.\<close>

definition one_line :: "bytes \<Rightarrow> bool" where
  "one_line s \<longleftrightarrow> s \<noteq> [] \<and> LF \<notin> set s \<and> last s \<noteq> CR"

text \<open>The results of decoding complete frames one after another, up to the first refusal.\<close>

fun decode_all :: "(bytes \<Rightarrow> 'i codec_failure + 'm) \<Rightarrow> bytes list \<Rightarrow> 'i codec_failure + 'm list" where
  "decode_all decode_complete [] = Inr []"
| "decode_all decode_complete (t # ts) =
     (case decode_complete t of
        Inl e \<Rightarrow> Inl e
      | Inr m \<Rightarrow> map_sum id (\<lambda>ms. m # ms) (decode_all decode_complete ts))"

lemma decode_stream_ref_frames:
  assumes "\<forall>t \<in> set ts. one_line t \<and> length t \<le> limit"
  shows "decode_stream_ref dc limit (concat (map (\<lambda>t. t @ [LF]) ts)) =
    map_sum error_class (\<lambda>ms. (ms, [])) (decode_all (dc limit) ts)"
  using assms
proof (induction ts)
  case Nil
  then show ?case by (simp add: decode_stream_ref_def)
next
  case (Cons t ts)
  then have "strip_cr t = t" by (simp add: one_line_def strip_cr_eq)
  with Cons show ?case
    by (cases "decode_all (dc limit) ts"; cases "dc limit t") (simp_all add: decode_stream_ref_line one_line_def)
qed

text \<open>
  C14: framing is transparent.  Encode any messages one after another, cut the bytes into pieces
  anywhere and feed the pieces to a codec with the same limit: the decoder of complete frames gets
  exactly the serialized text of each message, in order, and the outcome is what it makes of them:
  all of its results with nothing left in the buffer, or its first refusal.  In particular no frame the
  encoder lets pass is too large for the decoder.  The serialized text of a message is one line, as the
  compact form of the serializer is.
\<close>

theorem encoded_frames_reach_decoder:
  assumes "cd_buffer c = []" and "cd_max_message_size c + 1 < u64_max"
    and "\<forall>m \<in> set ms. one_line (concat (fst (ser m)))"
    and "map (\<lambda>m. encode_message c (valid m) (ser m)) ms = map Inr frames"
    and "concat chs = concat frames"
  shows "outcome (decode_chunks decode_complete c chs) =
    map_sum error_class (\<lambda>rs. (rs, c))
      (decode_all (decode_complete (cd_max_message_size c)) (map (\<lambda>m. concat (fst (ser m))) ms))"
proof -
  let ?text = "\<lambda>m. concat (fst (ser m))" and ?n = "cd_max_message_size c"
  have enc: "\<forall>m \<in> set ms. length (?text m) \<le> ?n" "frames = map (\<lambda>t. t @ [LF]) (map ?text ms)"
    using assms(2,4)
    by (induction ms arbitrary: frames)
      (auto simp: encode_message_def encode_value_Inr_iff Cons_eq_map_conv split: if_split_asm)
  have "decode_stream_ref decode_complete ?n (concat chs) =
      map_sum error_class (\<lambda>ms. (ms, [])) (decode_all (decode_complete ?n) (map ?text ms))"
    unfolding assms(5) enc(2) by (rule decode_stream_ref_frames) (use assms(3) enc(1) in auto)
  moreover have "codec_wf c" using assms(1) by (simp add: codec_wf_def)
  moreover have "c\<lparr>cd_buffer := []\<rparr> = c" using assms(1) by (cases c) simp
  ultimately show ?thesis
    using decode_chunks_ref [of c decode_complete chs] assms(1,2)
    by (cases "decode_all (decode_complete ?n) (map ?text ms)") simp_all
qed

theorem encoded_frames_reach_decoder_witness:
  "outcome (decode_chunks text_decode codec_new [''{}'' @ LF # ''['', '']'', [LF]]) = Inr ([''{}'', ''[]''], codec_new)
   \<and> outcome (decode_chunks text_decode codec_new [''{}'' @ LF # ''!'', ''x'' @ [LF]]) =
       Inl (CodecInvalidMessage RequestKind None)"
proof -
  have c: "cd_buffer codec_new = []" "cd_max_message_size codec_new + 1 < u64_max"
    by (simp_all add: codec_new_def u64_max_def)
  note run = encoded_frames_reach_decoder [OF c, where ser = "\<lambda>m. ([m], True)" and valid = "\<lambda>m. True"
      and decode_complete = text_decode]
  have enc: "encode_message codec_new True ([m], True) = Inr (m @ [LF])" if "length m = 2" for m
    using that by (simp add: encode_message_def encode_value_Inr_iff codec_new_def u64_max_def)
  show ?thesis
    using run [of "[''{}'', ''[]'']" "[''{}'' @ [LF], ''[]'' @ [LF]]" "[''{}'' @ LF # ''['', '']'', [LF]]"]
      run [of "[''{}'', ''!x'']" "[''{}'' @ [LF], ''!x'' @ [LF]]" "[''{}'' @ LF # ''!'', ''x'' @ [LF]]"]
    by (simp add: one_line_def enc text_decode_def)
qed

section \<open>The retained bytes\<close>

datatype codec_op = DecodeBytes bytes | SetMaxMessageSize nat | ClearBuffer

fun codec_step :: "(nat \<Rightarrow> bytes \<Rightarrow> 'i codec_failure + 'm) \<Rightarrow> codec_op \<Rightarrow> codec \<Rightarrow> codec" where
  "codec_step dc (DecodeBytes data) c = snd (codec_decode dc c data)"
| "codec_step dc (SetMaxMessageSize n) c = set_max_message_size n c"
| "codec_step dc ClearBuffer c = codec_clear c"

fun codec_pre :: "codec_op \<Rightarrow> codec \<Rightarrow> bool" where
  "codec_pre (SetMaxMessageSize n) c = (n + 1 < u64_max)"
| "codec_pre a c = True"

definition codec_inv :: "codec \<Rightarrow> bool" where
  "codec_inv c \<longleftrightarrow> codec_wf c \<and> cd_max_message_size c + 1 < u64_max"

lemma decode_loop_error: "decode_loop dc c ms r = (Inl e, c') \<Longrightarrow> c' = codec_clear c"
proof (induction dc c ms r rule: decode_loop.induct)
  case (1 dc c ms r)
  from "1.prems" show ?case
    unfolding decode_loop.simps [of dc c]
    using "1.IH"
    by (auto simp: Let_def codec_clear_def split: option.split_asm if_split_asm sum.split_asm)
qed

lemma codec_step_inv: "codec_inv c \<Longrightarrow> codec_pre a c \<Longrightarrow> codec_inv (codec_step dc a c)"
proof (induction a)
  case (DecodeBytes data)
  then have c: "codec_wf c" "cd_max_message_size c + 1 < u64_max" by (simp_all add: codec_inv_def)
  show ?case
  proof (cases "codec_decode dc c data" rule: outcome.cases)
    case (1 e c')
    then show ?thesis
      using c decode_loop_error [of dc c "[]" data]
      by (auto simp: codec_decode_def codec_inv_def codec_clear_def codec_wf_def)
  next
    case (2 ms c')
    then obtain b where "decode_stream_ref dc (cd_max_message_size c) (cd_buffer c @ data) = Inr (ms, b)"
      "c' = c\<lparr>cd_buffer := b\<rparr>"
      using codec_decode_ref [OF c, of dc data]
      by (cases "decode_stream_ref dc (cd_max_message_size c) (cd_buffer c @ data)") auto
    then show ?thesis using 2 c decode_stream_ref_wf [of dc c] by (simp add: codec_inv_def)
  qed
qed (auto simp: codec_inv_def codec_wf_def codec_clear_def set_max_message_size_def Let_def)

interpretation codec_machine: guarded_machine codec_inv codec_pre "codec_step dc" for dc
  by unfold_locales (rule codec_step_inv)

text \<open>
  C40: the codec never retains more than one unfinished frame within its limit.  After any sequence of
  decoding calls (failing ones included), limit changes and clears, the buffer holds no line feed and
  at most one byte, a carriage return, beyond the limit then in force.
\<close>

theorem codec_buffer_bounded:
  assumes "admissible codec_pre (codec_step decode_complete) ops codec_new"
  defines "c \<equiv> fold (codec_step decode_complete) ops codec_new"
  shows "LF \<notin> set (cd_buffer c) \<and> length (cd_buffer c) \<le> cd_max_message_size c + 1
    \<and> (length (cd_buffer c) > cd_max_message_size c \<longrightarrow> last (cd_buffer c) = CR)"
proof -
  have "codec_inv codec_new" by (simp add: codec_inv_def codec_wf_def codec_new_def u64_max_def)
  then have "codec_inv c" unfolding c_def using assms(1) by (rule codec_machine.run_keeps)
  then show ?thesis by (auto simp: codec_inv_def codec_wf_def strip_cr_eq split: if_split_asm)
qed

theorem codec_buffer_bounded_witness:
  "let c = fold (codec_step text_decode) [SetMaxMessageSize 3, DecodeBytes (''{}'' @ LF # ''abc'' @ [CR])] codec_new
   in LF \<notin> set (cd_buffer c) \<and> length (cd_buffer c) \<le> cd_max_message_size c + 1
     \<and> (length (cd_buffer c) > cd_max_message_size c \<longrightarrow> last (cd_buffer c) = CR)"
  using codec_buffer_bounded [of text_decode "[SetMaxMessageSize 3, DecodeBytes (''{}'' @ LF # ''abc'' @ [CR])]"]
  by (simp add: u64_max_def Let_def)

end
