(* ===== verification/Spec2Isabelle.thy ===== *)
theory Spec2Isabelle
  imports Event_Store Docket_Attempts Exact_Json_Sound Final_Cache_Runs Rate_Limiting_Middleware
    Sse_Delivery Sse_Transports Message_Codec
begin

text \<open>
  A verification library for a Rust framework for MCP servers and clients (\<open>src/crates\<close>).

  \<^bold>\<open>The program.\<close>  A server (fastmcp-server) answers JSON-RPC requests of a client (fastmcp-client)
  over a transport (fastmcp-transport); both share the message types and codecs of fastmcp-protocol
  and the runtime layer of fastmcp-core.  Over HTTP, the server sends its messages as an event stream:
  it frames them with \<open>SseEvent\<close> and \<open>SseWriter\<close>, keeps them in an event store for clients that
  reconnect, and the client cuts the stream into events with its bounded parser.  Results arrive as
  JSON documents that the protocol crate parses exactly, numbers and identifiers included, and that the
  client may keep in its result cache.  On the server, background tasks go through a task queue, and
  requests through rate-limiting middleware.  The development models these stateful and algorithmic
  parts; the surrounding asynchronous plumbing is described under \<^emph>\<open>Not modelled\<close>.

  \<^bold>\<open>Conventions.\<close>  A byte is a character of HOL, a string its UTF-8 bytes; \<open>usize\<close> and \<open>u64\<close> are natural
  numbers with the saturating, checked or wrapping operations of the source written out
  (\<open>sat_add\<close>, \<open>checked_add\<close>, \<open>u64_max\<close> of theory Prelude); \<open>Result\<close> is a sum with the error on the left; a
  mutable object is a record that each operation returns updated.  Clock readings are arguments.  Code
  outside the repository (serde, SHA-256, the runtime) is a parameter.  The iteration order of a hash
  map is either an association list or a parameter that permutes it.  Byte sinks and sources, and the
  budget of a call, are scripts of the answers they will give, so that every partial write, short read,
  interruption and refusal is covered.

  \<^bold>\<open>Theories.\<close>

  \<^item> Prelude: types, 64-bit arithmetic, results, lists, decimal numerals, and the locale
    \<open>guarded_machine\<close> (invariants along sequences of operations), which is interpreted for the task
    queue, the event store, the result cache, the event writer, the legacy server, the legacy client and
    the message codec.
    Utf8: validation and replacement decoding of the standard library.
  \<^item> Sse\_Parser: \<open>BoundedSseParser\<close> of fastmcp-client/src/sse.rs (\<open>push\<close>, \<open>push_with\<close>, \<open>complete_line\<close>,
    \<open>process_line\<close>, \<open>finish\<close>).  Every accepted stream yields the events of the WHATWG algorithm on the
    whole stream, independently of chunking; exactly the streams whose lines, events and runs of idle lines
    keep their limits are accepted; limits hold at every moment.
  \<^item> Modern\_Sse: \<open>ModernSseDecoder\<close> of fastmcp-transport/src/sse.rs, and that it agrees with the client's
    parser step by step.
  \<^item> Sse\_Wire, Sse\_Wire\_Laws, Sse\_Reader\_Laws: \<open>SseEvent\<close>, \<open>sse_commit_frame\<close>, \<open>SseWriter\<close> and \<open>SseReader\<close>
    of the same file.  The output of a writer is whole frames, but for one broken frame after which it
    is closed; the reader gives back the events written.  Sse\_Delivery carries the frames into the two
    decoders, for the property of this theory.
  \<^item> Sse\_Transports: \<open>SseServerTransport\<close> with its split halves, \<open>SseClientTransport\<close>,
    \<open>LegacySseServerTransport\<close> and \<open>LegacySseClientTransport\<close> of the same file.  A legacy session delivers
    the endpoint and then exactly the messages sent; posts go to the latched endpoint only.
  \<^item> Message\_Codec: the bounded encoder and the newline-delimited decoder of \<open>Codec\<close>
    (fastmcp-transport/src/codec.rs), over a decoder of complete frames.  The decoder computes the frames
    of the whole stream, however it is cut into reads; it hands the texts that were encoded to the frame
    decoder unchanged; the buffer stays within the limit.
  \<^item> Event\_Store: \<open>EventStore\<close> of fastmcp-transport/src/event_store.rs (\<open>store_event\<close>, \<open>replay_bounded\<close>,
    \<open>replay_events_after\<close>, clean-up, statistics).  The detailed store refines an abstract log per stream, keeps its limits and exact byte
    accounting, and paged replay (locale \<open>paged_log\<close>) returns the retained events in order and ends.
  \<^item> Docket, Docket\_Attempts: settings, tasks, backend trait, \<open>MemoryDocketBackend\<close>, \<open>Docket\<close> and \<open>Worker\<close>
    of fastmcp-server/src/docket.rs.  The locale \<open>docket_contract\<close> states what the clients of a backend
    rely on, and is interpreted for the in-memory backend.  Tasks are handed out in order of priority,
    each at most its allowed number of times; a worker empties the queue; a task cancelled while it runs is
    retried when it fails; two operations that take the locks in opposite orders can deadlock.
  \<^item> Json\_Number, Number\_Conversions: \<open>JsonInteger\<close> and \<open>ExactNonNegativeJsonNumber\<close>
    (fastmcp-protocol/src/common_types.rs), \<open>RequestId\<close> and correlation keys (jsonrpc.rs), cache lifetimes
    (result.rs), task durations (tasks_extension.rs).  Each digit-string algorithm computes with the
    exact value of its JSON token.
  \<^item> Exact\_Json, Exact\_Json\_Roundtrip, Exact\_Json\_Sound: \<open>ExactJsonValue\<close>, its encoder, \<open>ExactJsonParser\<close>
    and the size check of authored values (result.rs).  Arrays and objects are treated once, in the
    locales \<open>element_codec\<close> and \<open>element_reader\<close>.  Accepted documents are within all bounds and survive
    re-encoding; authored values that pass the size check survive the round trip; the check admits objects
    to half the depth of the parser.
  \<^item> Final\_Cache, Final\_Cache\_Laws, Final\_Cache\_Runs: \<open>FinalResultCache\<close> of fastmcp-client/src/cache.rs.
    Limits and accounting hold along every run; a result fetched before an invalidation is never stored
    after it; a fresh result is the one last stored for its key.
  \<^item> Rate\_Limiting, Rate\_Limiting\_Laws, Rate\_Limiting\_Middleware: \<open>SlidingWindowRateLimiter\<close>, the
    bounded store of client partitions and the sliding-window middleware of
    fastmcp-server/src/rate_limiting.rs.  The locale \<open>reset_probe\<close> states when reclaiming a partition is
    safe; the middleware counts every partition exactly, whatever is reclaimed.
  \<^item> This theory: the property that spans the writer, the client's parser and the transport's decoder.

  \<^bold>\<open>Loops.\<close>  All definitions are total, by structural recursion or with a termination proof; none uses
  fuel: the JSON parser recurses on the distance to the depth limit of the source.  The loops that wait for
  the outside world (writing, flushing, reading a line or an event) end because the script of answers
  is finite: when it is used up, a write takes the whole buffer, a flush succeeds, a read reports the
  end of the input and the budget lasts.  The loop of a worker, which runs until it is stopped, consumes
  one observation of its surroundings per round and says whether it has returned when they run out.

  \<^bold>\<open>Not modelled.\<close>  The token bucket of the rate limiter computes with floating-point numbers.  The Redis
  backend of the task queue is a client of an external server.  The message types and the result
  envelopes end in derived serde encodings, which are generated code.  The decoder of a complete message
  is therefore an arbitrary parameter of the codec, which covers the bounded admission scanners that run before
  serde (\<open>JsonAdmission\<close> of codec.rs and \<open>RawJsonScanner\<close> of jsonrpc.rs); the codec is a parameter of the
  transports, with the law \<open>codec_law\<close> for the messages of a session where a property needs it.  The byte transports (stdio,
  WebSocket, HTTP), the client and server cores (sessions, router, handlers, proxy), authorization and
  the runtime wrappers are asynchronous I/O over packages outside the repository.  Console, macros,
  command line, facade and test support render, generate or re-export code.  Of a modelled file, error
  texts, accessors and the memory reserved for buffers are left out.
\<close>

section \<open>From the writer to the decoders\<close>

text \<open>
  C8: Events written by the server reach both decoders.  When a new writer is still open after any
  sequence of calls, the bytes it has put out, cut into chunks in any way, are accepted by the
  client's parser with limits that leave room for the frames, and the payloads it dispatches are
  exactly the data of the events the reader of the legacy wire reports.  The transport's decoder with
  the same limits dispatches the same payloads.
\<close>

theorem written_events_reach_decoders:
  assumes "out_accepted out = []" and "list_all typed_op ops"
    and "fold (wire_step encode) ops (writer_new out, []) = (w, items)" and "\<not> wr_closed w"
    and "room_for_items lims items" and "concat chunks = out_accepted (wr_out w)"
  shows "fst (push_all chunks (sse_new lims)) = Some (Inr (map ev_data (delivered None None items))) \<and>
    fst (modern_push_all chunks (modern_new (modern_limits_of lims))) =
      Some (Inr (map ev_data (delivered None None items)))"
proof -
  have "wire_inv (w, items)"
    using writer_machine.run_keeps [OF wire_inv_new [OF assms(1)], of encode ops] assms(2,3)
    by (simp add: admissible_typed)
  then have "list_all valid_item items" "concat chunks = items_bytes items"
    using assms(4,6) by (auto simp: wire_inv_def)
  with assms(5) show ?thesis
    unfolding payloads_delivered [symmetric] by (blast intro: items_accepted items_accepted_modern)
qed

theorem written_events_reach_decoders_witness:
  "fst (push_all [''event: message'' @ [LF] @ ''id: 1'', [LF] @ ''data: {}'' @ [LF, LF] @ '': x'' @ [LF]]
     (sse_new \<lparr>lim_line_bytes = 65536, lim_event_bytes = 64, lim_keepalive_lines = 4, lim_data_lines = 1\<rparr>)) =
   Some (Inr [''{}''])"
proof -
  let ?lim = "\<lparr>lim_line_bytes = 65536, lim_event_bytes = 64, lim_keepalive_lines = 4, lim_data_lines = 1\<rparr>"
  let ?chunks = "[''event: message'' @ [LF] @ ''id: 1'', [LF] @ ''data: {}'' @ [LF, LF] @ '': x'' @ [LF]]"
  have room: "room_for_items ?lim [EventItem (with_id ''1'' (message_event ''{}'')), CommentItem ''x'']"
    by (simp add: room_for_items_def max_sse_line_size_def with_id_def message_event_def
        payload_lines_def strip_cr_eq)
  show ?thesis
    using written_events_reach_decoders [OF _ _ example_writer_run _ room, of ?chunks]
    by (simp add: example_out_def example_ops_def delivered_event_def with_id_def
        message_event_def payload_lines_def strip_cr_eq)
qed

end
